(* ===== verification/Prelude.thy ===== *)
theory Prelude
  imports Main "HOL-Library.Word" "HOL-Library.Multiset"
begin

text \<open>
  The vocabulary every component of the kernel core shares: the error domain of
  \<^verbatim>\<open>karch/src/error.rs\<close>, Rust's \<^verbatim>\<open>Result\<close> as the datatype \<open>res\<close>, the iterator and
  slice idioms the sources use (\<^verbatim>\<open>position\<close>, indexed writes, \<^verbatim>\<open>get\<close>), the 16/16-bit
  packing of generational ids, and the abstraction of a ring buffer to the list of
  its live slots.

  Conventions of the whole development: a method taking \<^verbatim>\<open>&mut self\<close> and returning
  \<^verbatim>\<open>Result<T, KError>\<close> is a function \<open>state \<Rightarrow> T res \<times> state\<close>: the state is returned
  on the error branches too, because Rust keeps what was written before an early
  return. A fixed-capacity array is a list whose length never changes.
\<close>

unbundle bit_operations_syntax

named_theorems slot_simps \<open>lookups and updates of slot arrays\<close>
named_theorems ring_simps \<open>the slice abstraction of ring buffers\<close>
named_theorems pack_simps \<open>packing of index and generation\<close>

type_synonym ThreadId = "64 word"
type_synonym VirtAddr = "64 word"
type_synonym PhysAddr = "64 word"

subsection \<open>Errors and results\<close>

datatype KError =
    OutOfMemory | Unaligned | WXViolation | AlreadyMapped | NotMapped
  | InvalidMapping | BadHandle | AccessDenied | WrongType | Protocol
  | WouldBlock | PeerClosed | LimitExceeded | NotSupported | InvalidArgument
  | PolicyRefused | TimedOut | ResultTooLarge | OutOfFrameSlots

datatype ErrorDomain = Kernel | SecurityPolicy | Resource | ProtocolDomain | Device | Virtualization

datatype 'a res = Ok 'a | Err KError

fun is_ok :: "'a res \<Rightarrow> bool" where
  "is_ok (Ok _) = True"
| "is_ok (Err _) = False"

subsection \<open>Iterator and slice idioms\<close>

fun position :: "('a \<Rightarrow> bool) \<Rightarrow> 'a list \<Rightarrow> nat option" where
  "position P [] = None"
| "position P (x # xs) = (if P x then Some 0 else map_option Suc (position P xs))"

definition get_opt :: "'a list \<Rightarrow> nat \<Rightarrow> 'a option" where
  "get_opt xs i = (if i < length xs then Some (xs ! i) else None)"

definition count_some :: "'a option list \<Rightarrow> nat" where
  "count_some xs = length (filter (\<lambda>x. x \<noteq> None) xs)"

definition free_slot :: "'a option list \<Rightarrow> nat option" where
  "free_slot xs = position (\<lambda>x. x = None) xs"

fun flatten :: "'a option list \<Rightarrow> 'a list" where
  "flatten [] = []"
| "flatten (None # xs) = flatten xs"
| "flatten (Some x # xs) = x # flatten xs"

subsection \<open>Generational ids: index in the low 16 bits, generation in the high 16\<close>

definition pack16 :: "nat \<Rightarrow> 16 word \<Rightarrow> 32 word" where
  "pack16 index generation = push_bit 16 (ucast generation) OR (of_nat index AND 0xffff)"

definition index16 :: "32 word \<Rightarrow> nat" where
  "index16 w = unat (w AND 0xffff)"

definition gen16 :: "32 word \<Rightarrow> 16 word" where
  "gen16 w = ucast (drop_bit 16 w)"

subsection \<open>Ring buffers\<close>

definition ring_slice :: "'a list \<Rightarrow> nat \<Rightarrow> nat \<Rightarrow> 'a list" where
  "ring_slice buf head len = map (\<lambda>i. buf ! ((head + i) mod length buf)) [0..<len]"

definition remove_nth :: "nat \<Rightarrow> 'a list \<Rightarrow> 'a list" where
  "remove_nth i xs = take i xs @ drop (Suc i) xs"

subsection \<open>Saturating and checked arithmetic\<close>

definition sat_add :: "'a::len word \<Rightarrow> 'a word \<Rightarrow> 'a word" where
  "sat_add a b = (if a + b < a then - 1 else a + b)"

definition saturating_sub :: "'a::len word \<Rightarrow> 'a word \<Rightarrow> 'a word" where
  "saturating_sub a b = (if b \<le> a then a - b else 0)"

definition checked_add :: "'a::len word \<Rightarrow> 'a word \<Rightarrow> 'a word option" where
  "checked_add a b = (if a + b < a then None else Some (a + b))"

lemma unat_sat_add: "unat a + unat b < 2 ^ LENGTH('a) \<Longrightarrow> unat (sat_add (a :: 'a::len word) b) = unat a + unat b"
  by (auto simp: sat_add_def unat_word_ariths word_less_nat_alt)

lemma unat_saturating_sub: "unat (saturating_sub a b) = unat a - unat (b :: 'a::len word)"
  by (auto simp: saturating_sub_def unat_sub word_le_nat_alt)

lemma checked_add_Some_iff:
  "checked_add a b = Some c \<longleftrightarrow> unat (a :: 'a::len word) + unat b < 2 ^ LENGTH('a) \<and> c = a + b"
  using no_olen_add_nat [of a b] by (auto simp: checked_add_def not_less)

subsection \<open>Lemmas: results\<close>

lemma res_neq_Ok [simp]: "(\<forall>x. r \<noteq> Ok x) = (\<exists>e. r = Err e)"
  by (cases r) auto

lemma is_ok_iff: "is_ok r \<longleftrightarrow> (\<exists>x. r = Ok x)"
  by (cases r) auto

subsection \<open>Lemmas: positions and slots\<close>

lemma position_None_iff [slot_simps]: "position P xs = None \<longleftrightarrow> (\<forall>x \<in> set xs. \<not> P x)"
  by (induction xs) auto

lemma position_SomeD:
  assumes "position P xs = Some i"
  shows "i < length xs" and "P (xs ! i)" and "\<forall>j < i. \<not> P (xs ! j)"
  using assms
proof (induction xs arbitrary: i)
  case (Cons x xs)
  { case 1 then show ?case using Cons by (auto split: if_splits) }
  { case 2 then show ?case using Cons by (auto split: if_splits) }
  { case 3 then show ?case using Cons by (auto split: if_splits simp: nth_Cons split: nat.splits) }
qed simp_all

lemma position_SomeI:
  assumes "i < length xs" "P (xs ! i)" "\<And>j. j < i \<Longrightarrow> \<not> P (xs ! j)"
  shows "position P xs = Some i"
  using assms
proof (induction xs arbitrary: i)
  case (Cons x xs)
  show ?case
  proof (cases i)
    case 0
    with Cons.prems show ?thesis by simp
  next
    case (Suc k)
    with Cons.prems(3) [of 0] have "\<not> P x" by simp
    moreover from Suc Cons.prems Cons.prems(3) [of "Suc j" for j]
    have "position P xs = Some k" by (intro Cons.IH) auto
    ultimately show ?thesis using Suc by simp
  qed
qed simp

lemma free_slot_SomeD:
  assumes "free_slot xs = Some i"
  shows "i < length xs" and "xs ! i = None"
  using position_SomeD [of "\<lambda>x. x = None" xs i] assms by (auto simp: free_slot_def)

lemma free_slotD: "free_slot xs = Some i \<Longrightarrow> i < length xs \<and> xs ! i = None"
  using free_slot_SomeD by blast

lemma free_slot_None_iff [slot_simps]: "free_slot xs = None \<longleftrightarrow> None \<notin> set xs"
  by (auto simp: free_slot_def position_None_iff image_iff) (metis not_None_eq)

lemma get_opt_update [slot_simps]:
  "get_opt (xs[i := v]) j = (if i = j \<and> j < length xs then Some v else get_opt xs j)"
  by (auto simp: get_opt_def nth_list_update)

lemma get_opt_Some_iff [slot_simps]: "get_opt xs i = Some v \<longleftrightarrow> i < length xs \<and> xs ! i = v"
  by (auto simp: get_opt_def)

lemma get_opt_None_iff [slot_simps]: "get_opt xs i = None \<longleftrightarrow> length xs \<le> i"
  by (auto simp: get_opt_def)

lemma get_opt_replicate [slot_simps]: "get_opt (replicate n v) i = (if i < n then Some v else None)"
  by (simp add: get_opt_def)

lemma set_flatten: "set (flatten xs) = {x. Some x \<in> set xs}"
  by (induction xs rule: flatten.induct) auto

lemma flatten_append [simp]: "flatten (xs @ ys) = flatten xs @ flatten ys"
  by (induction xs rule: flatten.induct) auto

lemma flatten_replicate_None [simp]: "flatten (replicate n None) = []"
  by (induction n) auto

lemma length_flatten: "length (flatten xs) = count_some xs"
  unfolding count_some_def by (induction xs rule: flatten.induct) auto

lemma count_some_le: "count_some xs \<le> length xs"
  by (simp add: count_some_def)

lemma count_some_less_iff: "count_some xs < length xs \<longleftrightarrow> None \<in> set xs"
  unfolding count_some_def by (induction xs) (auto simp: less_Suc_eq_le)

lemma count_some_simps [simp]:
  "count_some [] = 0"
  "count_some (None # xs) = count_some xs"
  "count_some (Some x # xs) = Suc (count_some xs)"
  by (simp_all add: count_some_def)

lemma count_some_Cons: "count_some (x # xs) = (if x = None then 0 else 1) + count_some xs"
  by (cases x) simp_all

lemma count_some_fill [slot_simps]:
  "i < length xs \<Longrightarrow> xs ! i = None \<Longrightarrow> count_some (xs[i := Some v]) = Suc (count_some xs)"
  by (induction xs arbitrary: i) (auto simp: count_some_Cons nth_Cons split: nat.splits)

lemma count_some_clear [slot_simps]:
  "i < length xs \<Longrightarrow> xs ! i = Some v \<Longrightarrow> Suc (count_some (xs[i := None])) = count_some xs"
  by (induction xs arbitrary: i) (auto simp: count_some_Cons nth_Cons split: nat.splits)

lemma count_some_replace [slot_simps]:
  "i < length xs \<Longrightarrow> xs ! i = Some v \<Longrightarrow> count_some (xs[i := Some w]) = count_some xs"
  by (induction xs arbitrary: i) (auto simp: count_some_Cons nth_Cons split: nat.splits)

lemma mset_flatten_fill [slot_simps]:
  "i < length xs \<Longrightarrow> xs ! i = None \<Longrightarrow> mset (flatten (xs[i := Some v])) = add_mset v (mset (flatten xs))"
proof (induction xs arbitrary: i)
  case (Cons x xs)
  then show ?case by (cases i; cases x) auto
qed simp

lemma mset_flatten_clear [slot_simps]:
  "i < length xs \<Longrightarrow> xs ! i = Some v \<Longrightarrow> add_mset v (mset (flatten (xs[i := None]))) = mset (flatten xs)"
proof (induction xs arbitrary: i)
  case (Cons x xs)
  then show ?case by (cases i; cases x) auto
qed simp

lemma mset_flatten_replace [slot_simps]:
  "i < length xs \<Longrightarrow> xs ! i = Some v \<Longrightarrow>
   add_mset v (mset (flatten (xs[i := Some w]))) = add_mset w (mset (flatten xs))"
proof (induction xs arbitrary: i)
  case (Cons x xs)
  then show ?case by (cases i; cases x) (auto simp: add_mset_commute)
qed simp

subsection \<open>Lemmas: packing\<close>

lemma word_eq_iff_bits: "(a :: 'a::len word) = b \<longleftrightarrow> (\<forall>n. bit a n \<longleftrightarrow> bit b n)"
  by (auto intro: bit_word_eqI)

lemma ffff_mask [pack_simps]: "(0xffff :: 32 word) = mask 16"
  by (simp add: mask_eq_exp_minus_1)

lemma index16_pack16 [pack_simps]:
  assumes "i < 65536"
  shows "index16 (pack16 i g) = i"
proof -
  have "pack16 i g AND mask 16 = (of_nat i :: 32 word) AND mask 16"
    unfolding pack16_def ffff_mask by (rule bit_word_eqI) (auto simp: bit_simps)
  also have "\<dots> = of_nat i"
    using assms by (simp add: take_bit_eq_mask [symmetric] take_bit_of_nat take_bit_nat_eq_self)
  finally show ?thesis
    using assms by (simp add: index16_def ffff_mask unat_of_nat)
qed

lemma gen16_pack16 [pack_simps]: "gen16 (pack16 i g) = g"
  unfolding pack16_def gen16_def ffff_mask by (rule bit_word_eqI) (auto simp: bit_simps)

lemma pack16_split [pack_simps]: "pack16 (index16 w) (gen16 w) = w"
  unfolding pack16_def index16_def gen16_def ffff_mask
  by (rule bit_word_eqI) (auto simp: bit_simps)

lemma index16_less [simp]: "index16 w < 65536"
  using take_bit_nat_less_exp [of 16 "unat w"]
  by (simp add: index16_def ffff_mask take_bit_eq_mask [symmetric] unsigned_take_bit_eq)

lemma pack16_inject [pack_simps]:
  "i < 65536 \<Longrightarrow> j < 65536 \<Longrightarrow> pack16 i g = pack16 j h \<longleftrightarrow> i = j \<and> g = h"
  by (metis gen16_pack16 index16_pack16)

lemma pack16_eq_iff: "i < 65536 \<Longrightarrow> w = pack16 i g \<longleftrightarrow> index16 w = i \<and> gen16 w = g"
  by (metis gen16_pack16 index16_pack16 pack16_split)

subsection \<open>Lemmas: rings\<close>

lemma length_ring_slice [simp]: "length (ring_slice buf head len) = len"
  by (simp add: ring_slice_def)

lemma ring_slice_0 [simp]: "ring_slice buf head 0 = []"
  by (simp add: ring_slice_def)

lemma ring_slice_nth [ring_simps]:
  "i < len \<Longrightarrow> ring_slice buf head len ! i = buf ! ((head + i) mod length buf)"
  by (simp add: ring_slice_def)

lemma ring_index_neq:
  assumes "i < len" "len < n" "(n::nat) > 0"
  shows "(head + i) mod n \<noteq> (head + len) mod n"
proof
  assume "(head + i) mod n = (head + len) mod n"
  then have "n dvd (head + len) - (head + i)"
    using assms by (metis mod_eq_dvd_iff_nat nat_add_left_cancel_le less_imp_le)
  then have "n dvd len - i" by simp
  with assms show False by (auto dest: dvd_imp_le)
qed

lemma ring_slice_push [ring_simps]:
  assumes "len < length buf"
  shows "ring_slice (buf[(head + len) mod length buf := x]) head (Suc len) = ring_slice buf head len @ [x]"
proof (rule nth_equalityI)
  fix i assume "i < length (ring_slice (buf[(head + len) mod length buf := x]) head (Suc len))"
  then have "i < Suc len" by simp
  moreover have "(head + i) mod length buf \<noteq> (head + len) mod length buf" if "i < len"
    using ring_index_neq [of i len "length buf" head] that assms by linarith
  moreover have "(head + len) mod length buf < length buf"
    using assms by (intro mod_less_divisor) auto
  ultimately show "ring_slice (buf[(head + len) mod length buf := x]) head (Suc len) ! i
      = (ring_slice buf head len @ [x]) ! i"
    by (auto simp: ring_slice_nth nth_append less_Suc_eq)
qed simp

lemma ring_slice_pop [ring_simps]:
  "ring_slice buf head (Suc len) = buf ! (head mod length buf) # ring_slice buf ((head + 1) mod length buf) len"
proof (rule nth_equalityI)
  fix i assume "i < length (ring_slice buf head (Suc len))"
  then show "ring_slice buf head (Suc len) ! i
      = (buf ! (head mod length buf) # ring_slice buf ((head + 1) mod length buf) len) ! i"
    by (cases i) (simp_all add: ring_slice_nth mod_add_left_eq)
qed simp

lemma ring_slice_update_outside [ring_simps]:
  assumes "\<And>i. i < len \<Longrightarrow> (head + i) mod length buf \<noteq> j"
  shows "ring_slice (buf[j := x]) head len = ring_slice buf head len"
  using assms by (auto simp: ring_slice_def) (metis nth_list_update_neq)

lemma ring_index_inj:
  assumes "i < n" "j < n" "(head + i) mod n = (head + j) mod (n::nat)"
  shows "i = j"
  using assms ring_index_neq [of i j n head] ring_index_neq [of j i n head]
  by (metis bot_nat_0.not_eq_extremum less_nat_zero_code linorder_neqE_nat)

text \<open>Writing a ring through its head-relative index is writing the slice.\<close>

lemma ring_slice_update [ring_simps]:
  assumes "j < length buf" "len \<le> length buf"
  shows "ring_slice (buf[(head + j) mod length buf := x]) head len = (ring_slice buf head len)[j := x]"
proof (rule nth_equalityI)
  fix i assume "i < length (ring_slice (buf[(head + j) mod length buf := x]) head len)"
  then have i: "i < len" by simp
  have "(head + j) mod length buf < length buf" using assms(1) by (intro mod_less_divisor) auto
  moreover have "(head + j) mod length buf \<noteq> (head + i) mod length buf" if "j \<noteq> i"
    using ring_index_inj [of i "length buf" j head] i assms that by auto
  ultimately show "ring_slice (buf[(head + j) mod length buf := x]) head len ! i
      = (ring_slice buf head len)[j := x] ! i"
    using i assms by (cases "j = i") (simp_all add: ring_slice_nth)
qed simp

lemma take_ring_slice: "n \<le> len \<Longrightarrow> take n (ring_slice buf head len) = ring_slice buf head n"
  by (simp add: ring_slice_def take_map)

lemma ring_slice_rotate [ring_simps]:
  assumes "0 < length buf"
  shows "ring_slice buf ((head + 1) mod length buf) (length buf) = rotate1 (ring_slice buf head (length buf))"
proof (rule nth_equalityI)
  fix i assume "i < length (ring_slice buf ((head + 1) mod length buf) (length buf))"
  then have i: "i < length buf" by simp
  have "(head + Suc i) mod length buf = (head + Suc i mod length buf) mod length buf"
    by (simp add: mod_simps)
  moreover have "Suc i mod length buf < length buf" using assms by simp
  ultimately show "ring_slice buf ((head + 1) mod length buf) (length buf) ! i
      = rotate1 (ring_slice buf head (length buf)) ! i"
    using i by (simp add: nth_rotate1 ring_slice_nth mod_simps)
qed simp

lemma position_map: "position P (map f xs) = position (P \<circ> f) xs"
  by (induction xs) auto

lemma position_cong: "(\<And>x. x \<in> set xs \<Longrightarrow> P x = Q x) \<Longrightarrow> position P xs = position Q xs"
  by (induction xs) auto

lemma position_split:
  assumes "position P xs = Some i"
  shows "xs = take i xs @ xs ! i # drop (Suc i) xs" and "\<forall>x \<in> set (take i xs). \<not> P x" and "P (xs ! i)"
  using position_SomeD [OF assms] by (auto simp: id_take_nth_drop in_set_conv_nth)

lemma set_remove_nth: "distinct xs \<Longrightarrow> i < length xs \<Longrightarrow> set (remove_nth i xs) = set xs - {xs ! i}"
proof -
  assume a: "distinct xs" "i < length xs"
  then have "distinct (take i xs @ xs ! i # drop (Suc i) xs)" by (simp add: id_take_nth_drop [symmetric])
  moreover have "set xs = set (take i xs @ xs ! i # drop (Suc i) xs)"
    using a by (simp add: id_take_nth_drop [symmetric])
  ultimately show ?thesis by (auto simp: remove_nth_def)
qed

lemma distinct_remove_nth: "distinct xs \<Longrightarrow> distinct (remove_nth i xs)"
  by (simp add: remove_nth_def set_take_disj_set_drop_if_distinct)

lemma length_remove_nth: "i < length xs \<Longrightarrow> length (remove_nth i xs) = length xs - 1"
  by (simp add: remove_nth_def)

lemma option_ext: "(\<And>c. x = Some c \<longleftrightarrow> y = Some c) \<Longrightarrow> x = y"
  by (cases x; cases y) auto

end
