(* ===== verification/Rights.thy ===== *)
theory Rights
  imports Prelude
begin

text \<open>
  The rights mask of \<^verbatim>\<open>kcore/src/rights.rs\<close>: a newtype over a 64-bit word, its
  catalogue of bits, and the set operations on it. \<open>Rights_is_subset_of\<close>, the
  never-expand check, is instantiated as the order of the type, with the source's
  union and intersection as its lattice operations, so that narrowing arguments are
  order reasoning.
\<close>

datatype Rights = Rights (Rights_bits: "64 word")

definition Rights_READ :: Rights where "Rights_READ = Rights (push_bit 0 1)"
definition Rights_WRITE :: Rights where "Rights_WRITE = Rights (push_bit 1 1)"
definition Rights_MAP :: Rights where "Rights_MAP = Rights (push_bit 2 1)"
definition Rights_EXECUTE :: Rights where "Rights_EXECUTE = Rights (push_bit 3 1)"
definition Rights_SIGNAL :: Rights where "Rights_SIGNAL = Rights (push_bit 4 1)"
definition Rights_WAIT :: Rights where "Rights_WAIT = Rights (push_bit 5 1)"
definition Rights_DUPLICATE :: Rights where "Rights_DUPLICATE = Rights (push_bit 6 1)"
definition Rights_TRANSFER :: Rights where "Rights_TRANSFER = Rights (push_bit 7 1)"
definition Rights_CONFIGURE :: Rights where "Rights_CONFIGURE = Rights (push_bit 8 1)"
definition Rights_BIND :: Rights where "Rights_BIND = Rights (push_bit 9 1)"
definition Rights_ADMIN :: Rights where "Rights_ADMIN = Rights (push_bit 10 1)"
definition Rights_CREATE_PROCESS :: Rights where "Rights_CREATE_PROCESS = Rights (push_bit 16 1)"
definition Rights_CREATE_JOB :: Rights where "Rights_CREATE_JOB = Rights (push_bit 17 1)"
definition Rights_SET_POLICY :: Rights where "Rights_SET_POLICY = Rights (push_bit 18 1)"
definition Rights_SET_LIMITS :: Rights where "Rights_SET_LIMITS = Rights (push_bit 19 1)"
definition Rights_SUSPEND :: Rights where "Rights_SUSPEND = Rights (push_bit 20 1)"
definition Rights_KILL :: Rights where "Rights_KILL = Rights (push_bit 21 1)"
definition Rights_SUPPLY :: Rights where "Rights_SUPPLY = Rights (push_bit 24 1)"
definition Rights_WRITEBACK :: Rights where "Rights_WRITEBACK = Rights (push_bit 25 1)"
definition Rights_EVICT :: Rights where "Rights_EVICT = Rights (push_bit 26 1)"
definition Rights_EXCEPTION :: Rights where "Rights_EXCEPTION = Rights (push_bit 28 1)"
definition Rights_READ_STATE :: Rights where "Rights_READ_STATE = Rights (push_bit 29 1)"
definition Rights_WRITE_STATE :: Rights where "Rights_WRITE_STATE = Rights (push_bit 30 1)"
definition Rights_DERIVE :: Rights where "Rights_DERIVE = Rights (push_bit 32 1)"
definition Rights_REVOKE :: Rights where "Rights_REVOKE = Rights (push_bit 33 1)"
definition Rights_WAKE :: Rights where "Rights_WAKE = Rights (push_bit 36 1)"
definition Rights_SLEEP :: Rights where "Rights_SLEEP = Rights (push_bit 37 1)"
definition Rights_FIRMWARE :: Rights where "Rights_FIRMWARE = Rights (push_bit 38 1)"
definition Rights_PROTECTED_DMA :: Rights where "Rights_PROTECTED_DMA = Rights (push_bit 39 1)"

definition Rights_none :: Rights where "Rights_none = Rights 0"
definition Rights_all_core :: Rights where "Rights_all_core = Rights 0x7ff"

definition Rights_from_bits :: "64 word \<Rightarrow> Rights" where
  "Rights_from_bits bits = Rights bits"

definition Rights_is_empty :: "Rights \<Rightarrow> bool" where
  "Rights_is_empty r \<longleftrightarrow> Rights_bits r = 0"

definition Rights_union :: "Rights \<Rightarrow> Rights \<Rightarrow> Rights" where
  "Rights_union self other = Rights (Rights_bits self OR Rights_bits other)"

definition Rights_intersection :: "Rights \<Rightarrow> Rights \<Rightarrow> Rights" where
  "Rights_intersection self other = Rights (Rights_bits self AND Rights_bits other)"

definition Rights_contains :: "Rights \<Rightarrow> Rights \<Rightarrow> bool" where
  "Rights_contains self other \<longleftrightarrow> Rights_bits self AND Rights_bits other = Rights_bits other"

definition Rights_is_subset_of :: "Rights \<Rightarrow> Rights \<Rightarrow> bool" where
  "Rights_is_subset_of self other \<longleftrightarrow> Rights_bits self AND Rights_bits other = Rights_bits self"

definition rights_set :: "Rights \<Rightarrow> nat set" where
  "rights_set r = {n. bit (Rights_bits r) n}"

lemma rights_set_inject: "rights_set a = rights_set b \<longleftrightarrow> a = b"
  by (cases a; cases b) (auto simp: rights_set_def set_eq_iff word_eq_iff_bits)

lemma rights_set_union: "rights_set (Rights_union a b) = rights_set a \<union> rights_set b"
  by (auto simp: rights_set_def Rights_union_def bit_or_iff)

lemma rights_set_intersection: "rights_set (Rights_intersection a b) = rights_set a \<inter> rights_set b"
  by (auto simp: rights_set_def Rights_intersection_def bit_and_iff)

lemma is_subset_of_iff: "Rights_is_subset_of a b \<longleftrightarrow> rights_set a \<subseteq> rights_set b"
  by (auto simp: rights_set_def Rights_is_subset_of_def word_eq_iff_bits bit_and_iff)

lemma contains_iff: "Rights_contains a b \<longleftrightarrow> rights_set b \<subseteq> rights_set a"
  by (auto simp: rights_set_def Rights_contains_def word_eq_iff_bits bit_and_iff)

instantiation Rights :: lattice
begin

definition less_eq_Rights :: "Rights \<Rightarrow> Rights \<Rightarrow> bool" where
  "less_eq_Rights a b = Rights_is_subset_of a b"

definition less_Rights :: "Rights \<Rightarrow> Rights \<Rightarrow> bool" where
  "less_Rights a b = (Rights_is_subset_of a b \<and> \<not> Rights_is_subset_of b a)"

definition inf_Rights :: "Rights \<Rightarrow> Rights \<Rightarrow> Rights" where
  "inf_Rights = Rights_intersection"

definition sup_Rights :: "Rights \<Rightarrow> Rights \<Rightarrow> Rights" where
  "sup_Rights = Rights_union"

instance
  by standard
    (auto simp: less_eq_Rights_def less_Rights_def inf_Rights_def sup_Rights_def
      is_subset_of_iff rights_set_union rights_set_intersection
      simp flip: rights_set_inject)

end

lemma contains_le: "Rights_contains a b \<longleftrightarrow> b \<le> a"
  by (simp add: less_eq_Rights_def is_subset_of_iff contains_iff)

lemma is_subset_of_le: "Rights_is_subset_of a b \<longleftrightarrow> a \<le> b"
  by (simp add: less_eq_Rights_def)

lemmas rights_order = contains_le is_subset_of_le

end
