(* ===== verification/Tables.thy ===== *)
theory Tables
  imports Prelude
begin

text \<open>
  The contract of the kernel's generational tables. A table whose slots are
  addressed by ids packing an index and a generation promises its clients to be a
  partial map from ids to entries: allocation binds a fresh id, writing an entry in
  place changes that id only, and evicting an entry unbinds that id only. The
  extended contract adds what the generation buys: an evicted id does not resolve
  again until its slot's 16-bit generation has gone all the way round. The object
  table and the handle table are interpreted below as such tables, in their own
  theories.
\<close>

datatype ('i, 'k, 'v) table_op = Alloc 'i | Store 'k 'v | Evict 'k

locale id_table =
  fixes lookup :: "'t \<Rightarrow> 'k \<Rightarrow> 'v option"
    and inv :: "'t \<Rightarrow> bool"
    and alloc :: "'t \<Rightarrow> 'i \<Rightarrow> 'k res \<times> 't"
    and init :: "'i \<Rightarrow> 'v"
    and store :: "'t \<Rightarrow> 'k \<Rightarrow> 'v \<Rightarrow> 't"
    and evict :: "'t \<Rightarrow> 'k \<Rightarrow> 't"
    and okv :: "'v \<Rightarrow> bool"
  assumes init_ok: "okv (init i)"
    and alloc_Err: "alloc t i = (Err e, t') \<Longrightarrow> t' = t"
    and alloc_fresh: "inv t \<Longrightarrow> alloc t i = (Ok k, t') \<Longrightarrow> lookup t k = None"
    and alloc_lookup: "inv t \<Longrightarrow> alloc t i = (Ok k, t') \<Longrightarrow> lookup t' = (lookup t)(k \<mapsto> init i)"
    and alloc_inv: "inv t \<Longrightarrow> alloc t i = (Ok k, t') \<Longrightarrow> inv t'"
    and store_lookup: "inv t \<Longrightarrow> lookup t k = Some v \<Longrightarrow> okv w \<Longrightarrow> lookup (store t k w) = (lookup t)(k \<mapsto> w)"
    and store_inv: "inv t \<Longrightarrow> lookup t k = Some v \<Longrightarrow> okv w \<Longrightarrow> inv (store t k w)"
    and evict_lookup: "inv t \<Longrightarrow> lookup t k = Some v \<Longrightarrow> lookup (evict t k) = (lookup t)(k := None)"
    and evict_inv: "inv t \<Longrightarrow> lookup t k = Some v \<Longrightarrow> inv (evict t k)"
    and lookup_ok: "inv t \<Longrightarrow> lookup t k = Some v \<Longrightarrow> okv v"
begin

fun step :: "'t \<Rightarrow> ('i, 'k, 'v) table_op \<Rightarrow> 't" where
  "step t (Alloc i) = snd (alloc t i)"
| "step t (Store k v) = (if lookup t k \<noteq> None \<and> okv v then store t k v else t)"
| "step t (Evict k) = (if lookup t k \<noteq> None then evict t k else t)"

lemma step_inv: "inv t \<Longrightarrow> inv (step t p)"
proof (cases p)
  case (Alloc i)
  assume "inv t"
  then show ?thesis
    using Alloc alloc_inv [of t i] alloc_Err [of t i] by (cases "alloc t i"; cases "fst (alloc t i)") auto
qed (auto intro: store_inv evict_inv)

lemma run_inv: "inv t \<Longrightarrow> inv (foldl step t ps)"
  by (induction ps arbitrary: t) (auto intro: step_inv)

lemma alloc_other: "inv t \<Longrightarrow> alloc t i = (Ok k, t') \<Longrightarrow> j \<noteq> k \<Longrightarrow> lookup t' j = lookup t j"
  by (simp add: alloc_lookup)

lemma alloc_keeps_live:
  assumes "inv t" "alloc t i = (r, t')" "lookup t j = Some v"
  shows "lookup t' j = Some v"
proof (cases r)
  case (Ok k)
  with assms alloc_fresh [of t i k t'] have "j \<noteq> k" by auto
  with assms Ok show ?thesis using alloc_lookup [of t i k t'] by simp
qed (use assms alloc_Err in auto)

end

locale gen_table = id_table lookup inv alloc init store evict okv
  for lookup :: "'t \<Rightarrow> 'k \<Rightarrow> 'v option"
    and inv :: "'t \<Rightarrow> bool"
    and alloc :: "'t \<Rightarrow> 'i \<Rightarrow> 'k res \<times> 't"
    and init :: "'i \<Rightarrow> 'v"
    and store :: "'t \<Rightarrow> 'k \<Rightarrow> 'v \<Rightarrow> 't"
    and evict :: "'t \<Rightarrow> 'k \<Rightarrow> 't"
    and okv :: "'v \<Rightarrow> bool" +
  fixes slot_of :: "'k \<Rightarrow> nat"
    and gen_of :: "'k \<Rightarrow> 16 word"
    and slot_gen :: "'t \<Rightarrow> nat \<Rightarrow> 16 word"
  assumes live_gen: "inv t \<Longrightarrow> lookup t k = Some v \<Longrightarrow> slot_gen t (slot_of k) = gen_of k"
    and alloc_gen: "inv t \<Longrightarrow> alloc t i = (Ok k, t') \<Longrightarrow> slot_gen t' = slot_gen t"
    and store_gen: "inv t \<Longrightarrow> lookup t k = Some v \<Longrightarrow> slot_gen (store t k w) = slot_gen t"
    and evict_gen: "inv t \<Longrightarrow> lookup t k = Some v \<Longrightarrow>
          slot_gen (evict t k) = (slot_gen t)(slot_of k := slot_gen t (slot_of k) + 1)"
begin

text \<open>How many generations a slot has moved on since an id was minted for it.\<close>

definition age :: "'t \<Rightarrow> 'k \<Rightarrow> nat" where
  "age t k = unat (slot_gen t (slot_of k) - gen_of k)"

lemma age_live: "inv t \<Longrightarrow> lookup t k = Some v \<Longrightarrow> age t k = 0"
  using live_gen by (simp add: age_def)

lemma slot_gen_step:
  assumes "inv t"
  shows "slot_gen (step t p) = slot_gen t \<or>
         (\<exists>j. p = Evict j \<and> slot_gen (step t p) = (slot_gen t)(slot_of j := slot_gen t (slot_of j) + 1))"
proof (cases p)
  case (Alloc i)
  with assms show ?thesis
    using alloc_gen [of t i] alloc_Err [of t i] by (cases "alloc t i"; cases "fst (alloc t i)") auto
next
  case (Store k v)
  with assms show ?thesis using store_gen by auto
next
  case (Evict k)
  with assms show ?thesis using evict_gen by auto
qed

fun evictions :: "('i, 'k, 'v) table_op list \<Rightarrow> nat" where
  "evictions [] = 0"
| "evictions (Evict _ # ps) = Suc (evictions ps)"
| "evictions (_ # ps) = evictions ps"

lemma age_step:
  assumes "inv t" "0 < age t k" "age t k + evictions [p] < 65536"
  shows "age t k \<le> age (step t p) k \<and> age (step t p) k \<le> age t k + evictions [p]"
proof -
  consider "slot_gen (step t p) (slot_of k) = slot_gen t (slot_of k)"
    | j where "p = Evict j" "slot_gen (step t p) (slot_of k) = slot_gen t (slot_of k) + 1"
    using slot_gen_step [OF assms(1), of p] by (metis fun_upd_apply)
  then show ?thesis
  proof cases
    case 2
    define d where "d = slot_gen t (slot_of k) - gen_of k"
    have d: "slot_gen t (slot_of k) + 1 - gen_of k = d + 1" by (simp add: d_def)
    have "unat d + 1 < 65536" using assms(3) 2 by (simp add: age_def d_def)
    then have "unat (d + 1) = unat d + 1" by (simp add: unat_word_ariths)
    with 2(1) show ?thesis unfolding age_def 2(2) d d_def [symmetric] by simp
  qed (simp add: age_def)
qed

lemma evictions_Cons: "evictions (p # ps) = evictions [p] + evictions ps"
  by (cases p) auto

lemma age_run:
  assumes "inv t" "0 < age t k" "age t k + evictions ps < 65536"
  shows "0 < age (foldl step t ps) k"
  using assms
proof (induction ps arbitrary: t)
  case (Cons p ps)
  have e: "evictions (p # ps) = evictions [p] + evictions ps" by (rule evictions_Cons)
  with age_step [of t k p] Cons.prems
  have "age t k \<le> age (step t p) k" "age (step t p) k \<le> age t k + evictions [p]" by auto
  with Cons.prems e have "0 < age (foldl step (step t p) ps) k"
    by (intro Cons.IH) (auto intro: step_inv)
  then show ?case by simp
qed simp

text \<open>An evicted id is dead for every continuation with fewer than 65535 evictions.\<close>

lemma evicted_stays_dead:
  assumes "inv t" "lookup t k = Some v" "evictions ps < 65535"
  shows "lookup (foldl step (evict t k) ps) k = None"
proof -
  have g: "slot_gen (evict t k) (slot_of k) = gen_of k + 1"
    using evict_gen [OF assms(1,2)] live_gen [OF assms(1,2)] by simp
  then have "age (evict t k) k = 1" by (simp add: age_def)
  with assms have "0 < age (foldl step (evict t k) ps) k"
    by (intro age_run) (auto intro: evict_inv)
  then show ?thesis
    using age_live [of "foldl step (evict t k) ps" k] run_inv [OF evict_inv [OF assms(1,2)], of ps]
    by (cases "lookup (foldl step (evict t k) ps) k") auto
qed

end

end
