(* ===== verification/Objects.thy ===== *)
theory Objects
  imports Rights Tables
begin

text \<open>
  The object table of \<^verbatim>\<open>kcore/src/object.rs\<close>: a fixed pool of typed,
  reference-counted entries addressed by ids that pack a slot index and the slot's
  generation. The lemmas show that the table implements a partial map from ids to
  entries, with creation, retain and release as its updates.
\<close>

datatype ObjectType =
  Process | Thread | AddressSpace | Job | Channel | Port | Memory | DeviceObj | Test

datatype ObjectId = ObjectId (ObjectId_raw: "32 word")

definition ObjectId_new :: "nat \<Rightarrow> 16 word \<Rightarrow> ObjectId" where
  "ObjectId_new index generation = ObjectId (pack16 index generation)"

definition ObjectId_index :: "ObjectId \<Rightarrow> nat" where
  "ObjectId_index i = index16 (ObjectId_raw i)"

definition ObjectId_generation :: "ObjectId \<Rightarrow> 16 word" where
  "ObjectId_generation i = gen16 (ObjectId_raw i)"

record ObjEntry =
  oe_object_type :: ObjectType
  oe_refcount :: nat

record ObjectTable =
  ot_slots :: "ObjEntry option list"
  ot_generations :: "16 word list"

definition ObjectTable_new :: "nat \<Rightarrow> ObjectTable" where
  "ObjectTable_new max_objects =
     \<lparr> ot_slots = replicate max_objects None, ot_generations = replicate max_objects 0 \<rparr>"

definition ObjectTable_entry :: "ObjectTable \<Rightarrow> ObjectId \<Rightarrow> ObjEntry option" where
  "ObjectTable_entry t oid =
     (let index = ObjectId_index oid in
      if get_opt (ot_generations t) index = Some (ObjectId_generation oid)
      then ot_slots t ! index else None)"

definition ObjectTable_entry_mut :: "ObjectTable \<Rightarrow> ObjectId \<Rightarrow> ObjEntry res" where
  "ObjectTable_entry_mut t oid =
     (let index = ObjectId_index oid in
      if get_opt (ot_generations t) index = Some (ObjectId_generation oid)
      then (case ot_slots t ! index of Some e \<Rightarrow> Ok e | None \<Rightarrow> Err BadHandle)
      else Err BadHandle)"

definition ObjectTable_create :: "ObjectTable \<Rightarrow> ObjectType \<Rightarrow> ObjectId res \<times> ObjectTable" where
  "ObjectTable_create t object_type =
     (case free_slot (ot_slots t) of
        None \<Rightarrow> (Err OutOfMemory, t)
      | Some index \<Rightarrow>
          (Ok (ObjectId_new index (ot_generations t ! index)),
           t\<lparr>ot_slots := (ot_slots t)[index := Some \<lparr>oe_object_type = object_type, oe_refcount = 1\<rparr>]\<rparr>))"

definition ObjectTable_retain :: "ObjectTable \<Rightarrow> ObjectId \<Rightarrow> unit res \<times> ObjectTable" where
  "ObjectTable_retain t oid =
     (case ObjectTable_entry_mut t oid of
        Err e \<Rightarrow> (Err e, t)
      | Ok entry \<Rightarrow>
          (Ok (), t\<lparr>ot_slots := (ot_slots t)[ObjectId_index oid :=
                       Some (entry\<lparr>oe_refcount := oe_refcount entry + 1\<rparr>)]\<rparr>))"

definition ObjectTable_release :: "ObjectTable \<Rightarrow> ObjectId \<Rightarrow> bool res \<times> ObjectTable" where
  "ObjectTable_release t oid =
     (case ObjectTable_entry_mut t oid of
        Err e \<Rightarrow> (Err e, t)
      | Ok entry \<Rightarrow>
          let index = ObjectId_index oid;
              entry' = entry\<lparr>oe_refcount := oe_refcount entry - 1\<rparr>
          in if oe_refcount entry' = 0
             then (Ok True,
                   t\<lparr>ot_slots := (ot_slots t)[index := None],
                     ot_generations := (ot_generations t)[index := ot_generations t ! index + 1]\<rparr>)
             else (Ok False, t\<lparr>ot_slots := (ot_slots t)[index := Some entry']\<rparr>))"

definition ObjectTable_object_type :: "ObjectTable \<Rightarrow> ObjectId \<Rightarrow> ObjectType option" where
  "ObjectTable_object_type t oid = map_option oe_object_type (ObjectTable_entry t oid)"

definition ObjectTable_refcount :: "ObjectTable \<Rightarrow> ObjectId \<Rightarrow> nat option" where
  "ObjectTable_refcount t oid = map_option oe_refcount (ObjectTable_entry t oid)"

definition ObjectTable_is_live :: "ObjectTable \<Rightarrow> ObjectId \<Rightarrow> bool" where
  "ObjectTable_is_live t oid \<longleftrightarrow> ObjectTable_entry t oid \<noteq> None"

definition ObjectTable_live_count :: "ObjectTable \<Rightarrow> nat" where
  "ObjectTable_live_count t = count_some (ot_slots t)"

definition ObjectTable_wf :: "ObjectTable \<Rightarrow> bool" where
  "ObjectTable_wf t \<longleftrightarrow>
     length (ot_generations t) = length (ot_slots t) \<and> length (ot_slots t) \<le> 65536 \<and>
     (\<forall>e \<in> set (flatten (ot_slots t)). oe_refcount e > 0)"

subsection \<open>The table as a partial map\<close>

definition ObjectTable_store :: "ObjectTable \<Rightarrow> ObjectId \<Rightarrow> ObjEntry \<Rightarrow> ObjectTable" where
  "ObjectTable_store t oid e = t\<lparr>ot_slots := (ot_slots t)[ObjectId_index oid := Some e]\<rparr>"

definition ObjectTable_evict :: "ObjectTable \<Rightarrow> ObjectId \<Rightarrow> ObjectTable" where
  "ObjectTable_evict t oid =
     (let index = ObjectId_index oid in
      t\<lparr>ot_slots := (ot_slots t)[index := None],
        ot_generations := (ot_generations t)[index := ot_generations t ! index + 1]\<rparr>)"

lemma ObjectId_eq_iff: "i < 65536 \<Longrightarrow> k = ObjectId_new i g \<longleftrightarrow> ObjectId_index k = i \<and> ObjectId_generation k = g"
  by (cases k) (simp add: ObjectId_new_def ObjectId_index_def ObjectId_generation_def pack16_eq_iff)

lemma ObjectId_new_simps [simp]:
  "i < 65536 \<Longrightarrow> ObjectId_index (ObjectId_new i g) = i"
  "ObjectId_generation (ObjectId_new i g) = g"
  by (simp_all add: ObjectId_new_def ObjectId_index_def ObjectId_generation_def pack_simps)

lemma entry_mut_entry:
  "ObjectTable_entry_mut t oid = (case ObjectTable_entry t oid of Some e \<Rightarrow> Ok e | None \<Rightarrow> Err BadHandle)"
  by (simp add: ObjectTable_entry_mut_def ObjectTable_entry_def Let_def)

lemma ObjectTable_entry_Some_iff:
  "ObjectTable_entry t oid = Some e \<longleftrightarrow>
     ObjectId_index oid < length (ot_generations t) \<and>
     ot_generations t ! ObjectId_index oid = ObjectId_generation oid \<and>
     ot_slots t ! ObjectId_index oid = Some e"
  by (auto simp: ObjectTable_entry_def Let_def get_opt_Some_iff)

lemma ObjectId_same_slot:
  "ObjectId_index i = ObjectId_index j \<Longrightarrow> ObjectId_generation i = ObjectId_generation j \<Longrightarrow> i = j"
  by (metis ObjectId_eq_iff ObjectId_index_def index16_less)

interpretation objs: gen_table
  ObjectTable_entry ObjectTable_wf ObjectTable_create
  "\<lambda>ty. \<lparr>oe_object_type = ty, oe_refcount = 1\<rparr>"
  ObjectTable_store ObjectTable_evict "\<lambda>e. oe_refcount e > 0"
  ObjectId_index ObjectId_generation "\<lambda>t i. ot_generations t ! i"
proof (unfold_locales, goal_cases)
  case (3 t i k t')
  then show ?case
    by (auto simp: ObjectTable_create_def ObjectTable_wf_def ObjectTable_entry_def Let_def
        dest!: free_slotD split: option.splits)
next
  case (4 t i k t')
  then show ?case
    by (auto simp: fun_eq_iff ObjectTable_create_def ObjectTable_wf_def ObjectTable_entry_def Let_def
        get_opt_def nth_list_update ObjectId_eq_iff dest!: free_slotD split: option.splits)
next
  case (5 t i k t')
  then show ?case
    by (auto simp: ObjectTable_create_def ObjectTable_wf_def set_flatten
        dest!: free_slotD set_update_subset_insert [THEN subsetD] split: option.splits)
next
  case (6 t k v w)
  then show ?case
    by (auto simp: fun_eq_iff ObjectTable_store_def ObjectTable_entry_def ObjectTable_wf_def Let_def
        get_opt_def nth_list_update split: if_splits) (metis ObjectId_same_slot)+
next
  case (7 t k v w)
  then show ?case
    by (auto simp: ObjectTable_store_def ObjectTable_wf_def set_flatten
        dest!: set_update_subset_insert [THEN subsetD])
next
  case (8 t k v)
  then show ?case
    by (auto simp: fun_eq_iff ObjectTable_evict_def ObjectTable_entry_def ObjectTable_wf_def Let_def
        get_opt_def nth_list_update split: if_splits) (metis ObjectId_same_slot)+
next
  case (9 t k v)
  then show ?case
    by (auto simp: ObjectTable_evict_def ObjectTable_wf_def set_flatten Let_def
        dest!: set_update_subset_insert [THEN subsetD])
next
  case (10 t k v)
  then show ?case
    by (auto simp: ObjectTable_wf_def ObjectTable_entry_Some_iff set_flatten) (metis nth_mem)
next
  case (14 t k v)
  then show ?case
    by (auto simp: fun_eq_iff ObjectTable_evict_def Let_def ObjectTable_entry_Some_iff nth_list_update)
qed (auto simp: ObjectTable_create_def ObjectTable_store_def ObjectTable_entry_Some_iff split: option.splits)

lemma retain_eq:
  "ObjectTable_retain t oid =
     (case ObjectTable_entry t oid of
        None \<Rightarrow> (Err BadHandle, t)
      | Some e \<Rightarrow> (Ok (), ObjectTable_store t oid (e\<lparr>oe_refcount := oe_refcount e + 1\<rparr>)))"
  by (simp add: ObjectTable_retain_def entry_mut_entry ObjectTable_store_def split: option.splits)

lemma release_eq:
  "ObjectTable_release t oid =
     (case ObjectTable_entry t oid of
        None \<Rightarrow> (Err BadHandle, t)
      | Some e \<Rightarrow>
          if oe_refcount e \<le> 1 then (Ok True, ObjectTable_evict t oid)
          else (Ok False, ObjectTable_store t oid (e\<lparr>oe_refcount := oe_refcount e - 1\<rparr>)))"
  by (auto simp: ObjectTable_release_def entry_mut_entry ObjectTable_store_def ObjectTable_evict_def
      Let_def split: option.splits)

definition refs :: "ObjectTable \<Rightarrow> ObjectId \<Rightarrow> nat" where
  "refs t oid = (case ObjectTable_entry t oid of None \<Rightarrow> 0 | Some e \<Rightarrow> oe_refcount e)"

lemma refs_pos_iff: "ObjectTable_wf t \<Longrightarrow> 0 < refs t oid \<longleftrightarrow> ObjectTable_is_live t oid"
  using objs.lookup_ok [of t oid] by (auto simp: refs_def ObjectTable_is_live_def split: option.splits)

lemma create_spec:
  assumes "ObjectTable_wf t" "ObjectTable_create t ty = (Ok oid, t')"
  shows "ObjectTable_wf t' \<and> refs t oid = 0 \<and> refs t' = (refs t)(oid := 1)"
  using assms objs.alloc_inv [OF assms] objs.alloc_fresh [OF assms] objs.alloc_lookup [OF assms]
  by (auto simp: refs_def fun_eq_iff)

lemma retain_spec:
  assumes "ObjectTable_wf t" "ObjectTable_retain t oid = (r, t')"
  shows "ObjectTable_wf t'"
    and "refs t' = (if is_ok r then (refs t)(oid := refs t oid + 1) else refs t)"
    and "is_ok r \<longleftrightarrow> 0 < refs t oid"
    and "\<not> is_ok r \<Longrightarrow> r = Err BadHandle \<and> t' = t"
  using assms objs.store_inv [OF assms(1), of oid] objs.store_lookup [OF assms(1), of oid]
    objs.lookup_ok [OF assms(1), of oid]
  by (auto simp: retain_eq refs_def fun_eq_iff split: option.splits)

lemma release_spec:
  assumes "ObjectTable_wf t" "ObjectTable_release t oid = (r, t')"
  shows "ObjectTable_wf t'"
    and "refs t' = (if is_ok r then (refs t)(oid := refs t oid - 1) else refs t)"
    and "is_ok r \<longleftrightarrow> 0 < refs t oid"
    and "r = Ok b \<Longrightarrow> b \<longleftrightarrow> refs t oid = 1"
    and "\<not> is_ok r \<Longrightarrow> r = Err BadHandle \<and> t' = t"
  using assms objs.store_inv [OF assms(1), of oid] objs.store_lookup [OF assms(1), of oid]
    objs.evict_inv [OF assms(1), of oid] objs.evict_lookup [OF assms(1), of oid]
    objs.lookup_ok [OF assms(1), of oid]
  by (auto simp: release_eq refs_def fun_eq_iff split: option.splits if_splits)

lemma ObjectTable_new_wf: "n \<le> 65536 \<Longrightarrow> ObjectTable_wf (ObjectTable_new n)"
  by (simp add: ObjectTable_wf_def ObjectTable_new_def)

lemma refs_new [simp]: "refs (ObjectTable_new n) oid = 0"
  by (simp add: refs_def ObjectTable_entry_def ObjectTable_new_def get_opt_def Let_def)

end
