(* ===== verification/Handles.thy ===== *)
theory Handles
  imports Objects
begin

text \<open>
  The per-process handle table of \<^verbatim>\<open>kcore/src/handle.rs\<close>: the capability surface.
  Each slot binds an object reference to a rights mask; an operation that hands
  authority on may only narrow it. The table is interpreted as a generational table
  and its effect on the multiset of references it holds is stated for each operation,
  which is what the conservation argument over whole systems needs.
\<close>

datatype Handle = Handle (Handle_raw: "32 word")

definition Handle_new :: "nat \<Rightarrow> 16 word \<Rightarrow> Handle" where
  "Handle_new index generation = Handle (pack16 index generation)"

definition Handle_index :: "Handle \<Rightarrow> nat" where
  "Handle_index h = index16 (Handle_raw h)"

definition Handle_generation :: "Handle \<Rightarrow> 16 word" where
  "Handle_generation h = gen16 (Handle_raw h)"

datatype ScopeRef = ScopeRef "32 word"

record HEntry =
  he_object :: ObjectId
  he_rights :: Rights
  he_scope :: "ScopeRef option"

record HandleTable =
  ht_slots :: "HEntry option list"
  ht_generations :: "16 word list"

definition HandleTable_new :: "nat \<Rightarrow> HandleTable" where
  "HandleTable_new max_handles =
     \<lparr> ht_slots = replicate max_handles None, ht_generations = replicate max_handles 0 \<rparr>"

definition HandleTable_insert :: "HandleTable \<Rightarrow> ObjectId \<Rightarrow> Rights \<Rightarrow> Handle res \<times> HandleTable" where
  "HandleTable_insert t obj rights =
     (case free_slot (ht_slots t) of
        None \<Rightarrow> (Err OutOfMemory, t)
      | Some index \<Rightarrow>
          (Ok (Handle_new index (ht_generations t ! index)),
           t\<lparr>ht_slots := (ht_slots t)[index :=
               Some \<lparr>he_object = obj, he_rights = rights, he_scope = None\<rparr>]\<rparr>))"

definition HandleTable_entry :: "HandleTable \<Rightarrow> Handle \<Rightarrow> HEntry res" where
  "HandleTable_entry t h =
     (let index = Handle_index h in
      if get_opt (ht_generations t) index = Some (Handle_generation h)
      then (case ht_slots t ! index of Some e \<Rightarrow> Ok e | None \<Rightarrow> Err BadHandle)
      else Err BadHandle)"

fun audit_loop :: "HEntry list \<Rightarrow> nat \<Rightarrow> (ObjectId \<times> Rights) list \<Rightarrow> nat \<times> (ObjectId \<times> Rights) list" where
  "audit_loop [] written out = (written, out)"
| "audit_loop (e # es) written out =
     (if written = length out then (written, out)
      else audit_loop es (written + 1) (out[written := (he_object e, he_rights e)]))"

definition HandleTable_audit ::
    "HandleTable \<Rightarrow> (ObjectId \<times> Rights) list \<Rightarrow> nat \<times> (ObjectId \<times> Rights) list" where
  "HandleTable_audit t out = audit_loop (flatten (ht_slots t)) 0 out"

fun handle_for_loop :: "nat \<Rightarrow> HEntry option list \<Rightarrow> 16 word list \<Rightarrow> ObjectId \<Rightarrow> Rights \<Rightarrow> Handle option" where
  "handle_for_loop index [] gens obj required = None"
| "handle_for_loop index (slot # slots) gens obj required =
     (let rest = handle_for_loop (index + 1) slots gens obj required in
      case slot of
        None \<Rightarrow> rest
      | Some entry \<Rightarrow>
          if he_object entry = obj \<and> Rights_contains (he_rights entry) required
          then (case get_opt gens index of Some g \<Rightarrow> Some (Handle_new index g) | None \<Rightarrow> rest)
          else rest)"

definition HandleTable_handle_for :: "HandleTable \<Rightarrow> ObjectId \<Rightarrow> Rights \<Rightarrow> Handle option" where
  "HandleTable_handle_for t obj required = handle_for_loop 0 (ht_slots t) (ht_generations t) obj required"

definition HandleTable_lookup :: "HandleTable \<Rightarrow> Handle \<Rightarrow> (ObjectId \<times> Rights) res" where
  "HandleTable_lookup t h =
     (case HandleTable_entry t h of Err e \<Rightarrow> Err e | Ok entry \<Rightarrow> Ok (he_object entry, he_rights entry))"

definition HandleTable_object :: "HandleTable \<Rightarrow> Handle \<Rightarrow> ObjectId res" where
  "HandleTable_object t h = (case HandleTable_entry t h of Err e \<Rightarrow> Err e | Ok entry \<Rightarrow> Ok (he_object entry))"

definition HandleTable_rights :: "HandleTable \<Rightarrow> Handle \<Rightarrow> Rights res" where
  "HandleTable_rights t h = (case HandleTable_entry t h of Err e \<Rightarrow> Err e | Ok entry \<Rightarrow> Ok (he_rights entry))"

definition HandleTable_scope :: "HandleTable \<Rightarrow> Handle \<Rightarrow> ScopeRef option res" where
  "HandleTable_scope t h = (case HandleTable_entry t h of Err e \<Rightarrow> Err e | Ok entry \<Rightarrow> Ok (he_scope entry))"

definition HandleTable_duplicate ::
    "HandleTable \<Rightarrow> ObjectTable \<Rightarrow> Handle \<Rightarrow> Rights \<Rightarrow> Handle res \<times> HandleTable \<times> ObjectTable" where
  "HandleTable_duplicate t objects h new_rights =
     (case HandleTable_lookup t h of
        Err e \<Rightarrow> (Err e, t, objects)
      | Ok (obj, current) \<Rightarrow>
          if \<not> Rights_is_subset_of new_rights current then (Err AccessDenied, t, objects)
          else (case ObjectTable_retain objects obj of
                  (Err e, objects') \<Rightarrow> (Err e, t, objects')
                | (Ok _, objects') \<Rightarrow>
                    (case HandleTable_insert t obj new_rights of
                       (Ok new_handle, t') \<Rightarrow> (Ok new_handle, t', objects')
                     | (Err e, t') \<Rightarrow> (Err e, t', snd (ObjectTable_release objects' obj)))))"

definition HandleTable_replace_rights :: "HandleTable \<Rightarrow> Handle \<Rightarrow> Rights \<Rightarrow> unit res \<times> HandleTable" where
  "HandleTable_replace_rights t h new_rights =
     (case HandleTable_entry t h of
        Err e \<Rightarrow> (Err e, t)
      | Ok entry \<Rightarrow>
          if \<not> Rights_is_subset_of new_rights (he_rights entry) then (Err AccessDenied, t)
          else (Ok (), t\<lparr>ht_slots := (ht_slots t)[Handle_index h := Some (entry\<lparr>he_rights := new_rights\<rparr>)]\<rparr>))"

definition HandleTable_vacate :: "HandleTable \<Rightarrow> Handle \<Rightarrow> HandleTable" where
  "HandleTable_vacate t h =
     (let index = Handle_index h in
      t\<lparr>ht_slots := (ht_slots t)[index := None],
        ht_generations := (ht_generations t)[index := ht_generations t ! index + 1]\<rparr>)"

definition HandleTable_take_narrowed ::
    "HandleTable \<Rightarrow> Handle \<Rightarrow> Rights \<Rightarrow> (ObjectId \<times> Rights) res \<times> HandleTable" where
  "HandleTable_take_narrowed t h to =
     (case HandleTable_lookup t h of
        Err e \<Rightarrow> (Err e, t)
      | Ok (obj, rights) \<Rightarrow>
          if \<not> Rights_contains rights Rights_TRANSFER \<or> \<not> Rights_is_subset_of to rights
          then (Err AccessDenied, t)
          else (Ok (obj, to), HandleTable_vacate t h))"

definition HandleTable_take :: "HandleTable \<Rightarrow> Handle \<Rightarrow> (ObjectId \<times> Rights) res \<times> HandleTable" where
  "HandleTable_take t h =
     (case HandleTable_lookup t h of
        Err e \<Rightarrow> (Err e, t)
      | Ok (obj, rights) \<Rightarrow> HandleTable_take_narrowed t h rights)"

definition HandleTable_share_narrowed :: "HandleTable \<Rightarrow> Handle \<Rightarrow> Rights \<Rightarrow> (ObjectId \<times> Rights) res" where
  "HandleTable_share_narrowed t h to =
     (case HandleTable_lookup t h of
        Err e \<Rightarrow> Err e
      | Ok (obj, rights) \<Rightarrow>
          if \<not> Rights_contains rights Rights_TRANSFER \<or> \<not> Rights_is_subset_of to rights
          then Err AccessDenied else Ok (obj, to))"

definition HandleTable_install :: "HandleTable \<Rightarrow> ObjectId \<Rightarrow> Rights \<Rightarrow> Handle res \<times> HandleTable" where
  "HandleTable_install t obj rights = HandleTable_insert t obj rights"

definition HandleTable_drop_handle :: "HandleTable \<Rightarrow> Handle \<Rightarrow> ObjectId res \<times> HandleTable" where
  "HandleTable_drop_handle t h =
     (case HandleTable_entry t h of
        Err e \<Rightarrow> (Err e, t)
      | Ok entry \<Rightarrow> (Ok (he_object entry), HandleTable_vacate t h))"

definition HandleTable_close ::
    "HandleTable \<Rightarrow> ObjectTable \<Rightarrow> Handle \<Rightarrow> bool res \<times> HandleTable \<times> ObjectTable" where
  "HandleTable_close t objects h =
     (case HandleTable_entry t h of
        Err e \<Rightarrow> (Err e, t, objects)
      | Ok entry \<Rightarrow>
          (case ObjectTable_release objects (he_object entry) of
             (r, objects') \<Rightarrow> (r, HandleTable_vacate t h, objects')))"

fun reclaim_loop ::
    "nat \<Rightarrow> nat \<Rightarrow> ObjectId list \<Rightarrow> HandleTable \<Rightarrow> nat \<Rightarrow> (ObjectId \<times> Rights) list
     \<Rightarrow> nat \<times> HandleTable \<times> (ObjectId \<times> Rights) list" where
  "reclaim_loop 0 index wanted t n out = (n, t, out)"
| "reclaim_loop (Suc left) index wanted t n out =
     (if n = length out then (n, t, out)
      else (case ht_slots t ! index of
              None \<Rightarrow> reclaim_loop left (index + 1) wanted t n out
            | Some entry \<Rightarrow>
                if he_object entry \<notin> set wanted then reclaim_loop left (index + 1) wanted t n out
                else reclaim_loop left (index + 1) wanted
                       (t\<lparr>ht_slots := (ht_slots t)[index := None],
                          ht_generations := (ht_generations t)[index := ht_generations t ! index + 1]\<rparr>)
                       (n + 1) (out[n := (he_object entry, he_rights entry)])))"

definition HandleTable_reclaim ::
    "HandleTable \<Rightarrow> ObjectId list \<Rightarrow> (ObjectId \<times> Rights) list
     \<Rightarrow> nat \<times> HandleTable \<times> (ObjectId \<times> Rights) list" where
  "HandleTable_reclaim t wanted out = reclaim_loop (length (ht_slots t)) 0 wanted t 0 out"

definition HandleTable_holds :: "HandleTable \<Rightarrow> ObjectId \<Rightarrow> bool" where
  "HandleTable_holds t obj \<longleftrightarrow> list_ex (\<lambda>e. he_object e = obj) (flatten (ht_slots t))"

definition HandleTable_count :: "HandleTable \<Rightarrow> nat" where
  "HandleTable_count t = count_some (ht_slots t)"

definition HandleTable_wf :: "HandleTable \<Rightarrow> bool" where
  "HandleTable_wf t \<longleftrightarrow>
     length (ht_generations t) = length (ht_slots t) \<and> length (ht_slots t) \<le> 65536"

subsection \<open>The table as a generational table\<close>

definition HandleTable_find :: "HandleTable \<Rightarrow> Handle \<Rightarrow> HEntry option" where
  "HandleTable_find t h = (case HandleTable_entry t h of Ok e \<Rightarrow> Some e | Err _ \<Rightarrow> None)"

definition HandleTable_store :: "HandleTable \<Rightarrow> Handle \<Rightarrow> HEntry \<Rightarrow> HandleTable" where
  "HandleTable_store t h e = t\<lparr>ht_slots := (ht_slots t)[Handle_index h := Some e]\<rparr>"

definition HandleTable_alloc :: "HandleTable \<Rightarrow> ObjectId \<times> Rights \<Rightarrow> Handle res \<times> HandleTable" where
  "HandleTable_alloc t p = HandleTable_insert t (fst p) (snd p)"

lemma Handle_eq_iff: "i < 65536 \<Longrightarrow> k = Handle_new i g \<longleftrightarrow> Handle_index k = i \<and> Handle_generation k = g"
  by (cases k) (simp add: Handle_new_def Handle_index_def Handle_generation_def pack16_eq_iff)

lemma Handle_new_simps [simp]:
  "i < 65536 \<Longrightarrow> Handle_index (Handle_new i g) = i"
  "Handle_generation (Handle_new i g) = g"
  by (simp_all add: Handle_new_def Handle_index_def Handle_generation_def pack_simps)

lemma Handle_same_slot:
  "Handle_index i = Handle_index j \<Longrightarrow> Handle_generation i = Handle_generation j \<Longrightarrow> i = j"
  by (metis Handle_eq_iff Handle_index_def index16_less)

lemma HandleTable_entry_find:
  "HandleTable_entry t h = (case HandleTable_find t h of Some e \<Rightarrow> Ok e | None \<Rightarrow> Err BadHandle)"
  by (auto simp: HandleTable_find_def HandleTable_entry_def Let_def split: option.splits)

lemma HandleTable_find_eq:
  "HandleTable_find t h =
     (if get_opt (ht_generations t) (Handle_index h) = Some (Handle_generation h)
      then ht_slots t ! Handle_index h else None)"
  by (auto simp: HandleTable_find_def HandleTable_entry_def Let_def split: option.splits)

lemma HandleTable_find_Some_iff:
  "HandleTable_find t h = Some e \<longleftrightarrow>
     Handle_index h < length (ht_generations t) \<and>
     ht_generations t ! Handle_index h = Handle_generation h \<and>
     ht_slots t ! Handle_index h = Some e"
  by (auto simp: HandleTable_find_eq get_opt_Some_iff)

lemmas handle_table_defs =
  HandleTable_alloc_def HandleTable_insert_def HandleTable_store_def HandleTable_vacate_def
  HandleTable_wf_def Let_def

interpretation hdls: gen_table
  HandleTable_find HandleTable_wf HandleTable_alloc
  "\<lambda>p. \<lparr>he_object = fst p, he_rights = snd p, he_scope = None\<rparr>"
  HandleTable_store HandleTable_vacate "\<lambda>_. True"
  Handle_index Handle_generation "\<lambda>t i. ht_generations t ! i"
proof (unfold_locales, goal_cases)
  case (3 t i k t')
  then show ?case
    by (auto simp: handle_table_defs HandleTable_find_eq dest!: free_slotD split: option.splits)
next
  case (4 t i k t')
  then show ?case
    by (auto simp: fun_eq_iff handle_table_defs HandleTable_find_eq get_opt_def nth_list_update
        Handle_eq_iff dest!: free_slotD split: option.splits)
next
  case (6 t k v w)
  then show ?case
    by (auto simp: fun_eq_iff handle_table_defs HandleTable_find_eq get_opt_def nth_list_update
        split: if_splits) (metis Handle_same_slot)+
next
  case (8 t k v)
  then show ?case
    by (auto simp: fun_eq_iff handle_table_defs HandleTable_find_eq get_opt_def nth_list_update
        split: if_splits) (metis Handle_same_slot)+
next
  case (14 t k v)
  then show ?case
    by (auto simp: fun_eq_iff handle_table_defs HandleTable_find_Some_iff nth_list_update)
qed (auto simp: handle_table_defs HandleTable_find_Some_iff split: option.splits)

subsection \<open>The references and rights a table holds\<close>

definition cap :: "HEntry \<Rightarrow> ObjectId \<times> Rights" where
  "cap e = (he_object e, he_rights e)"

definition caps :: "HandleTable \<Rightarrow> (ObjectId \<times> Rights) multiset" where
  "caps t = mset (map cap (flatten (ht_slots t)))"

lemma caps_new [simp]: "caps (HandleTable_new n) = {#}"
  by (simp add: caps_def HandleTable_new_def)

lemma HandleTable_new_wf: "n \<le> 65536 \<Longrightarrow> HandleTable_wf (HandleTable_new n)"
  by (simp add: HandleTable_wf_def HandleTable_new_def)

lemma insert_spec:
  assumes "HandleTable_wf t" "HandleTable_insert t obj r = (Ok h, t')"
  shows "HandleTable_wf t'" and "caps t' = add_mset (obj, r) (caps t)"
    and "HandleTable_find t h = None"
    and "HandleTable_find t' = (HandleTable_find t)(h \<mapsto> \<lparr>he_object = obj, he_rights = r, he_scope = None\<rparr>)"
proof -
  have a: "HandleTable_alloc t (obj, r) = (Ok h, t')" using assms(2) by (simp add: HandleTable_alloc_def)
  show "HandleTable_wf t'" by (rule hdls.alloc_inv [OF assms(1) a])
  show "HandleTable_find t h = None" by (rule hdls.alloc_fresh [OF assms(1) a])
  show "HandleTable_find t' = (HandleTable_find t)(h \<mapsto> \<lparr>he_object = obj, he_rights = r, he_scope = None\<rparr>)"
    using hdls.alloc_lookup [OF assms(1) a] by simp
  show "caps t' = add_mset (obj, r) (caps t)"
    using assms(2)
    by (auto simp: caps_def cap_def HandleTable_insert_def mset_flatten_fill dest!: free_slotD
        split: option.splits)
qed

lemma insert_fails:
  "HandleTable_insert t obj r = (Err e, t') \<longleftrightarrow> e = OutOfMemory \<and> t' = t \<and> None \<notin> set (ht_slots t)"
  by (auto simp: HandleTable_insert_def free_slot_None_iff [symmetric] split: option.splits)

lemma find_slot:
  assumes "HandleTable_wf t" "HandleTable_find t h = Some e"
  shows "Handle_index h < length (ht_slots t)" and "ht_slots t ! Handle_index h = Some e"
  using assms by (auto simp: HandleTable_find_Some_iff HandleTable_wf_def)

lemma find_in_caps: "HandleTable_wf t \<Longrightarrow> HandleTable_find t h = Some e \<Longrightarrow> cap e \<in># caps t"
  using find_slot [of t h e] by (auto simp: caps_def set_flatten) (metis imageI mem_Collect_eq nth_mem)

lemma vacate_spec:
  assumes "HandleTable_wf t" "HandleTable_find t h = Some e"
  shows "HandleTable_wf (HandleTable_vacate t h)"
    and "caps t = add_mset (cap e) (caps (HandleTable_vacate t h))"
    and "HandleTable_find (HandleTable_vacate t h) = (HandleTable_find t)(h := None)"
proof -
  show "caps t = add_mset (cap e) (caps (HandleTable_vacate t h))"
    using mset_flatten_clear [OF find_slot [OF assms]]
    by (simp add: caps_def HandleTable_vacate_def Let_def) (metis image_mset_add_mset)
qed (auto intro: hdls.evict_inv [OF assms] hdls.evict_lookup [OF assms])

lemma store_spec:
  assumes "HandleTable_wf t" "HandleTable_find t h = Some e"
  shows "HandleTable_wf (HandleTable_store t h w)"
    and "add_mset (cap e) (caps (HandleTable_store t h w)) = add_mset (cap w) (caps t)"
    and "HandleTable_find (HandleTable_store t h w) = (HandleTable_find t)(h \<mapsto> w)"
proof -
  show "add_mset (cap e) (caps (HandleTable_store t h w)) = add_mset (cap w) (caps t)"
    using mset_flatten_replace [OF find_slot [OF assms], of w]
    by (simp add: caps_def HandleTable_store_def) (metis image_mset_add_mset)
qed (use hdls.store_inv [OF assms] hdls.store_lookup [OF assms] in auto)

subsection \<open>Reclaim, audit and the reverse lookup\<close>

definition wanted_caps :: "ObjectId list \<Rightarrow> HEntry option list \<Rightarrow> (ObjectId \<times> Rights) list" where
  "wanted_caps wanted slots = map cap (filter (\<lambda>e. he_object e \<in> set wanted) (flatten slots))"

lemma wanted_caps_simps [simp]:
  "wanted_caps wanted [] = []"
  "wanted_caps wanted (None # xs) = wanted_caps wanted xs"
  "wanted_caps wanted (Some e # xs) =
     (if he_object e \<in> set wanted then [cap e] else []) @ wanted_caps wanted xs"
  by (simp_all add: wanted_caps_def)

definition cleared :: "ObjectId list \<Rightarrow> HandleTable \<Rightarrow> HandleTable \<Rightarrow> nat \<Rightarrow> bool" where
  "cleared wanted t t' i \<longleftrightarrow>
     (if \<exists>e. ht_slots t ! i = Some e \<and> he_object e \<in> set wanted
      then ht_slots t' ! i = None \<and> ht_generations t' ! i = ht_generations t ! i + 1
      else ht_slots t' ! i = ht_slots t ! i \<and> ht_generations t' ! i = ht_generations t ! i)"

lemma reclaim_loop_spec:
  assumes "reclaim_loop left index wanted t n out = (n', t', out')"
    and "index + left = length (ht_slots t)" and "length (ht_generations t) = length (ht_slots t)"
    and "n + length (wanted_caps wanted (drop index (ht_slots t))) \<le> length out"
  shows "length (ht_slots t') = length (ht_slots t) \<and> length (ht_generations t') = length (ht_slots t)
    \<and> n' = n + length (wanted_caps wanted (drop index (ht_slots t)))
    \<and> take n' out' = take n out @ wanted_caps wanted (drop index (ht_slots t))
    \<and> (\<forall>i < index. ht_slots t' ! i = ht_slots t ! i \<and> ht_generations t' ! i = ht_generations t ! i)
    \<and> (\<forall>i. index \<le> i \<and> i < length (ht_slots t) \<longrightarrow> cleared wanted t t' i)"
  using assms
proof (induction left arbitrary: index t n out)
  case 0
  then show ?case by auto
next
  case (Suc left)
  let ?w = "\<lambda>i. wanted_caps wanted (drop i (ht_slots t))"
  have idx: "index < length (ht_slots t)" using Suc.prems by simp
  then have dr: "drop index (ht_slots t) = ht_slots t ! index # drop (Suc index) (ht_slots t)"
    by (rule Cons_nth_drop_Suc [symmetric])
  show ?case
  proof (cases "\<exists>e. ht_slots t ! index = Some e \<and> he_object e \<in> set wanted")
    case True
    then obtain e where e: "ht_slots t ! index = Some e" "he_object e \<in> set wanted" by blast
    let ?t = "t\<lparr>ht_slots := (ht_slots t)[index := None],
                ht_generations := (ht_generations t)[index := ht_generations t ! index + 1]\<rparr>"
    have n: "n < length out" using Suc.prems(4) e by (simp add: dr)
    with Suc.prems(1) e
    have "reclaim_loop left (index + 1) wanted ?t (n + 1) (out[n := cap e]) = (n', t', out')"
      by (simp add: cap_def)
    from Suc.IH [OF this]
    have ih: "length (ht_slots t') = length (ht_slots t)" "length (ht_generations t') = length (ht_slots t)"
        "n' = Suc (n + length (?w (Suc index)))"
        "take n' out' = take (Suc n) (out[n := cap e]) @ ?w (Suc index)"
        "\<forall>i < Suc index. ht_slots t' ! i = ht_slots ?t ! i \<and> ht_generations t' ! i = ht_generations ?t ! i"
        "\<forall>i. Suc index \<le> i \<and> i < length (ht_slots t) \<longrightarrow> cleared wanted ?t t' i"
      using Suc.prems(2-4) e by (auto simp: dr)
    have "cleared wanted t t' i" if "index \<le> i" "i < length (ht_slots t)" for i
    proof (cases "i = index")
      case True
      then show ?thesis using ih(5) e idx Suc.prems(3) by (simp add: cleared_def)
    next
      case False
      with that ih(6) have "cleared wanted ?t t' i" by simp
      with False show ?thesis by (simp add: cleared_def)
    qed
    moreover have "take (Suc n) (out[n := cap e]) = take n out @ [cap e]"
      using n by (simp add: take_Suc_conv_app_nth)
    moreover have "\<forall>i < index. ht_slots t' ! i = ht_slots t ! i \<and> ht_generations t' ! i = ht_generations t ! i"
      using ih(5) by simp
    ultimately show ?thesis using ih(1-4) e by (simp add: dr)
  next
    case False
    show ?thesis
    proof (cases "n = length out")
      case True
      with Suc.prems(4) have none: "?w index = []" by simp
      then have "\<not> (\<exists>e. ht_slots t ! i = Some e \<and> he_object e \<in> set wanted)"
        if "index \<le> i" "i < length (ht_slots t)" for i
      proof -
        have "ht_slots t ! i \<in> set (drop index (ht_slots t))"
          using that by (auto simp: in_set_conv_nth intro!: exI [of _ "i - index"])
        then show ?thesis using none by (auto simp: wanted_caps_def filter_empty_conv set_flatten)
      qed
      with True Suc.prems none show ?thesis by (auto simp: cleared_def)
    next
      case nf: False
      with Suc.prems(1) False
      have "reclaim_loop left (index + 1) wanted t n out = (n', t', out')"
        by (auto split: option.splits)
      moreover have w: "?w index = ?w (Suc index)"
        using False by (cases "ht_slots t ! index") (auto simp: dr)
      ultimately have ih: "length (ht_slots t') = length (ht_slots t) \<and> length (ht_generations t') = length (ht_slots t)
          \<and> n' = n + length (?w index) \<and> take n' out' = take n out @ ?w index"
        and below: "\<forall>i < Suc index. ht_slots t' ! i = ht_slots t ! i \<and> ht_generations t' ! i = ht_generations t ! i"
        and above: "\<forall>i. Suc index \<le> i \<and> i < length (ht_slots t) \<longrightarrow> cleared wanted t t' i"
        using Suc.IH [of "index + 1" t n out] Suc.prems(2-4) by auto
      have "cleared wanted t t' i" if "index \<le> i" "i < length (ht_slots t)" for i
        using that above below False by (cases "i = index") (simp_all add: cleared_def)
      with ih below show ?thesis by auto
    qed
  qed
qed

lemma audit_loop_spec:
  "written \<le> length out \<Longrightarrow>
   audit_loop es written out =
     (let n = min (length out - written) (length es) in
      (written + n, take written out @ map cap (take n es) @ drop (written + n) out))"
proof (induction es arbitrary: written out)
  case (Cons e es)
  show ?case
  proof (cases "written = length out")
    case False
    with Cons.prems have w: "written < length out" by simp
    then have "length out - written = Suc (length out - Suc written)" by simp
    then have m: "min (length out - written) (length (e # es)) = Suc (min (length out - Suc written) (length es))"
      by simp
    show ?thesis
      using Cons.IH [of "Suc written" "out[written := cap e]"] w False
      unfolding m by (simp add: cap_def Let_def take_Suc_conv_app_nth)
  qed simp
qed simp

lemma handle_for_loop_Some:
  "handle_for_loop index slots gens obj required = Some h \<Longrightarrow>
   \<exists>i e g. i < length slots \<and> slots ! i = Some e \<and> he_object e = obj \<and> Rights_contains (he_rights e) required
     \<and> get_opt gens (index + i) = Some g \<and> h = Handle_new (index + i) g"
proof (induction slots arbitrary: index)
  case (Cons slot slots)
  have rest: ?case if "handle_for_loop (Suc index) slots gens obj required = Some h"
    using Cons.IH [OF that] by (metis add_Suc_right add_Suc length_Cons not_less_eq nth_Cons_Suc)
  show ?case
    using Cons.prems rest
    by (auto simp: Let_def split: option.splits if_splits)
qed simp

lemma handle_for_loop_None:
  "handle_for_loop index slots gens obj required = None \<Longrightarrow> index + length slots \<le> length gens \<Longrightarrow>
   Some e \<in> set slots \<Longrightarrow> he_object e = obj \<Longrightarrow> \<not> Rights_contains (he_rights e) required"
proof (induction slots arbitrary: index)
  case (Cons slot slots)
  have "\<not> Rights_contains (he_rights e) required"
    if "Some e \<in> set slots" "handle_for_loop (Suc index) slots gens obj required = None"
    using Cons.IH [of "Suc index"] Cons.prems that by simp
  with Cons.prems show ?case
    by (cases slot) (auto simp: Let_def get_opt_def split: if_splits)
qed simp

end
