(* ===== verification/Authority.thy ===== *)
theory Authority
  imports Handles
begin

text \<open>
  What a process can do with its capabilities, over whole runs of handle operations:
  the handle table and the object table of \<^verbatim>\<open>kcore/src/handle.rs\<close> and
  \<^verbatim>\<open>kcore/src/object.rs\<close> together with the references that have left the table inside a
  message. The invariant says that an object's reference count is the number of handles
  and in-flight references that name it; the safety theorems say that no run amplifies
  rights, and that a handle given up does not come back to life.
\<close>

type_synonym in_flight = "(ObjectId \<times> Rights) multiset"
type_synonym cap_state = "HandleTable \<times> ObjectTable \<times> in_flight"

text \<open>One operation of the table. \<open>HCreate\<close> mints an object and installs the first handle
  to it (giving the reference back when the table is full), \<open>HInstall\<close> lands a reference
  that is in flight; the others are the operations of the source as they are.\<close>

datatype HandleOp =
    HCreate ObjectType Rights
  | HInstall ObjectId Rights
  | HDuplicate Handle Rights
  | HReplace Handle Rights
  | HTake Handle
  | HTakeNarrowed Handle Rights
  | HClose Handle

fun handle_step :: "cap_state \<Rightarrow> HandleOp \<Rightarrow> cap_state" where
  "handle_step (t, ob, fl) (HCreate ty r) =
     (case ObjectTable_create ob ty of
        (Err e, ob1) \<Rightarrow> (t, ob1, fl)
      | (Ok oid, ob1) \<Rightarrow>
          (case HandleTable_insert t oid r of
             (Ok h, t1) \<Rightarrow> (t1, ob1, fl)
           | (Err e, t1) \<Rightarrow> (t1, snd (ObjectTable_release ob1 oid), fl)))"
| "handle_step (t, ob, fl) (HInstall oid r) =
     (if (oid, r) \<in># fl
      then (case HandleTable_install t oid r of
              (Ok h, t1) \<Rightarrow> (t1, ob, fl - {#(oid, r)#})
            | (Err e, t1) \<Rightarrow> (t1, ob, fl))
      else (t, ob, fl))"
| "handle_step (t, ob, fl) (HDuplicate h r) =
     (case HandleTable_duplicate t ob h r of (res, t1, ob1) \<Rightarrow> (t1, ob1, fl))"
| "handle_step (t, ob, fl) (HReplace h r) = (snd (HandleTable_replace_rights t h r), ob, fl)"
| "handle_step (t, ob, fl) (HTake h) =
     (case HandleTable_take t h of
        (Ok c, t1) \<Rightarrow> (t1, ob, add_mset c fl) | (Err e, t1) \<Rightarrow> (t1, ob, fl))"
| "handle_step (t, ob, fl) (HTakeNarrowed h r) =
     (case HandleTable_take_narrowed t h r of
        (Ok c, t1) \<Rightarrow> (t1, ob, add_mset c fl) | (Err e, t1) \<Rightarrow> (t1, ob, fl))"
| "handle_step (t, ob, fl) (HClose h) =
     (case HandleTable_close t ob h of (res, t1, ob1) \<Rightarrow> (t1, ob1, fl))"

definition held :: "HandleTable \<Rightarrow> in_flight \<Rightarrow> in_flight" where
  "held t fl = caps t + fl"

definition held_count :: "in_flight \<Rightarrow> ObjectId \<Rightarrow> nat" where
  "held_count c oid = size {# x \<in># c. fst x = oid #}"

lemma held_count_simps [simp]:
  "held_count {#} oid = 0"
  "held_count (add_mset x c) oid = held_count c oid + (if fst x = oid then 1 else 0)"
  "held_count (c + d) oid = held_count c oid + held_count d oid"
  by (simp_all add: held_count_def)

text \<open>The conservation invariant: both tables are well formed, and the object table counts
  exactly the references that are held.\<close>

fun cap_ok :: "cap_state \<Rightarrow> bool" where
  "cap_ok (t, ob, fl) \<longleftrightarrow>
     HandleTable_wf t \<and> ObjectTable_wf ob \<and> (\<forall>oid. refs ob oid = held_count (held t fl) oid)"

text \<open>What each step does to the held references, read off the table operations.\<close>

lemma lookup_Ok:
  assumes "HandleTable_lookup t h = Ok (oid, r)"
  obtains e where "HandleTable_find t h = Some e" "cap e = (oid, r)"
  using assms
  by (auto simp: HandleTable_lookup_def HandleTable_entry_find cap_def split: option.splits)

lemma entry_Ok: "HandleTable_entry t h = Ok e \<longleftrightarrow> HandleTable_find t h = Some e"
  by (auto simp: HandleTable_entry_find split: option.splits)

lemma take_narrowed_spec:
  assumes "HandleTable_wf t" "HandleTable_take_narrowed t h to = (r, t')"
  shows "case r of
           Err e \<Rightarrow> t' = t
         | Ok c \<Rightarrow> HandleTable_wf t' \<and> HandleTable_find t' = (HandleTable_find t)(h := None) \<and>
             (\<exists>r0. snd c \<le> r0 \<and> Rights_contains r0 Rights_TRANSFER \<and> snd c = to \<and>
                   caps t = add_mset (fst c, r0) (caps t'))"
proof (cases "HandleTable_lookup t h")
  case (Err e)
  with assms(2) show ?thesis by (auto simp: HandleTable_take_narrowed_def split: res.splits)
next
  case (Ok p)
  obtain oid r0 where p: "p = (oid, r0)" by (cases p)
  from lookup_Ok [OF Ok [unfolded p]] obtain e where e: "HandleTable_find t h = Some e" "cap e = (oid, r0)" .
  show ?thesis
    using assms(2) Ok p vacate_spec [OF assms(1) e(1)] e(2)
    by (auto simp: HandleTable_take_narrowed_def rights_order split: if_splits)
qed

lemma take_eq:
  "HandleTable_take t h =
     (case HandleTable_lookup t h of Err e \<Rightarrow> (Err e, t) | Ok (oid, r) \<Rightarrow> HandleTable_take_narrowed t h r)"
  by (simp add: HandleTable_take_def)

lemma take_spec:
  assumes "HandleTable_wf t" "HandleTable_take t h = (r, t')"
  shows "case r of
           Err e \<Rightarrow> t' = t
         | Ok c \<Rightarrow> HandleTable_wf t' \<and> HandleTable_find t' = (HandleTable_find t)(h := None) \<and>
             (\<exists>r0. snd c \<le> r0 \<and> caps t = add_mset (fst c, r0) (caps t'))"
proof (cases "HandleTable_lookup t h")
  case (Err e)
  with assms(2) show ?thesis by (auto simp: take_eq split: res.splits)
next
  case (Ok p)
  then have "HandleTable_take_narrowed t h (snd p) = (r, t')"
    using assms(2) by (auto simp: take_eq split: prod.splits)
  from take_narrowed_spec [OF assms(1) this] show ?thesis by (auto split: res.splits)
qed

lemma replace_rights_spec:
  assumes "HandleTable_wf t" "HandleTable_replace_rights t h to = (r, t')"
  shows "case r of
           Err e \<Rightarrow> t' = t
         | Ok _ \<Rightarrow> HandleTable_wf t' \<and> (\<forall>k. HandleTable_find t' k = None \<longleftrightarrow> HandleTable_find t k = None) \<and>
             (\<exists>oid r0. to \<le> r0 \<and> (oid, r0) \<in># caps t \<and>
                add_mset (oid, r0) (caps t') = add_mset (oid, to) (caps t))"
proof (cases "HandleTable_entry t h")
  case (Err e)
  with assms(2) show ?thesis by (auto simp: HandleTable_replace_rights_def)
next
  case (Ok e)
  then have f: "HandleTable_find t h = Some e" by (simp add: entry_Ok)
  note s = store_spec [OF assms(1) f, of "e\<lparr>he_rights := to\<rparr>"]
  have c: "cap e = (he_object e, he_rights e)" "cap (e\<lparr>he_rights := to\<rparr>) = (he_object e, to)"
    by (simp_all add: cap_def)
  show ?thesis
  proof (cases "to \<le> he_rights e")
    case True
    then have "r = Ok ()" "t' = HandleTable_store t h (e\<lparr>he_rights := to\<rparr>)"
      using assms(2) Ok by (simp_all add: HandleTable_replace_rights_def HandleTable_store_def rights_order)
    then show ?thesis
      using s f True find_in_caps [OF assms(1) f] unfolding c
      by (auto intro!: exI [of _ "he_object e"] exI [of _ "he_rights e"])
  qed (use assms(2) Ok in \<open>auto simp: HandleTable_replace_rights_def rights_order\<close>)
qed

lemma close_spec:
  assumes "HandleTable_wf t" "HandleTable_close t ob h = (r, t', ob')"
  shows "(HandleTable_find t h = None \<and> r = Err BadHandle \<and> t' = t \<and> ob' = ob) \<or>
         (\<exists>e. HandleTable_find t h = Some e \<and> HandleTable_wf t' \<and>
              HandleTable_find t' = (HandleTable_find t)(h := None) \<and>
              caps t = add_mset (cap e) (caps t') \<and> ObjectTable_release ob (he_object e) = (r, ob'))"
proof (cases "HandleTable_find t h")
  case None
  with assms(2) show ?thesis by (simp add: HandleTable_close_def HandleTable_entry_find)
next
  case (Some e)
  with assms(2) vacate_spec [OF assms(1) Some] show ?thesis
    by (auto simp: HandleTable_close_def HandleTable_entry_find split: prod.splits)
qed

lemma duplicate_spec:
  assumes "HandleTable_wf t" "ObjectTable_wf ob" "HandleTable_duplicate t ob h to = (r, t', ob')"
  shows "ObjectTable_wf ob'" and
    "case r of
       Err e \<Rightarrow> t' = t \<and> refs ob' = refs ob
     | Ok k \<Rightarrow> HandleTable_wf t' \<and>
         (\<exists>oid r0 e. to \<le> r0 \<and> (oid, r0) \<in># caps t \<and> caps t' = add_mset (oid, to) (caps t) \<and>
            refs ob' = (refs ob)(oid := refs ob oid + 1) \<and> HandleTable_find t k = None \<and>
            HandleTable_find t' = (HandleTable_find t)(k \<mapsto> e))"
proof -
  have "ObjectTable_wf ob' \<and>
    (case r of
       Err e \<Rightarrow> t' = t \<and> refs ob' = refs ob
     | Ok k \<Rightarrow> HandleTable_wf t' \<and>
         (\<exists>oid r0 e. to \<le> r0 \<and> (oid, r0) \<in># caps t \<and> caps t' = add_mset (oid, to) (caps t) \<and>
            refs ob' = (refs ob)(oid := refs ob oid + 1) \<and> HandleTable_find t k = None \<and>
            HandleTable_find t' = (HandleTable_find t)(k \<mapsto> e)))"
  proof (cases "HandleTable_lookup t h")
    case (Err e)
    with assms show ?thesis by (auto simp: HandleTable_duplicate_def split: res.splits)
  next
    case (Ok p)
    obtain oid r0 where p: "p = (oid, r0)" by (cases p)
    from lookup_Ok [OF Ok [unfolded p]] obtain e
      where e: "HandleTable_find t h = Some e" "cap e = (oid, r0)" .
    have mem: "(oid, r0) \<in># caps t" using find_in_caps [OF assms(1) e(1)] e(2) by simp
    show ?thesis
    proof (cases "Rights_is_subset_of to r0")
      case False
      with assms Ok p show ?thesis by (auto simp: HandleTable_duplicate_def split: res.splits)
    next
      case sub: True
      obtain rr ob1 where rt: "ObjectTable_retain ob oid = (rr, ob1)" by (cases "ObjectTable_retain ob oid")
      note rs = retain_spec [OF assms(2) rt]
      show ?thesis
      proof (cases rr)
        case (Err e)
        with assms Ok p sub rt rs show ?thesis by (auto simp: HandleTable_duplicate_def split: res.splits)
      next
        case rok: (Ok u)
        obtain ri t1 where ins: "HandleTable_insert t oid to = (ri, t1)" by (cases "HandleTable_insert t oid to")
        show ?thesis
        proof (cases ri)
          case (Ok k)
          note ins_s = insert_spec [OF assms(1) ins [unfolded Ok]]
          have "r = Ok k" "t' = t1" "ob' = ob1"
            using assms(3) \<open>HandleTable_lookup t h = Ok p\<close> p sub rt rok ins Ok
            by (auto simp: HandleTable_duplicate_def)
          then show ?thesis
            using ins_s rs rok mem sub by (auto simp: rights_order)
        next
          case (Err er)
          obtain rr2 ob2 where rl: "ObjectTable_release ob1 oid = (rr2, ob2)" by (cases "ObjectTable_release ob1 oid")
          note ls = release_spec [OF rs(1) rl]
          have "r = Err er" "t' = t1" "t1 = t" "ob' = ob2"
            using assms(3) Ok p sub rt rok ins Err rl insert_fails [of t oid to er t1]
            by (auto simp: HandleTable_duplicate_def)
          then show ?thesis
            using ls rs rok by (auto simp: fun_eq_iff)
        qed
      qed
    qed
  qed
  then show "ObjectTable_wf ob'" and
    "case r of
       Err e \<Rightarrow> t' = t \<and> refs ob' = refs ob
     | Ok k \<Rightarrow> HandleTable_wf t' \<and>
         (\<exists>oid r0 e. to \<le> r0 \<and> (oid, r0) \<in># caps t \<and> caps t' = add_mset (oid, to) (caps t) \<and>
            refs ob' = (refs ob)(oid := refs ob oid + 1) \<and> HandleTable_find t k = None \<and>
            HandleTable_find t' = (HandleTable_find t)(k \<mapsto> e))"
    by blast+
qed

subsection \<open>Conservation of references\<close>

lemma create_then_release:
  assumes "ObjectTable_wf ob" "ObjectTable_create ob ty = (Ok oid, ob1)"
    and "ObjectTable_release ob1 oid = (r, ob2)"
  shows "ObjectTable_wf ob2 \<and> refs ob2 = refs ob"
proof -
  note c = create_spec [OF assms(1,2)]
  then have "ObjectTable_wf ob1" by simp
  note l = release_spec [OF this assms(3)]
  show ?thesis using c l by (auto simp: fun_eq_iff)
qed

lemma handle_step_ok: "cap_ok s \<Longrightarrow> cap_ok (handle_step s p)"
proof -
  obtain t ob fl where s: "s = (t, ob, fl)" by (cases s)
  assume "cap_ok s"
  then have wf: "HandleTable_wf t" "ObjectTable_wf ob" "refs ob oid = held_count (caps t + fl) oid" for oid
    by (simp_all add: s held_def)
  show ?thesis
  proof (cases p)
    case (HCreate ty r)
    obtain cr ob1 where c: "ObjectTable_create ob ty = (cr, ob1)" by (cases "ObjectTable_create ob ty")
    show ?thesis
    proof (cases cr)
      case (Err e)
      with c objs.alloc_Err [of ob ty e ob1] wf show ?thesis by (simp add: s HCreate held_def)
    next
      case (Ok oid)
      note cs = create_spec [OF wf(2) c [unfolded Ok]]
      obtain ri t1 where i: "HandleTable_insert t oid r = (ri, t1)" by (cases "HandleTable_insert t oid r")
      show ?thesis
      proof (cases ri)
        case (Ok h)
        note ins_s = insert_spec [OF wf(1) i [unfolded Ok]]
        show ?thesis
          using c i \<open>cr = Ok oid\<close> Ok cs ins_s(1,2) wf(3)
          by (auto simp: s HCreate held_def fun_eq_iff)
      next
        case (Err e)
        obtain rr ob2 where l: "ObjectTable_release ob1 oid = (rr, ob2)" by (cases "ObjectTable_release ob1 oid")
        note cr = create_then_release [OF wf(2) c [unfolded \<open>cr = Ok oid\<close>] l]
        have "t1 = t" using insert_fails [of t oid r e t1] i Err by simp
        then show ?thesis
          using c i \<open>cr = Ok oid\<close> Err l cr wf by (simp add: s HCreate held_def)
      qed
    qed
  next
    case (HInstall oid r)
    obtain ri t1 where i: "HandleTable_insert t oid r = (ri, t1)" by (cases "HandleTable_insert t oid r")
    show ?thesis
    proof (cases "(oid, r) \<in># fl \<and> is_ok ri")
      case True
      then obtain h where h: "ri = Ok h" by (cases ri) auto
      note ins_s = insert_spec [OF wf(1) i [unfolded h]]
      obtain fl0 where fl: "fl = add_mset (oid, r) fl0" using True by (metis insert_DiffM)
      show ?thesis
        using ins_s(1,2) i h wf(2,3) by (simp add: s HInstall HandleTable_install_def held_def fl)
    next
      case False
      have "t1 = t" if "ri = Err e" for e using insert_fails [of t oid r e t1] i that by simp
      with False i wf show ?thesis
        by (cases ri) (simp_all add: s HInstall HandleTable_install_def held_def)
    qed
  next
    case (HDuplicate h r)
    obtain rr t1 ob1 where d: "HandleTable_duplicate t ob h r = (rr, t1, ob1)"
      by (cases "HandleTable_duplicate t ob h r")
    note ds = duplicate_spec [OF wf(1,2) d]
    show ?thesis
      using d ds wf by (cases rr) (auto simp: s HDuplicate held_def)
  next
    case (HReplace h r)
    obtain rr t1 where d: "HandleTable_replace_rights t h r = (rr, t1)"
      by (cases "HandleTable_replace_rights t h r")
    note ds = replace_rights_spec [OF wf(1) d]
    show ?thesis
    proof (cases rr)
      case (Err e)
      with d ds wf show ?thesis by (simp add: s HReplace held_def)
    next
      case (Ok u)
      with ds obtain oid r0 where t1: "HandleTable_wf t1" "add_mset (oid, r0) (caps t1) = add_mset (oid, r) (caps t)"
        by auto
      have "held_count (caps t1) k = held_count (caps t) k" for k
        using arg_cong [OF t1(2), of "\<lambda>c. held_count c k"] by simp
      with d t1(1) wf show ?thesis by (simp add: s HReplace held_def)
    qed
  next
    case (HTake h)
    obtain rr t1 where d: "HandleTable_take t h = (rr, t1)" by (cases "HandleTable_take t h")
    note ds = take_spec [OF wf(1) d]
    show ?thesis using d ds wf by (cases rr) (auto simp: s HTake held_def)
  next
    case (HTakeNarrowed h r)
    obtain rr t1 where d: "HandleTable_take_narrowed t h r = (rr, t1)" by (cases "HandleTable_take_narrowed t h r")
    note ds = take_narrowed_spec [OF wf(1) d]
    show ?thesis using d ds wf by (cases rr) (auto simp: s HTakeNarrowed held_def)
  next
    case (HClose h)
    obtain rr t1 ob1 where d: "HandleTable_close t ob h = (rr, t1, ob1)" by (cases "HandleTable_close t ob h")
    consider "t1 = t" "ob1 = ob"
      | e where "HandleTable_wf t1" "caps t = add_mset (cap e) (caps t1)"
          "ObjectTable_release ob (he_object e) = (rr, ob1)"
      using close_spec [OF wf(1) d] by blast
    then show ?thesis
    proof cases
      case 1
      with d wf show ?thesis by (simp add: s HClose held_def)
    next
      case (2 e)
      note ls = release_spec [OF wf(2) 2(3)]
      have "0 < refs ob (he_object e)" using wf(3) [of "he_object e"] 2(2) by (simp add: cap_def)
      with ls(1,2,3) 2(1,2) d wf(3) show ?thesis
        by (auto simp: s HClose held_def cap_def)
    qed
  qed
qed

lemma handle_run_ok: "cap_ok s \<Longrightarrow> cap_ok (foldl handle_step s ops)"
  by (induction ops arbitrary: s) (simp_all add: handle_step_ok)

text \<open>C5: Object references are conserved. Starting from empty tables, after any sequence of
  creations, installs, duplications, rights replacements, takes and closes, an object is
  live exactly when some handle or in-flight reference names it, and its reference count
  is the number of them: no operation leaks or forges a reference, on its error paths
  either (a full table gives the reference back).\<close>
theorem references_conserved:
  assumes "max_handles \<le> 65536" "max_objects \<le> 65536"
    and "foldl handle_step (HandleTable_new max_handles, ObjectTable_new max_objects, {#}) ops = (t, ob, fl)"
  shows "ObjectTable_refcount ob oid =
      (let n = held_count (caps t + fl) oid in if n = 0 then None else Some n)"
proof -
  have "cap_ok (HandleTable_new max_handles, ObjectTable_new max_objects, {#})"
    using assms(1,2) by (simp add: HandleTable_new_wf ObjectTable_new_wf held_def)
  from handle_run_ok [OF this, of ops] have ok: "ObjectTable_wf ob" "refs ob oid = held_count (caps t + fl) oid"
    by (simp_all add: assms(3) held_def)
  show ?thesis
    using refs_pos_iff [OF ok(1), of oid] ok(2)
    by (auto simp: refs_def ObjectTable_refcount_def ObjectTable_is_live_def Let_def split: option.splits)
qed

subsection \<open>Rights are never amplified\<close>

text \<open>The capabilities a run mints: a fresh object comes with the rights its creator asks for.\<close>

fun minted :: "cap_state \<Rightarrow> HandleOp list \<Rightarrow> (ObjectId \<times> Rights) list" where
  "minted s [] = []"
| "minted s (p # ops) =
     (case (s, p) of
        ((t, ob, fl), HCreate ty r) \<Rightarrow>
          (case fst (ObjectTable_create ob ty) of Ok oid \<Rightarrow> [(oid, r)] | Err _ \<Rightarrow> [])
      | _ \<Rightarrow> []) @ minted (handle_step s p) ops"

definition bounded_by :: "in_flight \<Rightarrow> (ObjectId \<times> Rights) set \<Rightarrow> bool" where
  "bounded_by c S \<longleftrightarrow> (\<forall>x \<in># c. \<exists>r0. (fst x, r0) \<in> S \<and> snd x \<le> r0)"

lemma bounded_by_add: "bounded_by (add_mset x c) S \<longleftrightarrow> (\<exists>r0. (fst x, r0) \<in> S \<and> snd x \<le> r0) \<and> bounded_by c S"
  by (auto simp: bounded_by_def)

lemma bounded_by_union: "bounded_by (c + d) S \<longleftrightarrow> bounded_by c S \<and> bounded_by d S"
  by (auto simp: bounded_by_def)

lemma bounded_by_mono: "bounded_by c S \<Longrightarrow> S \<subseteq> T \<Longrightarrow> bounded_by c T"
  unfolding bounded_by_def by blast

lemma bounded_by_weaker:
  "bounded_by c S \<Longrightarrow> (oid, r0) \<in># c \<Longrightarrow> r \<le> r0 \<Longrightarrow> \<exists>r1. (oid, r1) \<in> S \<and> r \<le> r1"
  by (fastforce simp: bounded_by_def intro: order_trans)

lemma handle_step_bounded:
  assumes "HandleTable_wf t" "ObjectTable_wf ob" "bounded_by (caps t + fl) S"
    and "handle_step (t, ob, fl) p = (t', ob', fl')"
  shows "bounded_by (caps t' + fl') (S \<union> set (minted (t, ob, fl) [p]))"
proof (cases p)
  case (HCreate ty r)
  obtain cr ob1 where c: "ObjectTable_create ob ty = (cr, ob1)" by (cases "ObjectTable_create ob ty")
  show ?thesis
  proof (cases cr)
    case (Err e)
    with c assms(3,4) show ?thesis by (auto simp: HCreate)
  next
    case (Ok oid)
    obtain ri t1 where i: "HandleTable_insert t oid r = (ri, t1)" by (cases "HandleTable_insert t oid r")
    have b: "bounded_by (caps t + fl) (S \<union> {(oid, r)})" by (rule bounded_by_mono [OF assms(3)]) auto
    show ?thesis
    proof (cases ri)
      case (Ok h)
      note ins_s = insert_spec(2) [OF assms(1) i [unfolded Ok]]
      with c i \<open>cr = Ok oid\<close> Ok assms(4) b show ?thesis
        by (auto simp: HCreate bounded_by_add bounded_by_union)
    next
      case (Err e)
      then have "t1 = t" using insert_fails [of t oid r e t1] i by simp
      with c i \<open>cr = Ok oid\<close> Err assms(4) b show ?thesis by (auto simp: HCreate)
    qed
  qed
next
  case (HInstall oid r)
  obtain ri t1 where i: "HandleTable_insert t oid r = (ri, t1)" by (cases "HandleTable_insert t oid r")
  show ?thesis
  proof (cases "(oid, r) \<in># fl \<and> is_ok ri")
    case True
    then obtain h where h: "ri = Ok h" by (cases ri) auto
    note ins_s = insert_spec(2) [OF assms(1) i [unfolded h]]
    obtain fl0 where fl: "fl = add_mset (oid, r) fl0" using True by (metis insert_DiffM)
    show ?thesis
      using assms(3,4) i h ins_s
      by (auto simp: HInstall HandleTable_install_def fl bounded_by_add bounded_by_union)
  next
    case False
    have "t1 = t" if "ri = Err e" for e using insert_fails [of t oid r e t1] i that by simp
    with False i assms(3,4) show ?thesis
      by (cases ri) (auto simp: HInstall HandleTable_install_def split: if_splits)
  qed
next
  case (HDuplicate h r)
  obtain rr t1 ob1 where d: "HandleTable_duplicate t ob h r = (rr, t1, ob1)"
    by (cases "HandleTable_duplicate t ob h r")
  note ds = duplicate_spec(2) [OF assms(1,2) d]
  show ?thesis
  proof (cases rr)
    case (Ok k)
    with ds obtain oid r0 where x: "r \<le> r0" "(oid, r0) \<in># caps t" "caps t1 = add_mset (oid, r) (caps t)" by auto
    then have "\<exists>r1. (oid, r1) \<in> S \<and> r \<le> r1" by (intro bounded_by_weaker [OF assms(3)]) auto
    with x(3) d assms(3,4) show ?thesis by (auto simp: HDuplicate bounded_by_add)
  qed (use d ds assms(3,4) in \<open>auto simp: HDuplicate\<close>)
next
  case (HReplace h r)
  obtain rr t1 where d: "HandleTable_replace_rights t h r = (rr, t1)"
    by (cases "HandleTable_replace_rights t h r")
  note ds = replace_rights_spec [OF assms(1) d]
  show ?thesis
  proof (cases rr)
    case (Ok u)
    with ds obtain oid r0 where x: "r \<le> r0" "(oid, r0) \<in># caps t"
      "add_mset (oid, r0) (caps t1) = add_mset (oid, r) (caps t)" by auto
    then have b: "\<exists>r1. (oid, r1) \<in> S \<and> r \<le> r1" by (intro bounded_by_weaker [OF assms(3)]) auto
    have "bounded_by (add_mset (oid, r) (caps t)) S"
      using b assms(3) by (simp add: bounded_by_add bounded_by_union)
    then have "bounded_by (caps t1) S" unfolding x(3) [symmetric] by (simp add: bounded_by_add)
    with d assms(3,4) show ?thesis by (auto simp: HReplace bounded_by_union)
  qed (use d ds assms(3,4) in \<open>auto simp: HReplace\<close>)
next
  case (HTake h)
  obtain rr t1 where d: "HandleTable_take t h = (rr, t1)" by (cases "HandleTable_take t h")
  note ds = take_spec [OF assms(1) d]
  show ?thesis
  proof (cases rr)
    case (Ok c)
    with ds obtain r0 where x: "snd c \<le> r0" "caps t = add_mset (fst c, r0) (caps t1)" by auto
    then have "\<exists>r1. (fst c, r1) \<in> S \<and> snd c \<le> r1" by (intro bounded_by_weaker [OF assms(3)]) auto
    with x(2) Ok d assms(3,4) show ?thesis by (auto simp: HTake bounded_by_add bounded_by_union)
  qed (use d ds assms(3,4) in \<open>auto simp: HTake\<close>)
next
  case (HTakeNarrowed h r)
  obtain rr t1 where d: "HandleTable_take_narrowed t h r = (rr, t1)" by (cases "HandleTable_take_narrowed t h r")
  note ds = take_narrowed_spec [OF assms(1) d]
  show ?thesis
  proof (cases rr)
    case (Ok c)
    with ds obtain r0 where x: "snd c \<le> r0" "caps t = add_mset (fst c, r0) (caps t1)" by auto
    then have "\<exists>r1. (fst c, r1) \<in> S \<and> snd c \<le> r1" by (intro bounded_by_weaker [OF assms(3)]) auto
    with x(2) Ok d assms(3,4) show ?thesis by (auto simp: HTakeNarrowed bounded_by_add bounded_by_union)
  qed (use d ds assms(3,4) in \<open>auto simp: HTakeNarrowed\<close>)
next
  case (HClose h)
  obtain rr t1 ob1 where d: "HandleTable_close t ob h = (rr, t1, ob1)" by (cases "HandleTable_close t ob h")
  have "t1 = t \<or> (\<exists>e. caps t = add_mset (cap e) (caps t1))" using close_spec [OF assms(1) d] by blast
  with d assms(3,4) show ?thesis by (auto simp: HClose bounded_by_add bounded_by_union)
qed

lemma bounded_run:
  assumes "cap_ok (t, ob, fl)" "bounded_by (caps t + fl) S"
    and "foldl handle_step (t, ob, fl) ops = (t', ob', fl')"
  shows "bounded_by (caps t' + fl') (S \<union> set (minted (t, ob, fl) ops))"
  using assms
proof (induction ops arbitrary: t ob fl S)
  case (Cons p ops)
  obtain t1 ob1 fl1 where st: "handle_step (t, ob, fl) p = (t1, ob1, fl1)"
    by (cases "handle_step (t, ob, fl) p")
  have ok: "cap_ok (t1, ob1, fl1)" using handle_step_ok [OF Cons.prems(1), of p] st by simp
  have "bounded_by (caps t1 + fl1) (S \<union> set (minted (t, ob, fl) [p]))"
    by (rule handle_step_bounded [OF _ _ Cons.prems(2) st]) (use Cons.prems(1) in simp_all)
  from Cons.IH [OF ok this] Cons.prems(3) st
  have "bounded_by (caps t' + fl') (S \<union> set (minted (t, ob, fl) [p]) \<union> set (minted (t1, ob1, fl1) ops))"
    by simp
  moreover have "set (minted (t, ob, fl) (p # ops)) = set (minted (t, ob, fl) [p]) \<union> set (minted (t1, ob1, fl1) ops)"
    using st by simp
  ultimately show ?case by (simp only: Un_assoc)
qed simp

text \<open>C1: Authority is only ever narrowed. Whatever sequence of handle operations runs from a
  state whose references are accounted for, every capability held at the end, in the table
  or in flight, names an object together with a subset of the rights that were held on that
  same object at the start or that its creation minted: duplicating, replacing rights,
  taking for transfer and installing never add a right.\<close>
theorem authority_never_amplified:
  assumes "cap_ok (t, ob, fl)"
    and "foldl handle_step (t, ob, fl) ops = (t', ob', fl')"
    and "(oid, r) \<in># caps t' + fl'"
  shows "\<exists>r0. Rights_is_subset_of r r0 \<and>
      ((oid, r0) \<in># caps t + fl \<or> (oid, r0) \<in> set (minted (t, ob, fl) ops))"
proof -
  have "bounded_by (caps t + fl) (set_mset (caps t + fl))" by (auto simp: bounded_by_def)
  from bounded_run [OF assms(1) this assms(2)] assms(3) show ?thesis
    unfolding bounded_by_def rights_order by fastforce
qed

subsection \<open>A handle given up stays dead\<close>

text \<open>Every step is, for the handle table, a short sequence of the generational table's
  operations that evicts at most one entry.\<close>

lemma step_Evict: "HandleTable_find t h = Some e \<Longrightarrow> hdls.step t (Evict h) = HandleTable_vacate t h"
  by simp

lemma insert_as_step: "snd (HandleTable_insert t oid r) = hdls.step t (Alloc (oid, r))"
  by (simp add: HandleTable_alloc_def)

lemma take_narrowed_as_step:
  "snd (HandleTable_take_narrowed t h r) = t \<or> snd (HandleTable_take_narrowed t h r) = hdls.step t (Evict h)"
  by (auto simp: HandleTable_take_narrowed_def HandleTable_lookup_def entry_Ok
      split: res.splits elim: step_Evict [symmetric])

lemma take_as_step:
  "snd (HandleTable_take t h) = t \<or> snd (HandleTable_take t h) = hdls.step t (Evict h)"
proof (cases "HandleTable_lookup t h")
  case (Ok p)
  then have "HandleTable_take t h = HandleTable_take_narrowed t h (snd p)"
    by (simp add: take_eq split: prod.splits)
  with take_narrowed_as_step [of t h "snd p"] show ?thesis by presburger
qed (simp add: take_eq)

lemma close_as_step:
  "fst (snd (HandleTable_close t ob h)) = t \<or> fst (snd (HandleTable_close t ob h)) = hdls.step t (Evict h)"
  by (auto simp: HandleTable_close_def entry_Ok split: res.splits prod.splits elim: step_Evict [symmetric])

definition one_step :: "HandleTable \<Rightarrow> HandleTable \<Rightarrow> bool" where
  "one_step t t' \<longleftrightarrow> t' = t \<or> (\<exists>q. t' = hdls.step t q)"

lemma one_step_refl [simp]: "one_step t t"
  by (simp add: one_step_def)

lemma insert_one_step: "HandleTable_insert t oid r = (x, t') \<Longrightarrow> one_step t t'"
  using insert_as_step [of t oid r] unfolding one_step_def by (metis snd_conv)

lemma replace_one_step: "one_step t (snd (HandleTable_replace_rights t h r))"
proof (cases "HandleTable_find t h")
  case (Some e)
  then have "hdls.step t (Store h (e\<lparr>he_rights := r\<rparr>)) =
      t\<lparr>ht_slots := (ht_slots t)[Handle_index h := Some (e\<lparr>he_rights := r\<rparr>)]\<rparr>"
    by (simp add: HandleTable_store_def)
  then have "one_step t (t\<lparr>ht_slots := (ht_slots t)[Handle_index h := Some (e\<lparr>he_rights := r\<rparr>)]\<rparr>)"
    unfolding one_step_def by metis
  with Some show ?thesis
    by (simp add: HandleTable_replace_rights_def HandleTable_entry_find)
qed (simp add: HandleTable_replace_rights_def HandleTable_entry_find)

lemma duplicate_one_step: "one_step t (fst (snd (HandleTable_duplicate t ob h r)))"
proof (cases "HandleTable_lookup t h")
  case (Ok p)
  obtain oid r0 where p: "p = (oid, r0)" by (cases p)
  obtain x t1 where i: "HandleTable_insert t oid r = (x, t1)" by (cases "HandleTable_insert t oid r")
  obtain y ob1 where y: "ObjectTable_retain ob oid = (y, ob1)" by (cases "ObjectTable_retain ob oid")
  show ?thesis
    using Ok p i y insert_one_step [OF i]
    by (cases x; cases y) (simp_all add: HandleTable_duplicate_def)
qed (simp add: HandleTable_duplicate_def)

lemma handle_step_one: "one_step t (fst (handle_step (t, ob, fl) p))"
proof (cases p)
  case (HCreate ty r)
  obtain cr ob1 where c: "ObjectTable_create ob ty = (cr, ob1)" by (cases "ObjectTable_create ob ty")
  show ?thesis
  proof (cases cr)
    case (Ok oid)
    obtain x t1 where i: "HandleTable_insert t oid r = (x, t1)" by (cases "HandleTable_insert t oid r")
    show ?thesis using c i Ok insert_one_step [OF i] by (cases x) (simp_all add: HCreate)
  qed (simp add: HCreate c)
next
  case (HInstall oid r)
  obtain x t1 where i: "HandleTable_insert t oid r = (x, t1)" by (cases "HandleTable_insert t oid r")
  show ?thesis
    using i insert_one_step [OF i] by (cases x) (simp_all add: HInstall HandleTable_install_def)
next
  case (HDuplicate h r)
  obtain x t1 ob1 where d: "HandleTable_duplicate t ob h r = (x, t1, ob1)" by (cases "HandleTable_duplicate t ob h r")
  show ?thesis using duplicate_one_step [of t ob h r] by (simp add: HDuplicate d)
next
  case (HReplace h r)
  show ?thesis using replace_one_step [of t h r] by (simp add: HReplace)
next
  case (HTake h)
  obtain x t1 where d: "HandleTable_take t h = (x, t1)" by (cases "HandleTable_take t h")
  have "one_step t t1" using take_as_step [of t h] unfolding d snd_conv one_step_def by blast
  then show ?thesis by (cases x) (simp_all add: HTake d)
next
  case (HTakeNarrowed h r)
  obtain x t1 where d: "HandleTable_take_narrowed t h r = (x, t1)" by (cases "HandleTable_take_narrowed t h r")
  have "one_step t t1" using take_narrowed_as_step [of t h r] unfolding d snd_conv one_step_def by blast
  then show ?thesis by (cases x) (simp_all add: HTakeNarrowed d)
next
  case (HClose h)
  obtain x t1 ob1 where d: "HandleTable_close t ob h = (x, t1, ob1)" by (cases "HandleTable_close t ob h")
  have "one_step t t1" using close_as_step [of t ob h] unfolding d snd_conv fst_conv one_step_def by blast
  then show ?thesis by (simp add: HClose d)
qed

lemma handle_run_table:
  "\<exists>ps. fst (foldl handle_step s ops) = foldl hdls.step (fst s) ps \<and> hdls.evictions ps \<le> length ops"
proof (induction ops arbitrary: s)
  case (Cons p ops)
  obtain t ob fl where s: "s = (t, ob, fl)" by (cases s)
  from Cons.IH [of "handle_step s p"] obtain ps where
    ps: "fst (foldl handle_step s (p # ops)) = foldl hdls.step (fst (handle_step s p)) ps"
      "hdls.evictions ps \<le> length ops" by auto
  consider "fst (handle_step s p) = t" | q where "fst (handle_step s p) = hdls.step t q"
    using handle_step_one [of t ob fl p] by (auto simp: one_step_def s)
  then show ?case
  proof cases
    case 1
    with ps s show ?thesis by (intro exI [of _ ps]) simp
  next
    case (2 q)
    have "hdls.evictions (q # ps) \<le> Suc (length ops)" using ps(2) by (cases q) simp_all
    with 2 ps(1) s show ?thesis by (intro exI [of _ "q # ps"]) simp
  qed
qed (auto intro: exI [of _ "[]"])

text \<open>C24: A handle given up is dead. Once a handle has been closed, or taken out of the table
  for a transfer, it resolves to \<open>BadHandle\<close> after every further sequence of fewer than 65535
  handle operations, even though its slot is reused: the 16-bit generation the slot moves on
  by keeps a stale handle from naming the slot's next tenant.\<close>
theorem closed_handle_stays_dead:
  assumes "HandleTable_wf t" "length ops < 65535"
    and "(\<exists>b t1 ob1. HandleTable_close t ob h = (Ok b, t1, ob1) \<and> s = (t1, ob1, fl)) \<or>
         (\<exists>c t1. HandleTable_take t h = (Ok c, t1) \<and> s = (t1, ob, add_mset c fl))"
  shows "HandleTable_lookup (fst (foldl handle_step s ops)) h = Err BadHandle"
proof -
  have "\<exists>e. HandleTable_find t h = Some e \<and> fst s = HandleTable_vacate t h"
    using assms(3)
    by (auto simp: HandleTable_close_def take_eq HandleTable_take_narrowed_def HandleTable_lookup_def entry_Ok
        split: res.splits prod.splits if_splits)
  then obtain e where e: "HandleTable_find t h = Some e" "fst s = HandleTable_vacate t h" by blast
  obtain ps where ps: "fst (foldl handle_step s ops) = foldl hdls.step (fst s) ps" "hdls.evictions ps \<le> length ops"
    using handle_run_table by blast
  have "HandleTable_find (foldl hdls.step (HandleTable_vacate t h) ps) h = None"
    by (rule hdls.evicted_stays_dead [OF assms(1) e(1)]) (use ps(2) assms(2) in simp)
  then show ?thesis
    by (simp add: ps(1) e(2) HandleTable_lookup_def HandleTable_entry_find)
qed

subsection \<open>A concrete run\<close>

definition sample_ops :: "HandleOp list" where
  "sample_ops = [HCreate Memory Rights_all_core, HDuplicate (Handle 0) Rights_READ, HTake (Handle 0)]"

definition sample_start :: cap_state where
  "sample_start = (HandleTable_new 2, ObjectTable_new 2, {#})"

lemma sample_start_ok: "cap_ok sample_start"
  by (simp add: sample_start_def HandleTable_new_wf ObjectTable_new_wf held_def)

text \<open>The state the sample run ends in: the duplicate is in the table, the first handle's
  reference is in flight.\<close>

definition sample_end :: cap_state where
  "sample_end =
     (\<lparr>ht_slots = [None, Some \<lparr>he_object = ObjectId 0, he_rights = Rights_READ, he_scope = None\<rparr>],
       ht_generations = [1, 0]\<rparr>,
      \<lparr>ot_slots = [Some \<lparr>oe_object_type = Memory, oe_refcount = 2\<rparr>, None], ot_generations = [0, 0]\<rparr>,
      {#(ObjectId 0, Rights_all_core)#})"

lemma sample_run: "foldl handle_step sample_start sample_ops = sample_end"
  unfolding sample_start_def sample_ops_def sample_end_def by code_simp

theorem references_conserved_witness:
  "ObjectTable_refcount (fst (snd sample_end)) (ObjectId 0) = Some 2"
  using references_conserved [of 2 2 sample_ops "fst sample_end" "fst (snd sample_end)" "snd (snd sample_end)" "ObjectId 0"]
    sample_run [unfolded sample_start_def]
  by (simp add: sample_end_def caps_def cap_def Let_def)

theorem authority_never_amplified_witness:
  "\<exists>r0. Rights_is_subset_of Rights_READ r0 \<and> (ObjectId 0, r0) \<in> set (minted sample_start sample_ops)"
proof -
  have "(ObjectId 0, Rights_READ) \<in># caps (fst sample_end) + snd (snd sample_end)"
    by (simp add: sample_end_def caps_def cap_def)
  then show ?thesis
    using authority_never_amplified [of "fst sample_start" "fst (snd sample_start)" "snd (snd sample_start)"
        sample_ops "fst sample_end" "fst (snd sample_end)" "snd (snd sample_end)" "ObjectId 0" Rights_READ]
      sample_start_ok sample_run
    by (simp add: sample_start_def)
qed

text \<open>After the sample run the slot of the taken handle is free and is filled again, and the
  old handle still names nothing.\<close>

theorem closed_handle_stays_dead_witness:
  "HandleTable_lookup (fst (foldl handle_step sample_end [HInstall (ObjectId 0) Rights_all_core])) (Handle 0) = Err BadHandle"
proof -
  define mid where "mid = foldl handle_step sample_start (take 2 sample_ops)"
  have t: "HandleTable_take (fst mid) (Handle 0) = (Ok (ObjectId 0, Rights_all_core), fst sample_end)"
    unfolding mid_def sample_start_def sample_ops_def sample_end_def by code_simp
  have m: "fst (snd mid) = fst (snd sample_end)" "snd (snd mid) = {#}"
    unfolding mid_def sample_start_def sample_ops_def sample_end_def by code_simp+
  have wf: "HandleTable_wf (fst mid)"
    using handle_run_ok [OF sample_start_ok, of "take 2 sample_ops"] unfolding mid_def [symmetric]
    by (cases mid) simp
  have "sample_end = (fst sample_end, fst (snd mid), add_mset (ObjectId 0, Rights_all_core) {#})"
    by (simp add: m(1)) (simp add: sample_end_def)
  with t closed_handle_stays_dead [OF wf, of "[HInstall (ObjectId 0) Rights_all_core]" "fst (snd mid)" "Handle 0" sample_end "{#}"]
  show ?thesis by simp
qed

end
