(* ===== verification/Queues.thy ===== *)
theory Queues
  imports Prelude
begin

text \<open>
  The contract of the kernel's bounded queues: a representation with an abstraction
  to the list of queued elements, a push that appends or refuses when the queue is
  full, and a pop that removes the front. The client lemma is the one every user of a
  queue relies on: over any interleaving of pushes and pops, what comes out, followed
  by what is still queued, is what was accepted, in order, once each.
\<close>

datatype 'a queue_op = Push 'a | Pop

locale bounded_fifo =
  fixes content :: "'q \<Rightarrow> 'a list"
    and inv :: "'q \<Rightarrow> bool"
    and capacity :: "'q \<Rightarrow> nat"
    and push :: "'q \<Rightarrow> 'a \<Rightarrow> bool \<times> 'q"
    and pop :: "'q \<Rightarrow> 'a option \<times> 'q"
  assumes push_room: "inv q \<Longrightarrow> length (content q) < capacity q \<Longrightarrow> push q x = (r, q') \<Longrightarrow>
            r \<and> inv q' \<and> capacity q' = capacity q \<and> content q' = content q @ [x]"
    and push_full: "inv q \<Longrightarrow> capacity q \<le> length (content q) \<Longrightarrow> push q x = (r, q') \<Longrightarrow> \<not> r \<and> q' = q"
    and pop_empty: "inv q \<Longrightarrow> content q = [] \<Longrightarrow> pop q = (None, q)"
    and pop_front: "inv q \<Longrightarrow> content q = x # xs \<Longrightarrow> pop q = (y, q') \<Longrightarrow>
            y = Some x \<and> inv q' \<and> capacity q' = capacity q \<and> content q' = xs"
    and bounded: "inv q \<Longrightarrow> length (content q) \<le> capacity q"
begin

text \<open>A run records the accepted elements, the delivered ones, and the final queue.\<close>

fun run :: "'q \<Rightarrow> 'a queue_op list \<Rightarrow> 'a list \<times> 'a list \<times> 'q" where
  "run q [] = ([], [], q)"
| "run q (Push x # ops) =
     (let (ok, q1) = push q x; (ins, outs, q2) = run q1 ops in (if ok then x # ins else ins, outs, q2))"
| "run q (Pop # ops) =
     (let (r, q1) = pop q; (ins, outs, q2) = run q1 ops in
      (ins, case r of None \<Rightarrow> outs | Some x \<Rightarrow> x # outs, q2))"

lemma run_fifo:
  assumes "inv q" "run q ops = (ins, outs, q')"
  shows "inv q' \<and> capacity q' = capacity q \<and> content q @ ins = outs @ content q'"
  using assms
proof (induction ops arbitrary: q ins outs q')
  case (Cons p ops)
  show ?case
  proof (cases p)
    case (Push x)
    obtain ok q1 where p: "push q x = (ok, q1)" by (cases "push q x")
    obtain ins1 outs1 q2 where r: "run q1 ops = (ins1, outs1, q2)" by (cases "run q1 ops")
    have "if length (content q) < capacity q
          then ok \<and> inv q1 \<and> capacity q1 = capacity q \<and> content q1 = content q @ [x] else \<not> ok \<and> q1 = q"
      using push_room [OF Cons.prems(1) _ p] push_full [OF Cons.prems(1) _ p] by (simp add: not_less)
    then show ?thesis
      using Cons.IH [OF _ r] Cons.prems Push p r by (auto split: if_splits)
  next
    case Pop
    obtain y q1 where p: "pop q = (y, q1)" by (cases "pop q")
    obtain ins1 outs1 q2 where r: "run q1 ops = (ins1, outs1, q2)" by (cases "run q1 ops")
    show ?thesis
    proof (cases "content q")
      case Nil
      with pop_empty [OF Cons.prems(1)] p have "y = None" "q1 = q" by auto
      with Cons.IH [OF _ r] Cons.prems Pop p r show ?thesis by auto
    next
      case content: (Cons x xs)
      with pop_front [OF Cons.prems(1) _ p]
      have "y = Some x" "inv q1" "capacity q1 = capacity q" "content q1 = xs" by auto
      with Cons.IH [OF _ r] Cons.prems Pop p r content show ?thesis by auto
    qed
  qed
qed simp

lemma run_bounded:
  assumes "inv q" "run q ops = (ins, outs, q')"
  shows "length (content q') \<le> capacity q"
  using run_fifo [OF assms] bounded by metis

end

end
