(* ===== verification/Channels.thy ===== *)
theory Channels
  imports Handles Queues
begin

text \<open>
  Channels, \<^verbatim>\<open>kcore/src/ipc.rs\<close>: the message header and its wire envelope, messages
  with a bounded inline payload and a bounded handle vector, endpoints holding a
  ring-buffer receive queue, and the channel pool with its object bridge. Array
  capacities are the lengths of the modelled lists (\<^verbatim>\<open>MAX_INLINE_BYTES\<close>,
  \<^verbatim>\<open>MAX_MSG_HANDLES\<close>, \<^verbatim>\<open>QUEUE_CAP\<close>, \<^verbatim>\<open>MAX_CHANNELS\<close> are arguments of the constructors).
  The boot epoch \<^verbatim>\<open>trace::epoch()\<close> is an argument of \<open>MessageHeader_to_wire\<close>, and the wire
  header's size constant, declared by generated code, is an argument too.
\<close>

record MessageHeader =
  mh_interface_id :: "64 word"
  mh_method_id :: "32 word"
  mh_flags :: "32 word"
  mh_txn_id :: "64 word"
  mh_correlation :: "64 word"

record WireMessageHeader =
  wh_size :: "32 word"
  wh_version :: "32 word"
  wh_flags :: "64 word"
  wh_interface_id :: "64 word"
  wh_txn_id :: "64 word"
  wh_method_id :: "32 word"
  wh_correlation_lo :: "64 word"
  wh_correlation_hi :: "64 word"

definition MESSAGE_HEADER_WIRE_VERSION :: "32 word" where
  "MESSAGE_HEADER_WIRE_VERSION = 2"

definition MessageHeader_new :: "64 word \<Rightarrow> 32 word \<Rightarrow> MessageHeader" where
  "MessageHeader_new interface_id method_id =
     \<lparr> mh_interface_id = interface_id, mh_method_id = method_id, mh_flags = 0,
       mh_txn_id = 0, mh_correlation = 0 \<rparr>"

definition MessageHeader_to_wire :: "32 word \<Rightarrow> 64 word \<Rightarrow> MessageHeader \<Rightarrow> WireMessageHeader" where
  "MessageHeader_to_wire wire_size epoch h =
     \<lparr> wh_size = wire_size, wh_version = MESSAGE_HEADER_WIRE_VERSION,
       wh_flags = ucast (mh_flags h), wh_interface_id = mh_interface_id h,
       wh_txn_id = mh_txn_id h, wh_method_id = mh_method_id h,
       wh_correlation_lo = mh_correlation h, wh_correlation_hi = epoch \<rparr>"

definition MessageHeader_from_wire :: "WireMessageHeader \<Rightarrow> MessageHeader res" where
  "MessageHeader_from_wire w =
     (if unat (wh_flags w) < 2 ^ 32
      then Ok \<lparr> mh_interface_id = wh_interface_id w, mh_method_id = wh_method_id w,
                mh_flags = ucast (wh_flags w), mh_txn_id = wh_txn_id w,
                mh_correlation = wh_correlation_lo w \<rparr>
      else Err Protocol)"

record TransferredHandle =
  th_object :: ObjectId
  th_rights :: Rights
  th_shared :: bool

record Message =
  msg_header :: MessageHeader
  msg_inline :: "8 word list"
  msg_inline_len :: nat
  msg_handles :: "TransferredHandle option list"
  msg_handle_count :: nat

definition Message_new :: "nat \<Rightarrow> nat \<Rightarrow> MessageHeader \<Rightarrow> Message" where
  "Message_new max_inline_bytes max_msg_handles header =
     \<lparr> msg_header = header, msg_inline = replicate max_inline_bytes 0, msg_inline_len = 0,
       msg_handles = replicate max_msg_handles None, msg_handle_count = 0 \<rparr>"

definition Message_set_txn :: "Message \<Rightarrow> 64 word \<Rightarrow> Message" where
  "Message_set_txn m txn_id = m\<lparr>msg_header := (msg_header m)\<lparr>mh_txn_id := txn_id\<rparr>\<rparr>"

definition Message_set_correlation :: "Message \<Rightarrow> 64 word \<Rightarrow> Message" where
  "Message_set_correlation m c = m\<lparr>msg_header := (msg_header m)\<lparr>mh_correlation := c\<rparr>\<rparr>"

definition Message_set_inline :: "Message \<Rightarrow> 8 word list \<Rightarrow> unit res \<times> Message" where
  "Message_set_inline m bytes =
     (if length bytes > length (msg_inline m) then (Err Protocol, m)
      else (Ok (), m\<lparr>msg_inline := bytes @ drop (length bytes) (msg_inline m),
                     msg_inline_len := length bytes\<rparr>))"

definition Message_inline :: "Message \<Rightarrow> 8 word list" where
  "Message_inline m = take (msg_inline_len m) (msg_inline m)"

definition Message_add_handle :: "Message \<Rightarrow> TransferredHandle \<Rightarrow> unit res \<times> Message" where
  "Message_add_handle m h =
     (if msg_handle_count m \<ge> length (msg_handles m) then (Err Protocol, m)
      else (Ok (), m\<lparr>msg_handles := (msg_handles m)[msg_handle_count m := Some h],
                     msg_handle_count := msg_handle_count m + 1\<rparr>))"

definition Message_handles :: "Message \<Rightarrow> TransferredHandle list" where
  "Message_handles m = flatten (msg_handles m)"

definition Message_wf :: "Message \<Rightarrow> bool" where
  "Message_wf m \<longleftrightarrow>
     msg_inline_len m \<le> length (msg_inline m) \<and> msg_handle_count m \<le> length (msg_handles m) \<and>
     (\<forall>i < length (msg_handles m). msg_handles m ! i = None \<longleftrightarrow> msg_handle_count m \<le> i)"

record Endpoint =
  ep_queue :: "Message option list"
  ep_head :: nat
  ep_len :: nat
  ep_peer_closed :: bool
  ep_blocked_receiver :: "ThreadId option"
  ep_pending_caller :: "(ThreadId \<times> 64 word) option"
  ep_abandoned :: "32 word"

definition Endpoint_new :: "nat \<Rightarrow> Endpoint" where
  "Endpoint_new queue_cap =
     \<lparr> ep_queue = replicate queue_cap None, ep_head = 0, ep_len = 0, ep_peer_closed = False,
       ep_blocked_receiver = None, ep_pending_caller = None, ep_abandoned = 0 \<rparr>"

definition Endpoint_enqueue :: "Endpoint \<Rightarrow> Message \<Rightarrow> unit res \<times> Endpoint" where
  "Endpoint_enqueue e message =
     (if ep_len e \<ge> length (ep_queue e) then (Err WouldBlock, e)
      else let tail = (ep_head e + ep_len e) mod length (ep_queue e) in
           (Ok (), e\<lparr>ep_queue := (ep_queue e)[tail := Some message], ep_len := ep_len e + 1\<rparr>))"

fun close_gap :: "nat \<Rightarrow> nat \<Rightarrow> nat \<Rightarrow> 'a option list \<Rightarrow> 'a option list" where
  "close_gap 0 head i q = q"
| "close_gap (Suc n) head i q =
     (let from = (head + i + 1) mod length q;
          to = (head + i) mod length q;
          moved = q ! from;
          q1 = q[from := None]
      in close_gap n head (i + 1) (q1[to := moved]))"

definition Endpoint_take_reply :: "Endpoint \<Rightarrow> 64 word \<Rightarrow> Message option \<times> Endpoint" where
  "Endpoint_take_reply e txn =
     (case position (\<lambda>i. case ep_queue e ! ((ep_head e + i) mod length (ep_queue e)) of
                           Some m \<Rightarrow> mh_txn_id (msg_header m) = txn | None \<Rightarrow> False)
                    [0..<ep_len e] of
        None \<Rightarrow> (None, e)
      | Some at \<Rightarrow>
          let slot = (ep_head e + at) mod length (ep_queue e);
              message = ep_queue e ! slot
          in (message,
              e\<lparr>ep_queue := close_gap (ep_len e - 1 - at) (ep_head e) at ((ep_queue e)[slot := None]),
                ep_len := ep_len e - 1\<rparr>))"

definition Endpoint_dequeue :: "Endpoint \<Rightarrow> Message option \<times> Endpoint" where
  "Endpoint_dequeue e =
     (if ep_len e = 0 then (None, e)
      else (ep_queue e ! ep_head e,
            e\<lparr>ep_queue := (ep_queue e)[ep_head e := None],
              ep_head := (ep_head e + 1) mod length (ep_queue e),
              ep_len := ep_len e - 1\<rparr>))"

definition Endpoint_is_empty :: "Endpoint \<Rightarrow> bool" where
  "Endpoint_is_empty e \<longleftrightarrow> ep_len e = 0"

definition Endpoint_mark_peer_closed :: "Endpoint \<Rightarrow> Endpoint" where
  "Endpoint_mark_peer_closed e = e\<lparr>ep_peer_closed := True\<rparr>"

definition Endpoint_set_blocked_receiver :: "Endpoint \<Rightarrow> ThreadId option \<Rightarrow> Endpoint" where
  "Endpoint_set_blocked_receiver e thread = e\<lparr>ep_blocked_receiver := thread\<rparr>"

definition Endpoint_abort_call :: "Endpoint \<Rightarrow> Endpoint" where
  "Endpoint_abort_call e =
     e\<lparr>ep_abandoned := (if ep_abandoned e = -1 then -1 else ep_abandoned e + 1),
       ep_pending_caller := None\<rparr>"

definition Endpoint_take_abandoned :: "Endpoint \<Rightarrow> bool \<times> Endpoint" where
  "Endpoint_take_abandoned e =
     (if ep_abandoned e = 0 then (False, e) else (True, e\<lparr>ep_abandoned := ep_abandoned e - 1\<rparr>))"

definition Endpoint_set_pending_caller :: "Endpoint \<Rightarrow> (ThreadId \<times> 64 word) option \<Rightarrow> Endpoint" where
  "Endpoint_set_pending_caller e caller = e\<lparr>ep_pending_caller := caller\<rparr>"

record Channel =
  ch_ends :: "Endpoint list"
  ch_objects :: "ObjectId option list"

definition Channel_new :: "nat \<Rightarrow> Channel" where
  "Channel_new queue_cap =
     \<lparr> ch_ends = [Endpoint_new queue_cap, Endpoint_new queue_cap], ch_objects = [None, None] \<rparr>"

definition Channel_endpoint :: "Channel \<Rightarrow> nat \<Rightarrow> Endpoint" where
  "Channel_endpoint c side = ch_ends c ! side"

definition Channel_set_endpoint :: "Channel \<Rightarrow> nat \<Rightarrow> Endpoint \<Rightarrow> Channel" where
  "Channel_set_endpoint c side e = c\<lparr>ch_ends := (ch_ends c)[side := e]\<rparr>"

definition Channel_set_object :: "Channel \<Rightarrow> nat \<Rightarrow> ObjectId \<Rightarrow> Channel" where
  "Channel_set_object c side oid = c\<lparr>ch_objects := (ch_objects c)[side := Some oid]\<rparr>"

definition Channel_object :: "Channel \<Rightarrow> nat \<Rightarrow> ObjectId option" where
  "Channel_object c side = ch_objects c ! side"

definition Channel_peer :: "nat \<Rightarrow> nat" where
  "Channel_peer side = 1 - side"

definition Channel_close_side :: "Channel \<Rightarrow> nat \<Rightarrow> Channel" where
  "Channel_close_side c side =
     Channel_set_endpoint c (Channel_peer side) (Endpoint_mark_peer_closed (Channel_endpoint c (Channel_peer side)))"

record EndpointId =
  ei_channel :: nat
  ei_side :: nat

definition CHANNEL_OBJECT_ID_BASE :: "32 word" where
  "CHANNEL_OBJECT_ID_BASE = 0x2000"

record ChannelTable =
  ct_channels :: "Channel option list"
  ct_next_id :: "32 word"

definition ChannelTable_new :: "nat \<Rightarrow> ChannelTable" where
  "ChannelTable_new max_channels =
     \<lparr> ct_channels = replicate max_channels None, ct_next_id = CHANNEL_OBJECT_ID_BASE \<rparr>"

definition ChannelTable_create :: "nat \<Rightarrow> ChannelTable \<Rightarrow> (EndpointId \<times> EndpointId) res \<times> ChannelTable" where
  "ChannelTable_create queue_cap t =
     (case free_slot (ct_channels t) of
        None \<Rightarrow> (Err OutOfMemory, t)
      | Some index \<Rightarrow>
          (Ok (\<lparr>ei_channel = index, ei_side = 0\<rparr>, \<lparr>ei_channel = index, ei_side = 1\<rparr>),
           t\<lparr>ct_channels := (ct_channels t)[index := Some (Channel_new queue_cap)]\<rparr>))"

definition ChannelTable_channel :: "ChannelTable \<Rightarrow> nat \<Rightarrow> Channel option" where
  "ChannelTable_channel t index = Option.bind (get_opt (ct_channels t) index) (\<lambda>c. c)"

definition ChannelTable_set_endpoint_object :: "ChannelTable \<Rightarrow> EndpointId \<Rightarrow> ObjectId \<Rightarrow> ChannelTable" where
  "ChannelTable_set_endpoint_object t ep oid =
     (case ChannelTable_channel t (ei_channel ep) of
        None \<Rightarrow> t
      | Some c \<Rightarrow> t\<lparr>ct_channels := (ct_channels t)[ei_channel ep := Some (Channel_set_object c (ei_side ep) oid)]\<rparr>)"

definition ChannelTable_create_with_objects ::
    "nat \<Rightarrow> ChannelTable \<Rightarrow> (EndpointId \<times> EndpointId) res \<times> ChannelTable" where
  "ChannelTable_create_with_objects queue_cap t =
     (case ChannelTable_create queue_cap t of
        (Err e, t') \<Rightarrow> (Err e, t')
      | (Ok (end0, end1), t') \<Rightarrow>
          let id0 = ObjectId (ct_next_id t');
              id1 = ObjectId (ct_next_id t' + 1);
              t1 = t'\<lparr>ct_next_id := ct_next_id t' + 2\<rparr>
          in (Ok (end0, end1),
              ChannelTable_set_endpoint_object (ChannelTable_set_endpoint_object t1 end0 id0) end1 id1))"

definition ChannelTable_endpoint_object :: "ChannelTable \<Rightarrow> EndpointId \<Rightarrow> ObjectId option" where
  "ChannelTable_endpoint_object t ep =
     Option.bind (ChannelTable_channel t (ei_channel ep)) (\<lambda>c. Channel_object c (ei_side ep))"

fun endpoint_of_object_loop :: "nat \<Rightarrow> Channel option list \<Rightarrow> ObjectId \<Rightarrow> EndpointId option" where
  "endpoint_of_object_loop channel [] oid = None"
| "endpoint_of_object_loop channel (slot # slots) oid =
     (case slot of
        None \<Rightarrow> endpoint_of_object_loop (channel + 1) slots oid
      | Some chan \<Rightarrow>
          if Channel_object chan 0 = Some oid then Some \<lparr>ei_channel = channel, ei_side = 0\<rparr>
          else if Channel_object chan 1 = Some oid then Some \<lparr>ei_channel = channel, ei_side = 1\<rparr>
          else endpoint_of_object_loop (channel + 1) slots oid)"

definition ChannelTable_endpoint_of_object :: "ChannelTable \<Rightarrow> ObjectId \<Rightarrow> EndpointId option" where
  "ChannelTable_endpoint_of_object t oid = endpoint_of_object_loop 0 (ct_channels t) oid"

subsection \<open>Endpoint queues implement bounded FIFO queues\<close>

definition Endpoint_wf :: "Endpoint \<Rightarrow> bool" where
  "Endpoint_wf e \<longleftrightarrow>
     0 < length (ep_queue e) \<and> ep_head e < length (ep_queue e) \<and> ep_len e \<le> length (ep_queue e) \<and>
     (\<forall>i < length (ep_queue e).
        ring_slice (ep_queue e) (ep_head e) (length (ep_queue e)) ! i = None \<longleftrightarrow> ep_len e \<le> i)"

definition Endpoint_messages :: "Endpoint \<Rightarrow> Message list" where
  "Endpoint_messages e = map the (ring_slice (ep_queue e) (ep_head e) (ep_len e))"

lemma length_Endpoint_messages [simp]: "length (Endpoint_messages e) = ep_len e"
  by (simp add: Endpoint_messages_def)

text \<open>The live window of a well-formed ring holds messages, and the rest is empty.\<close>

lemma Endpoint_window:
  assumes "Endpoint_wf e" "i < length (ep_queue e)"
  shows "ep_queue e ! ((ep_head e + i) mod length (ep_queue e))
       = (if i < ep_len e then Some (Endpoint_messages e ! i) else None)"
  using assms by (auto simp: Endpoint_wf_def Endpoint_messages_def ring_slice_nth not_less)

lemma Endpoint_wfI:
  assumes "0 < length q" "h < length q" "length ms \<le> length q"
    and "ring_slice q h (length q) = map Some ms @ replicate (length q - length ms) None"
    and "ep_queue e = q" "ep_head e = h" "ep_len e = length ms"
  shows "Endpoint_wf e \<and> Endpoint_messages e = ms"
proof
  show "Endpoint_wf e"
    using assms by (auto simp: Endpoint_wf_def nth_append)
  have "ring_slice q h (length ms) = map Some ms"
    using take_ring_slice [OF assms(3), of q h] assms(4) by simp
  then show "Endpoint_messages e = ms"
    using assms by (simp add: Endpoint_messages_def o_def)
qed

lemma Endpoint_ring:
  assumes "Endpoint_wf e"
  shows "ring_slice (ep_queue e) (ep_head e) (length (ep_queue e))
       = map Some (Endpoint_messages e) @ replicate (length (ep_queue e) - ep_len e) None"
  using assms
  by (intro nth_equalityI) (auto simp: ring_slice_nth Endpoint_window nth_append, auto simp: Endpoint_wf_def)

lemma enqueue_refines:
  assumes "Endpoint_wf e" "Endpoint_enqueue e m = (r, e')"
  shows "if ep_len e < length (ep_queue e)
         then r = Ok () \<and> Endpoint_wf e' \<and> Endpoint_messages e' = Endpoint_messages e @ [m]
         else r = Err WouldBlock \<and> e' = e"
proof (cases "ep_len e < length (ep_queue e)")
  case True
  let ?q = "ep_queue e" and ?h = "ep_head e" and ?n = "ep_len e"
  have "ring_slice (?q[(?h + ?n) mod length ?q := Some m]) ?h (length ?q)
      = (map Some (Endpoint_messages e) @ replicate (length ?q - ?n) None)[?n := Some m]"
    using True by (simp add: ring_slice_update Endpoint_ring [OF assms(1)])
  also have "\<dots> = map Some (Endpoint_messages e @ [m]) @ replicate (length ?q - Suc ?n) None"
    using True by (simp add: list_update_append Suc_diff_Suc [symmetric])
  finally have "Endpoint_wf e' \<and> Endpoint_messages e' = Endpoint_messages e @ [m]"
    using True assms
    by (intro Endpoint_wfI) (auto simp: Endpoint_enqueue_def Endpoint_wf_def Let_def)
  with True assms show ?thesis by (simp add: Endpoint_enqueue_def Let_def)
qed (use assms in \<open>simp add: Endpoint_enqueue_def\<close>)

lemma dequeue_refines:
  assumes "Endpoint_wf e" "Endpoint_dequeue e = (r, e')"
  shows "case Endpoint_messages e of
           [] \<Rightarrow> r = None \<and> e' = e
         | m # ms \<Rightarrow> r = Some m \<and> Endpoint_wf e' \<and> Endpoint_messages e' = ms"
proof (cases "Endpoint_messages e")
  case Nil
  then have "ep_len e = 0" by (metis length_Endpoint_messages list.size(3))
  with Nil assms show ?thesis by (simp add: Endpoint_dequeue_def)
next
  case (Cons m ms)
  let ?q = "ep_queue e" and ?h = "ep_head e" and ?n = "ep_len e"
  have n: "?n = Suc (length ms)" using Cons by (metis length_Cons length_Endpoint_messages)
  have wf: "0 < length ?q" "?h < length ?q" "?n \<le> length ?q" using assms(1) by (auto simp: Endpoint_wf_def)
  have front: "?q ! ?h = Some m"
    using Endpoint_window [OF assms(1), of 0] wf n Cons by simp
  have "ring_slice (?q[?h := None]) ?h (length ?q) = (ring_slice ?q ?h (length ?q))[0 := None]"
    using ring_slice_update [of 0 ?q "length ?q" ?h None] wf by simp
  also have "\<dots> = None # map Some ms @ replicate (length ?q - ?n) None"
    by (simp add: Endpoint_ring [OF assms(1)] Cons)
  finally have "ring_slice (?q[?h := None]) ((?h + 1) mod length ?q) (length ?q)
      = map Some ms @ replicate (length ?q - length ms) None"
    using ring_slice_rotate [of "?q[?h := None]" ?h] wf n
    by (simp add: replicate_append_same Suc_diff_Suc [symmetric] flip: replicate_Suc)
  with wf n assms have "Endpoint_wf e' \<and> Endpoint_messages e' = ms"
    by (intro Endpoint_wfI) (auto simp: Endpoint_dequeue_def)
  with front Cons n assms show ?thesis by (auto simp: Endpoint_dequeue_def)
qed

lemma close_gap_list:
  assumes "ring_slice q h (length q) = A @ None # map Some B @ replicate k None" "q \<noteq> []"
  shows "ring_slice (close_gap (length B) h (length A) q) h (length q) = A @ map Some B @ replicate (Suc k) None
       \<and> length (close_gap (length B) h (length A) q) = length q"
  using assms
proof (induction B arbitrary: A q)
  case (Cons b B)
  note r = Cons.prems(1)
  have l: "length q = length A + Suc (Suc (length B + k))"
    using arg_cong [OF r, of length] by simp
  let ?i = "length A"
  have "ring_slice q h (length q) ! Suc ?i = Some b"
    using r by (simp add: nth_append)
  then have from_b: "q ! ((h + Suc ?i) mod length q) = Some b"
    using l by (simp add: ring_slice_nth)
  let ?q1 = "q[(h + Suc ?i) mod length q := None]"
  let ?q2 = "?q1[(h + ?i) mod length ?q1 := Some b]"
  have "ring_slice ?q1 h (length q) = (ring_slice q h (length q))[Suc ?i := None]"
    using l by (intro ring_slice_update) auto
  moreover have "ring_slice ?q2 h (length q) = (ring_slice ?q1 h (length q))[?i := Some b]"
    using l ring_slice_update [of ?i ?q1 "length q" h "Some b"] by simp
  ultimately have "ring_slice ?q2 h (length ?q2) = (A @ [Some b]) @ None # map Some B @ replicate k None"
    by (simp add: r list_update_append)
  moreover have "close_gap (length (b # B)) h ?i q = close_gap (length B) h (length (A @ [Some b])) ?q2"
    using from_b by (simp add: Let_def)
  moreover have "length ?q2 = length q" "?q2 \<noteq> []" using Cons.prems(2) by simp_all
  ultimately show ?case using Cons.IH [of ?q2 "A @ [Some b]"] by simp
qed simp

lemma take_reply_refines:
  assumes "Endpoint_wf e" "Endpoint_take_reply e txn = (r, e')"
  shows "case position (\<lambda>m. mh_txn_id (msg_header m) = txn) (Endpoint_messages e) of
           None \<Rightarrow> r = None \<and> e' = e
         | Some i \<Rightarrow> r = Some (Endpoint_messages e ! i) \<and> Endpoint_wf e' \<and>
             Endpoint_messages e' = take i (Endpoint_messages e) @ drop (Suc i) (Endpoint_messages e)"
proof -
  let ?q = "ep_queue e" and ?h = "ep_head e" and ?n = "ep_len e" and ?ms = "Endpoint_messages e"
  have wf: "0 < length ?q" "?h < length ?q" "?n \<le> length ?q" using assms(1) by (auto simp: Endpoint_wf_def)
  have pos: "position (\<lambda>i. case ?q ! ((?h + i) mod length ?q) of
                  Some m \<Rightarrow> mh_txn_id (msg_header m) = txn | None \<Rightarrow> False) [0..<?n]
      = position (\<lambda>m. mh_txn_id (msg_header m) = txn) ?ms" (is "?P = _")
  proof -
    have "?P = position ((\<lambda>m. mh_txn_id (msg_header m) = txn) \<circ> (!) ?ms) [0..<?n]"
      using wf by (intro position_cong) (auto simp: Endpoint_window [OF assms(1)])
    also have "\<dots> = position (\<lambda>m. mh_txn_id (msg_header m) = txn) (map ((!) ?ms) [0..<?n])"
      by (simp only: position_map)
    also have "map ((!) ?ms) [0..<?n] = ?ms"
      using map_nth [of ?ms] by simp
    finally show ?thesis .
  qed
  show ?thesis
  proof (cases "position (\<lambda>m. mh_txn_id (msg_header m) = txn) ?ms")
    case None
    with pos assms(2) show ?thesis by (simp add: Endpoint_take_reply_def)
  next
    case (Some i)
    have i: "i < ?n" using position_SomeD(1) [OF Some] by simp
    let ?q1 = "?q[(?h + i) mod length ?q := None]"
    have e': "r = ?q ! ((?h + i) mod length ?q)"
        "e' = e\<lparr>ep_queue := close_gap (?n - 1 - i) ?h i ?q1, ep_len := ?n - 1\<rparr>"
      using assms(2) pos Some by (auto simp: Endpoint_take_reply_def Let_def)
    have "ring_slice ?q1 ?h (length ?q) = (ring_slice ?q ?h (length ?q))[i := None]"
      using i wf by (intro ring_slice_update) auto
    also have "\<dots> = map Some (take i ?ms) @ None # map Some (drop (Suc i) ?ms) @ replicate (length ?q - ?n) None"
      using i by (simp add: Endpoint_ring [OF assms(1)] list_update_append upd_conv_take_nth_drop take_map drop_map)
    finally have "ring_slice (close_gap (?n - 1 - i) ?h i ?q1) ?h (length ?q)
        = map Some (take i ?ms) @ map Some (drop (Suc i) ?ms) @ replicate (Suc (length ?q - ?n)) None
        \<and> length (close_gap (?n - 1 - i) ?h i ?q1) = length ?q"
      using close_gap_list [of ?q1 ?h "map Some (take i ?ms)" "drop (Suc i) ?ms" "length ?q - ?n"] i wf by force
    then have "Endpoint_wf e' \<and> Endpoint_messages e' = take i ?ms @ drop (Suc i) ?ms"
      using wf i by (intro Endpoint_wfI) (auto simp: e' Suc_diff_Suc simp del: replicate_Suc)
    with Some i wf e'(1) show ?thesis by (simp add: Endpoint_window [OF assms(1)])
  qed
qed

definition Endpoint_push :: "Endpoint \<Rightarrow> Message \<Rightarrow> bool \<times> Endpoint" where
  "Endpoint_push e m = (case Endpoint_enqueue e m of (r, e') \<Rightarrow> (is_ok r, e'))"

lemma Endpoint_ops_capacity:
  "Endpoint_enqueue e m = (r, e') \<Longrightarrow> length (ep_queue e') = length (ep_queue e)"
  "Endpoint_dequeue e = (r', e'') \<Longrightarrow> length (ep_queue e'') = length (ep_queue e)"
  by (auto simp: Endpoint_enqueue_def Endpoint_dequeue_def Let_def split: if_splits)

interpretation epq: bounded_fifo
  Endpoint_messages Endpoint_wf "\<lambda>e. length (ep_queue e)" Endpoint_push Endpoint_dequeue
proof (unfold_locales, goal_cases)
  case (1 e m r e')
  then show ?case
    using enqueue_refines [of e m "fst (Endpoint_enqueue e m)" e'] Endpoint_ops_capacity(1) [of e m _ e']
    by (auto simp: Endpoint_push_def split: prod.splits)
next
  case (2 e m r e')
  then show ?case
    using enqueue_refines [of e m "fst (Endpoint_enqueue e m)" e']
    by (auto simp: Endpoint_push_def split: prod.splits)
next
  case (3 e)
  then show ?case
    using dequeue_refines [of e "fst (Endpoint_dequeue e)" "snd (Endpoint_dequeue e)"]
    by (auto simp: prod_eq_iff)
next
  case (4 e m ms r e')
  then show ?case
    using dequeue_refines [of e r e'] Endpoint_ops_capacity(2) [of e r e'] by auto
next
  case (5 e)
  then show ?case by (simp add: Endpoint_wf_def)
qed

lemma Endpoint_new_wf: "0 < n \<Longrightarrow> Endpoint_wf (Endpoint_new n) \<and> Endpoint_messages (Endpoint_new n) = []"
  by (rule Endpoint_wfI [of "replicate n None" 0 "[]"])
    (auto simp: Endpoint_new_def ring_slice_def intro!: nth_equalityI)

subsection \<open>Messages and headers\<close>

lemma Message_new_wf: "Message_wf (Message_new a b h)"
  by (simp add: Message_wf_def Message_new_def)

lemma flatten_prefix:
  "(\<forall>i < length xs. xs ! i = None \<longleftrightarrow> n \<le> i) \<Longrightarrow> n \<le> length xs \<Longrightarrow> flatten xs = map (\<lambda>i. the (xs ! i)) [0..<n]"
proof (induction xs arbitrary: n)
  case (Cons x xs)
  show ?case
  proof (cases n)
    case 0
    with Cons.prems have "x = None" "\<forall>i < length xs. xs ! i = None \<longleftrightarrow> 0 \<le> i" by (auto simp: All_less_Suc2)
    with Cons.IH [of 0] 0 show ?thesis by simp
  next
    case (Suc k)
    with Cons.prems have x: "x \<noteq> None" and "\<forall>i < length xs. xs ! i = None \<longleftrightarrow> k \<le> i" by (auto simp: All_less_Suc2)
    with Cons.IH [of k] Cons.prems Suc have "flatten xs = map (\<lambda>i. the (xs ! i)) [0..<k]" by simp
    with x Suc show ?thesis by (auto simp: map_upt_Suc simp del: upt_Suc)
  qed
qed simp

lemma add_handle_spec:
  assumes "Message_wf m" "Message_add_handle m h = (r, m')"
  shows "if msg_handle_count m < length (msg_handles m)
         then r = Ok () \<and> Message_wf m' \<and> Message_handles m' = Message_handles m @ [h]
         else r = Err Protocol \<and> m' = m"
proof (cases "msg_handle_count m < length (msg_handles m)")
  case True
  let ?n = "msg_handle_count m" and ?hs = "msg_handles m"
  have m': "r = Ok ()" "m' = m\<lparr>msg_handles := ?hs[?n := Some h], msg_handle_count := ?n + 1\<rparr>"
    using assms(2) True by (auto simp: Message_add_handle_def)
  have wf': "\<forall>i < length (?hs[?n := Some h]). ?hs[?n := Some h] ! i = None \<longleftrightarrow> Suc ?n \<le> i"
    using assms(1) True by (auto simp: Message_wf_def nth_list_update)
  have "flatten (?hs[?n := Some h]) = map (\<lambda>i. the (?hs[?n := Some h] ! i)) [0..<Suc ?n]"
    using wf' True by (intro flatten_prefix) auto
  also have "\<dots> = flatten ?hs @ [h]"
    using assms(1) True flatten_prefix [of ?hs ?n] by (auto simp: Message_wf_def)
  finally show ?thesis
    using True wf' assms(1) by (simp add: m' Message_wf_def Message_handles_def)
qed (use assms in \<open>simp add: Message_add_handle_def\<close>)

lemma set_inline_spec:
  assumes "Message_wf m" "Message_set_inline m bytes = (r, m')"
  shows "if length bytes \<le> length (msg_inline m)
         then r = Ok () \<and> Message_wf m' \<and> Message_inline m' = bytes
         else r = Err Protocol \<and> m' = m"
  using assms by (auto simp: Message_set_inline_def Message_wf_def Message_inline_def split: if_splits)

subsection \<open>The bridge from object ids to endpoints\<close>

definition bound_to :: "ChannelTable \<Rightarrow> EndpointId \<Rightarrow> ObjectId \<Rightarrow> bool" where
  "bound_to t ep oid \<longleftrightarrow> ei_side ep < 2 \<and> ChannelTable_endpoint_object t ep = Some oid"

definition ChannelTable_wf :: "ChannelTable \<Rightarrow> bool" where
  "ChannelTable_wf t \<longleftrightarrow>
     (\<forall>c \<in> set (flatten (ct_channels t)). length (ch_ends c) = 2 \<and> length (ch_objects c) = 2) \<and>
     (\<forall>ep oid. bound_to t ep oid \<longrightarrow> unat (ObjectId_raw oid) < unat (ct_next_id t)) \<and>
     (\<forall>ep ep' oid. bound_to t ep oid \<longrightarrow> bound_to t ep' oid \<longrightarrow> ep = ep')"

lemma side_cases: "(s::nat) < 2 \<Longrightarrow> s = 0 \<or> s = 1"
  by auto

lemma endpoint_object_nth:
  "ChannelTable_endpoint_object t ep = Some oid \<longleftrightarrow>
     ei_channel ep < length (ct_channels t) \<and>
     (\<exists>c. ct_channels t ! ei_channel ep = Some c \<and> Channel_object c (ei_side ep) = Some oid)"
  by (auto simp: ChannelTable_endpoint_object_def ChannelTable_channel_def get_opt_def bind_eq_Some_conv)

lemma endpoint_of_object_loop_Some:
  "endpoint_of_object_loop k slots oid = Some ep \<Longrightarrow>
     \<exists>i c. i < length slots \<and> ei_channel ep = k + i \<and> ei_side ep < 2 \<and> slots ! i = Some c \<and>
       Channel_object c (ei_side ep) = Some oid"
proof (induction slots arbitrary: k)
  case (Cons slot slots)
  have rest: ?case if "endpoint_of_object_loop (k + 1) slots oid = Some ep"
  proof -
    from Cons.IH [OF that] obtain i c where "i < length slots" "ei_channel ep = k + 1 + i" "ei_side ep < 2"
      "slots ! i = Some c" "Channel_object c (ei_side ep) = Some oid" by blast
    then show ?thesis by (intro exI [of _ "Suc i"] exI [of _ c]) simp
  qed
  show ?case
  proof (cases slot)
    case None
    with Cons.prems rest show ?thesis by simp
  next
    case (Some c)
    show ?thesis
    proof (cases "endpoint_of_object_loop (k + 1) slots oid = Some ep")
      case False
      with Cons.prems Some show ?thesis
        by (intro exI [of _ 0] exI [of _ c]) (auto split: if_splits)
    qed (rule rest)
  qed
qed simp

lemma endpoint_of_object_loop_None:
  "endpoint_of_object_loop k slots oid = None \<Longrightarrow> Some c \<in> set slots \<Longrightarrow> s < 2 \<Longrightarrow> Channel_object c s \<noteq> Some oid"
  by (induction slots arbitrary: k) (auto split: option.splits if_splits dest: side_cases)

lemma endpoint_of_object_sound:
  "ChannelTable_endpoint_of_object t oid = Some ep \<Longrightarrow> bound_to t ep oid"
  using endpoint_of_object_loop_Some [of 0 "ct_channels t" oid ep]
  by (auto simp: ChannelTable_endpoint_of_object_def bound_to_def endpoint_object_nth)

lemma endpoint_of_object_complete:
  assumes "bound_to t ep oid"
  shows "ChannelTable_endpoint_of_object t oid \<noteq> None"
proof
  assume "ChannelTable_endpoint_of_object t oid = None"
  then show False
    using assms endpoint_of_object_loop_None [of 0 "ct_channels t" oid]
    by (auto simp: ChannelTable_endpoint_of_object_def bound_to_def endpoint_object_nth) (metis nth_mem)
qed

lemma endpoint_of_object_iff:
  "ChannelTable_wf t \<Longrightarrow> ChannelTable_endpoint_of_object t oid = Some ep \<longleftrightarrow> bound_to t ep oid"
  using endpoint_of_object_sound endpoint_of_object_complete
  by (metis ChannelTable_wf_def not_None_eq)

lemma set_endpoint_object_at:
  "i < length (ct_channels t) \<Longrightarrow> ct_channels t ! i = Some c \<Longrightarrow>
   ChannelTable_set_endpoint_object t \<lparr>ei_channel = i, ei_side = s\<rparr> oid
     = t\<lparr>ct_channels := (ct_channels t)[i := Some (Channel_set_object c s oid)]\<rparr>"
  by (simp add: ChannelTable_set_endpoint_object_def ChannelTable_channel_def get_opt_def)

lemma create_with_objects_eq:
  assumes "ChannelTable_create_with_objects qc t = (Ok (e0, e1), t')"
  shows "\<exists>i. free_slot (ct_channels t) = Some i \<and>
     e0 = \<lparr>ei_channel = i, ei_side = 0\<rparr> \<and> e1 = \<lparr>ei_channel = i, ei_side = 1\<rparr> \<and>
     t' = t\<lparr>ct_next_id := ct_next_id t + 2,
            ct_channels := (ct_channels t)[i := Some ((Channel_new qc)\<lparr>ch_objects :=
               [Some (ObjectId (ct_next_id t)), Some (ObjectId (ct_next_id t + 1))]\<rparr>)]\<rparr>"
proof (cases "free_slot (ct_channels t)")
  case None
  with assms show ?thesis by (simp add: ChannelTable_create_with_objects_def ChannelTable_create_def)
next
  case (Some i)
  then have "i < length (ct_channels t)" by (simp add: free_slotD)
  with Some assms show ?thesis
    by (auto simp: ChannelTable_create_with_objects_def ChannelTable_create_def Let_def
        set_endpoint_object_at Channel_set_object_def Channel_new_def)
qed

lemma create_with_objects_bound:
  assumes "ChannelTable_create_with_objects qc t = (Ok (e0, e1), t')"
  shows "bound_to t' ep oid \<longleftrightarrow>
     (ep = e0 \<and> oid = ObjectId (ct_next_id t)) \<or> (ep = e1 \<and> oid = ObjectId (ct_next_id t + 1)) \<or>
     (bound_to t ep oid)"
proof -
  obtain i where i: "free_slot (ct_channels t) = Some i"
    and e: "e0 = \<lparr>ei_channel = i, ei_side = 0\<rparr>" "e1 = \<lparr>ei_channel = i, ei_side = 1\<rparr>"
    and t': "t' = t\<lparr>ct_next_id := ct_next_id t + 2,
            ct_channels := (ct_channels t)[i := Some ((Channel_new qc)\<lparr>ch_objects :=
               [Some (ObjectId (ct_next_id t)), Some (ObjectId (ct_next_id t + 1))]\<rparr>)]\<rparr>"
    using create_with_objects_eq [OF assms] by blast
  note fs = free_slotD [OF i]
  show ?thesis
  proof (cases "ei_channel ep = i")
    case True
    with fs show ?thesis
      by (cases ep) (auto simp: bound_to_def endpoint_object_nth t' e Channel_object_def dest: side_cases)
  next
    case False
    with fs show ?thesis
      by (cases ep) (auto simp: bound_to_def endpoint_object_nth t' e)
  qed
qed

lemma create_with_objects_wf:
  assumes "ChannelTable_wf t" "unat (ct_next_id t) + 2 < 2 ^ 32"
    and "ChannelTable_create_with_objects qc t = (Ok (e0, e1), t')"
  shows "ChannelTable_wf t'"
proof -
  obtain i where i: "free_slot (ct_channels t) = Some i"
    and e: "e0 = \<lparr>ei_channel = i, ei_side = 0\<rparr>" "e1 = \<lparr>ei_channel = i, ei_side = 1\<rparr>"
    and t': "t' = t\<lparr>ct_next_id := ct_next_id t + 2,
            ct_channels := (ct_channels t)[i := Some ((Channel_new qc)\<lparr>ch_objects :=
               [Some (ObjectId (ct_next_id t)), Some (ObjectId (ct_next_id t + 1))]\<rparr>)]\<rparr>"
    using create_with_objects_eq [OF assms(3)] by blast
  have n1: "unat (ct_next_id t + 1) = unat (ct_next_id t) + 1"
   and n2: "unat (ct_next_id t + 2) = unat (ct_next_id t) + 2"
    using assms(2) by (auto simp: unat_word_ariths)
  have "\<forall>c \<in> set (flatten (ct_channels t')). length (ch_ends c) = 2 \<and> length (ch_objects c) = 2"
    using assms(1)
    by (auto simp: t' set_flatten ChannelTable_wf_def Channel_new_def
        dest!: set_update_subset_insert [THEN subsetD])
  moreover have "\<forall>ep oid. bound_to t' ep oid \<longrightarrow> unat (ObjectId_raw oid) < unat (ct_next_id t')"
  proof (intro allI impI)
    fix ep oid
    assume "bound_to t' ep oid"
    then consider "oid = ObjectId (ct_next_id t)" | "oid = ObjectId (ct_next_id t + 1)" | "bound_to t ep oid"
      by (auto simp: create_with_objects_bound [OF assms(3)])
    moreover have "unat (ct_next_id t') = unat (ct_next_id t) + 2" using n2 by (simp add: t')
    moreover have "unat (ObjectId_raw oid) < unat (ct_next_id t)" if "bound_to t ep oid"
      using assms(1) that by (auto simp: ChannelTable_wf_def)
    ultimately show "unat (ObjectId_raw oid) < unat (ct_next_id t')"
      using n1 by cases simp_all
  qed
  moreover have "\<forall>ep ep' oid. bound_to t' ep oid \<longrightarrow> bound_to t' ep' oid \<longrightarrow> ep = ep'"
  proof -
    have below: "unat (ObjectId_raw oid) < unat (ct_next_id t)" if "bound_to t ep oid" for ep oid
      using assms(1) that by (auto simp: ChannelTable_wf_def)
    have fresh: "\<not> bound_to t ep (ObjectId (ct_next_id t))" "\<not> bound_to t ep (ObjectId (ct_next_id t + 1))" for ep
      using below [of ep "ObjectId (ct_next_id t)"] below [of ep "ObjectId (ct_next_id t + 1)"] n1 by auto
    show ?thesis
    proof (intro allI impI)
      fix ep ep' oid
      assume a: "bound_to t' ep oid" "bound_to t' ep' oid"
      consider "oid = ObjectId (ct_next_id t)" | "oid = ObjectId (ct_next_id t + 1)"
        | "oid \<noteq> ObjectId (ct_next_id t)" "oid \<noteq> ObjectId (ct_next_id t + 1)" by blast
      then show "ep = ep'"
      proof cases
        case 3
        with a assms(1) show ?thesis
          unfolding create_with_objects_bound [OF assms(3)] ChannelTable_wf_def by metis
      qed (use a fresh in \<open>auto simp: create_with_objects_bound [OF assms(3)]\<close>)
    qed
  qed
  ultimately show ?thesis by (simp add: ChannelTable_wf_def)
qed

lemma ChannelTable_new_wf: "ChannelTable_wf (ChannelTable_new n)"
  by (auto simp: ChannelTable_wf_def ChannelTable_new_def bound_to_def endpoint_object_nth)

subsection \<open>The properties of channels\<close>

text \<open>The operations a channel performs on an endpoint's queue, on the ring buffer of the
  source and on the specification, a list of at most \<open>n\<close> messages: sends append, receives
  take the front, and a caller takes the first message carrying its transaction id.\<close>

datatype EndpointOp = OpEnqueue Message | OpDequeue | OpTakeReply "64 word"

datatype EndpointOut = OutSent "unit res" | OutGot "Message option"

fun Endpoint_op :: "Endpoint \<Rightarrow> EndpointOp \<Rightarrow> EndpointOut \<times> Endpoint" where
  "Endpoint_op e (OpEnqueue m) = (case Endpoint_enqueue e m of (r, e') \<Rightarrow> (OutSent r, e'))"
| "Endpoint_op e OpDequeue = (case Endpoint_dequeue e of (r, e') \<Rightarrow> (OutGot r, e'))"
| "Endpoint_op e (OpTakeReply txn) = (case Endpoint_take_reply e txn of (r, e') \<Rightarrow> (OutGot r, e'))"

fun queue_op :: "nat \<Rightarrow> Message list \<Rightarrow> EndpointOp \<Rightarrow> EndpointOut \<times> Message list" where
  "queue_op n q (OpEnqueue m) =
     (if length q < n then (OutSent (Ok ()), q @ [m]) else (OutSent (Err WouldBlock), q))"
| "queue_op n q OpDequeue = (case q of [] \<Rightarrow> (OutGot None, []) | m # ms \<Rightarrow> (OutGot (Some m), ms))"
| "queue_op n q (OpTakeReply txn) =
     (case position (\<lambda>m. mh_txn_id (msg_header m) = txn) q of
        None \<Rightarrow> (OutGot None, q)
      | Some i \<Rightarrow> (OutGot (Some (q ! i)), take i q @ drop (Suc i) q))"

fun run_ops :: "('s \<Rightarrow> 'p \<Rightarrow> 'o \<times> 's) \<Rightarrow> 's \<Rightarrow> 'p list \<Rightarrow> 'o list \<times> 's" where
  "run_ops f s [] = ([], s)"
| "run_ops f s (p # ps) =
     (case f s p of (r, s1) \<Rightarrow> case run_ops f s1 ps of (rs, s2) \<Rightarrow> (r # rs, s2))"

lemma close_gap_length: "length (close_gap n h i q) = length q"
  by (induction n h i q rule: close_gap.induct) (simp_all add: Let_def)

lemma Endpoint_op_refines:
  assumes "Endpoint_wf e" "Endpoint_op e p = (r, e')"
  shows "Endpoint_wf e' \<and> length (ep_queue e') = length (ep_queue e) \<and>
         queue_op (length (ep_queue e)) (Endpoint_messages e) p = (r, Endpoint_messages e')"
proof (cases p)
  case (OpEnqueue m)
  obtain x e1 where x: "Endpoint_enqueue e m = (x, e1)" by (cases "Endpoint_enqueue e m")
  show ?thesis
    using enqueue_refines [OF assms(1) x] Endpoint_ops_capacity(1) [OF x] assms
    by (auto simp: OpEnqueue x split: if_splits)
next
  case OpDequeue
  obtain x e1 where x: "Endpoint_dequeue e = (x, e1)" by (cases "Endpoint_dequeue e")
  show ?thesis
    using dequeue_refines [OF assms(1) x] Endpoint_ops_capacity(2) [OF x] assms
    by (cases "Endpoint_messages e") (auto simp: OpDequeue x)
next
  case (OpTakeReply txn)
  obtain x e1 where x: "Endpoint_take_reply e txn = (x, e1)" by (cases "Endpoint_take_reply e txn")
  have "length (ep_queue e1) = length (ep_queue e)"
    using x by (auto simp: Endpoint_take_reply_def Let_def close_gap_length split: option.splits)
  with take_reply_refines [OF assms(1) x] assms show ?thesis
    by (auto simp: OpTakeReply x split: option.splits)
qed

lemma Endpoint_run_refines:
  assumes "Endpoint_wf e"
  shows "run_ops (queue_op (length (ep_queue e))) (Endpoint_messages e) ops
       = apsnd Endpoint_messages (run_ops Endpoint_op e ops)"
  using assms
proof (induction ops arbitrary: e)
  case (Cons p ops)
  obtain r e1 where r: "Endpoint_op e p = (r, e1)" by (cases "Endpoint_op e p")
  from Endpoint_op_refines [OF Cons.prems r]
  have "Endpoint_wf e1" "length (ep_queue e1) = length (ep_queue e)"
    "queue_op (length (ep_queue e)) (Endpoint_messages e) p = (r, Endpoint_messages e1)" by auto
  with Cons.IH [of e1] r show ?case by (auto split: prod.splits)
qed simp

text \<open>C4: The ring buffer of an endpoint implements a bounded queue. On every sequence of
  sends, receives and reply pick-ups from a fresh endpoint, the ring buffer returns exactly
  what a list of at most \<open>queue_cap\<close> messages returns: accepted messages come out in order
  and once each, a full queue refuses with \<open>WouldBlock\<close>, and taking a reply out of the middle
  by transaction id keeps the order of the rest.\<close>
theorem endpoint_implements_queue:
  assumes "0 < queue_cap"
  shows "run_ops (queue_op queue_cap) [] ops
       = apsnd Endpoint_messages (run_ops Endpoint_op (Endpoint_new queue_cap) ops)"
proof -
  have "length (ep_queue (Endpoint_new queue_cap)) = queue_cap" by (simp add: Endpoint_new_def)
  with Endpoint_run_refines [of "Endpoint_new queue_cap" ops] Endpoint_new_wf [OF assms]
  show ?thesis by simp
qed

definition sample_message :: "64 word \<Rightarrow> Message" where
  "sample_message txn = Message_set_txn (Message_new 2 1 (MessageHeader_new 7 1)) txn"

theorem endpoint_implements_queue_witness:
  "fst (run_ops Endpoint_op (Endpoint_new 2)
      [OpEnqueue (sample_message 5), OpEnqueue (sample_message 6), OpEnqueue (sample_message 7),
       OpTakeReply 6, OpDequeue, OpDequeue])
   = [OutSent (Ok ()), OutSent (Ok ()), OutSent (Err WouldBlock),
      OutGot (Some (sample_message 6)), OutGot (Some (sample_message 5)), OutGot None]"
proof -
  let ?ops = "[OpEnqueue (sample_message 5), OpEnqueue (sample_message 6), OpEnqueue (sample_message 7),
       OpTakeReply 6, OpDequeue, OpDequeue]"
  have "fst (run_ops Endpoint_op (Endpoint_new 2) ?ops) = fst (run_ops (queue_op 2) [] ?ops)"
    using endpoint_implements_queue [of 2 ?ops] by simp
  also have "\<dots> = [OutSent (Ok ()), OutSent (Ok ()), OutSent (Err WouldBlock),
      OutGot (Some (sample_message 6)), OutGot (Some (sample_message 5)), OutGot None]"
    by code_simp
  finally show ?thesis .
qed

text \<open>C30: The message header survives the wire. Encoding a header into its wire envelope and
  decoding it gives the header back, whatever the boot epoch. Conversely, encoding the header
  of an envelope that decodes gives that envelope with the fields the header does not carry
  set anew: the size to the encoder's constant, the version to the current one and the upper
  half of the correlation to the current epoch; every other field is as it was. The only
  envelopes refused are those whose flags do not fit in 32 bits, and they are refused, never
  truncated.\<close>
theorem wire_header_roundtrip:
  "MessageHeader_from_wire (MessageHeader_to_wire wire_size epoch h) = Ok h \<and>
   (MessageHeader_from_wire w = Ok h \<longrightarrow>
      MessageHeader_to_wire wire_size epoch h =
        w\<lparr>wh_size := wire_size, wh_version := MESSAGE_HEADER_WIRE_VERSION, wh_correlation_hi := epoch\<rparr>) \<and>
   (MessageHeader_from_wire w = Err e \<longleftrightarrow> e = Protocol \<and> 2 ^ 32 \<le> unat (wh_flags w))"
proof -
  have u: "unat (ucast (mh_flags h) :: 64 word) < 2 ^ 32"
    using unsigned_less [of "mh_flags h", where ?'a = nat]
    by (simp add: unsigned_ucast_eq take_bit_nat_def mod_less_eq_dividend [THEN order_le_less_trans])
  have fits: "ucast (ucast x :: 32 word) = x" if "unat x < 2 ^ 32" for x :: "64 word"
    using that by (intro word_unat_eq_iff [THEN iffD2])
      (simp add: unsigned_ucast_eq unsigned_take_bit_eq take_bit_nat_eq_self)
  have up: "ucast (ucast (mh_flags h) :: 64 word) = mh_flags h"
    using unsigned_less [of "mh_flags h", where ?'a = nat]
    by (intro word_unat_eq_iff [THEN iffD2])
      (simp add: unsigned_ucast_eq unsigned_take_bit_eq take_bit_nat_eq_self)
  show ?thesis
    using u up fits [of "wh_flags w"]
    by (auto simp: MessageHeader_from_wire_def MessageHeader_to_wire_def)
qed

theorem wire_header_roundtrip_witness:
  "MessageHeader_to_wire 56 9 (MessageHeader_new 7 1)
     = \<lparr>wh_size = 56, wh_version = 2, wh_flags = 0, wh_interface_id = 7, wh_txn_id = 0, wh_method_id = 1,
        wh_correlation_lo = 0, wh_correlation_hi = 9\<rparr>"
proof -
  let ?w = "\<lparr>wh_size = 48, wh_version = 1, wh_flags = 0, wh_interface_id = 7, wh_txn_id = 0, wh_method_id = 1,
        wh_correlation_lo = 0, wh_correlation_hi = 8\<rparr>"
  have "MessageHeader_from_wire ?w = Ok (MessageHeader_new 7 1)"
    by (simp add: MessageHeader_from_wire_def MessageHeader_new_def)
  with wire_header_roundtrip [of 56 9 "MessageHeader_new 7 1" ?w] show ?thesis
    by (simp add: MESSAGE_HEADER_WIRE_VERSION_def)
qed

text \<open>C31: A message is never trimmed to fit. On a well-formed message, a payload within the
  inline capacity is stored and read back byte for byte, and one over it is refused with
  \<open>Protocol\<close> leaving the message as it was; a handle is appended to the transfer vector while
  there is room, and refused the same way when there is none. Neither operation disturbs the
  other part of the message.\<close>
theorem message_never_trimmed:
  assumes "Message_wf m"
  shows "(case Message_set_inline m bytes of
            (r, m1) \<Rightarrow> if length bytes \<le> length (msg_inline m)
              then r = Ok () \<and> Message_wf m1 \<and> Message_inline m1 = bytes \<and> Message_handles m1 = Message_handles m
              else r = Err Protocol \<and> m1 = m) \<and>
         (case Message_add_handle m h of
            (r, m1) \<Rightarrow> if length (Message_handles m) < length (msg_handles m)
              then r = Ok () \<and> Message_wf m1 \<and> Message_handles m1 = Message_handles m @ [h]
                   \<and> Message_inline m1 = Message_inline m
              else r = Err Protocol \<and> m1 = m)"
proof -
  have n: "length (Message_handles m) = msg_handle_count m"
    using assms flatten_prefix [of "msg_handles m" "msg_handle_count m"]
    by (simp add: Message_wf_def Message_handles_def)
  obtain r1 m1 where i: "Message_set_inline m bytes = (r1, m1)" by (cases "Message_set_inline m bytes")
  obtain r2 m2 where a: "Message_add_handle m h = (r2, m2)" by (cases "Message_add_handle m h")
  have "Message_handles m1 = Message_handles m" "Message_inline m2 = Message_inline m"
    using i a by (auto simp: Message_set_inline_def Message_add_handle_def Message_handles_def Message_inline_def
        split: if_splits)
  with set_inline_spec [OF assms i] add_handle_spec [OF assms a] show ?thesis
    by (simp add: i a n split: if_splits)
qed

theorem message_never_trimmed_witness:
  "fst (Message_set_inline (Message_new 2 1 (MessageHeader_new 7 1)) [1, 2, 3]) = Err Protocol \<and>
   Message_inline (snd (Message_set_inline (Message_new 2 1 (MessageHeader_new 7 1)) [1, 2])) = [1, 2]"
proof -
  define m where "m = Message_new 2 1 (MessageHeader_new 7 1)"
  have wf: "Message_wf m" and l: "length (msg_inline m) = 2"
    unfolding m_def by (rule Message_new_wf) (simp add: Message_new_def)
  have "fst (Message_set_inline m [1, 2, 3]) = Err Protocol"
    using message_never_trimmed [OF wf, of "[1, 2, 3]", THEN conjunct1]
    by (cases "Message_set_inline m [1, 2, 3]") (simp add: l)
  moreover have "Message_inline (snd (Message_set_inline m [1, 2])) = [1, 2]"
    using message_never_trimmed [OF wf, of "[1, 2]", THEN conjunct1]
    by (cases "Message_set_inline m [1, 2]") (simp add: l)
  ultimately show ?thesis by (simp add: m_def)
qed

fun create_channels :: "nat \<Rightarrow> nat \<Rightarrow> ChannelTable \<Rightarrow> ChannelTable" where
  "create_channels qc 0 t = t"
| "create_channels qc (Suc n) t = create_channels qc n (snd (ChannelTable_create_with_objects qc t))"

definition ids_counted :: "ChannelTable \<Rightarrow> bool" where
  "ids_counted t \<longleftrightarrow> unat (ct_next_id t) = unat CHANNEL_OBJECT_ID_BASE + 2 * count_some (ct_channels t)"

lemma create_with_objects_Err:
  "ChannelTable_create_with_objects qc t = (Err e, t') \<Longrightarrow> t' = t"
  by (auto simp: ChannelTable_create_with_objects_def ChannelTable_create_def Let_def split: option.splits)

lemma create_with_objects_step:
  assumes "ChannelTable_wf t" "ids_counted t" "length (ct_channels t) = n" "2 * n + 8194 < 2 ^ 32"
    and "t' = snd (ChannelTable_create_with_objects qc t)"
  shows "ChannelTable_wf t' \<and> ids_counted t' \<and> length (ct_channels t') = n"
proof (cases "ChannelTable_create_with_objects qc t")
  case (Pair r t1)
  show ?thesis
  proof (cases r)
    case (Err e)
    with Pair create_with_objects_Err [of qc t e t1] assms show ?thesis by simp
  next
    case (Ok p)
    obtain e0 e1 where p: "p = (e0, e1)" by (cases p)
    note c = Pair [unfolded Ok p]
    obtain i where i: "free_slot (ct_channels t) = Some i" "t1 = t\<lparr>ct_next_id := ct_next_id t + 2,
            ct_channels := (ct_channels t)[i := Some ((Channel_new qc)\<lparr>ch_objects :=
               [Some (ObjectId (ct_next_id t)), Some (ObjectId (ct_next_id t + 1))]\<rparr>)]\<rparr>"
      using create_with_objects_eq [OF c] by blast
    have "count_some (ct_channels t) \<le> n" using count_some_le [of "ct_channels t"] assms(3) by simp
    then have b: "unat (ct_next_id t) + 2 < 2 ^ 32"
      using assms(2,4) by (simp add: ids_counted_def CHANNEL_OBJECT_ID_BASE_def)
    then have "unat (ct_next_id t + 2) = unat (ct_next_id t) + 2" by (simp add: unat_word_ariths)
    with create_with_objects_wf [OF assms(1) b c] assms(2,3,5) Pair i free_slotD [OF i(1)] show ?thesis
      by (simp add: ids_counted_def slot_simps)
  qed
qed

lemma create_channels_wf:
  assumes "ChannelTable_wf t" "ids_counted t" "length (ct_channels t) = n" "2 * n + 8194 < 2 ^ 32"
  shows "ChannelTable_wf (create_channels qc k t)"
  using assms
proof (induction k arbitrary: t)
  case (Suc k)
  from create_with_objects_step [OF Suc.prems refl, of qc] Suc.prems(4) show ?case
    by (simp add: Suc.IH)
qed simp

text \<open>C32: The bridge from objects to endpoints is exact. However many channels
  \<open>create_with_objects\<close> has been asked for, in a table of fewer than 2,147,479,551 slots (so
  that its 32-bit id counter, which starts at 0x2000, does not wrap), looking an object id up
  finds an endpoint exactly when that endpoint was given that id, and no two endpoints of the
  table were given the same id. This is exactness among the ids of this table; that no other
  table hands out one of them is not claimed.\<close>
theorem endpoint_bridge_exact:
  assumes "2 * max_channels + 8194 < 2 ^ 32" "t = create_channels queue_cap n (ChannelTable_new max_channels)"
    and "ei_side ep < 2" "ei_side ep' < 2"
  shows "(ChannelTable_endpoint_of_object t oid = Some ep \<longleftrightarrow> ChannelTable_endpoint_object t ep = Some oid) \<and>
    (ChannelTable_endpoint_object t ep = Some oid \<and> ChannelTable_endpoint_object t ep' = Some oid \<longrightarrow> ep' = ep)"
proof -
  have "ids_counted (ChannelTable_new max_channels)"
    by (simp add: ids_counted_def ChannelTable_new_def count_some_def)
  then have "ChannelTable_wf t"
    unfolding assms(2) using assms(1)
    by (intro create_channels_wf [OF ChannelTable_new_wf]) (simp_all add: ChannelTable_new_def)
  then have "ChannelTable_endpoint_of_object t oid = Some e \<longleftrightarrow> ChannelTable_endpoint_object t e = Some oid"
    if "ei_side e < 2" for e using endpoint_of_object_iff that by (simp add: bound_to_def)
  from this [OF assms(3)] this [OF assms(4)] show ?thesis by auto
qed

theorem endpoint_bridge_exact_witness:
  "ChannelTable_endpoint_of_object (create_channels 1 2 (ChannelTable_new 2)) (ObjectId 0x2003)
     = Some \<lparr>ei_channel = 1, ei_side = 1\<rparr> \<and>
   ChannelTable_endpoint_object (create_channels 1 2 (ChannelTable_new 2)) \<lparr>ei_channel = 0, ei_side = 1\<rparr> \<noteq> Some (ObjectId 0x2003)"
proof -
  have "ChannelTable_endpoint_object (create_channels 1 2 (ChannelTable_new 2)) \<lparr>ei_channel = 1, ei_side = 1\<rparr>
      = Some (ObjectId 0x2003)"
    by code_simp
  with endpoint_bridge_exact [of 2 _ 1 2 "\<lparr>ei_channel = 1, ei_side = 1\<rparr>" "\<lparr>ei_channel = 0, ei_side = 1\<rparr>" "ObjectId 0x2003", OF _ refl]
  show ?thesis by simp
qed

end
