(* ===== verification/Sched.thy ===== *)
theory Sched
  imports Objects Queues
begin

text \<open>
  Threads and the per-CPU scheduler, \<^verbatim>\<open>kcore/src/thread.rs\<close> and
  \<^verbatim>\<open>kcore/src/sched.rs\<close>: the ring of ready slots, the selection of the earliest thread
  of the most urgent priority, blocking, handoff, wakeup, termination, reaping and the
  timer tick. The saved register context of a thread is opaque to every operation here
  and is left out of the record; a switch is modelled up to the point where the register
  switch happens. \<open>None\<close> stands for the panic of \<^verbatim>\<open>context_ptr\<close> and of an out-of-range
  index. The per-CPU user-access flag and the ambient trace context that a switch
  republishes are fields of the model's state; the CPU index and the freshly minted
  causal id are arguments. Tick and switch counters are natural numbers.
\<close>

datatype ThreadState = Ready | Running | Blocked | Exited

record ExceptionSlot =
  ex_vector :: "64 word"
  ex_error_code :: "64 word"
  ex_faulting_ip :: "64 word"
  ex_valid :: bool

definition ExceptionSlot_empty :: ExceptionSlot where
  "ExceptionSlot_empty = \<lparr> ex_vector = 0, ex_error_code = 0, ex_faulting_ip = 0, ex_valid = False \<rparr>"

record Thread =
  thr_id :: ThreadId
  thr_state :: ThreadState
  thr_priority :: "8 word"
  thr_correlation :: "64 word"
  thr_blocked_deadline :: "64 word option"
  thr_stack_base :: VirtAddr
  thr_stack_pages :: "64 word"
  thr_space_root :: "PhysAddr option"
  thr_process :: "ObjectId option"
  thr_exception :: ExceptionSlot
  thr_user_access :: bool

definition ThreadId_UNASSIGNED :: ThreadId where "ThreadId_UNASSIGNED = 0"
definition ThreadId_CPU_SHIFT :: nat where "ThreadId_CPU_SHIFT = 48"

definition ThreadId_cpu :: "ThreadId \<Rightarrow> 32 word" where
  "ThreadId_cpu t = ucast (drop_bit ThreadId_CPU_SHIFT t)"

definition ThreadId_sequence :: "ThreadId \<Rightarrow> 64 word" where
  "ThreadId_sequence t = t AND (push_bit ThreadId_CPU_SHIFT 1 - 1)"

record RunQueue =
  rq_slots :: "nat list"
  rq_head :: nat
  rq_len :: nat

definition RunQueue_new :: "nat \<Rightarrow> RunQueue" where
  "RunQueue_new max_threads = \<lparr> rq_slots = replicate max_threads 0, rq_head = 0, rq_len = 0 \<rparr>"

definition RunQueue_push :: "RunQueue \<Rightarrow> nat \<Rightarrow> bool \<times> RunQueue" where
  "RunQueue_push q idx =
     (if rq_len q \<ge> length (rq_slots q) then (False, q)
      else let tail = (rq_head q + rq_len q) mod length (rq_slots q) in
           (True, q\<lparr>rq_slots := (rq_slots q)[tail := idx], rq_len := rq_len q + 1\<rparr>))"

definition RunQueue_remove :: "RunQueue \<Rightarrow> nat \<Rightarrow> bool \<times> RunQueue" where
  "RunQueue_remove q idx =
     (let vs = map (\<lambda>i. rq_slots q ! ((rq_head q + i) mod length (rq_slots q))) [0..<rq_len q];
          kept = filter (\<lambda>v. v \<noteq> idx) vs;
          n = length kept
      in (idx \<in> set vs, q\<lparr>rq_slots := kept @ drop n (rq_slots q), rq_head := 0, rq_len := n\<rparr>))"

definition RunQueue_at :: "RunQueue \<Rightarrow> nat \<Rightarrow> nat option" where
  "RunQueue_at q pos =
     (if pos < rq_len q then Some (rq_slots q ! ((rq_head q + pos) mod length (rq_slots q))) else None)"

fun shift_down :: "nat \<Rightarrow> nat \<Rightarrow> nat \<Rightarrow> 'a list \<Rightarrow> 'a list" where
  "shift_down 0 head i q = q"
| "shift_down (Suc n) head i q =
     (let from = (head + i + 1) mod length q; to = (head + i) mod length q in
      shift_down n head (i + 1) (q[to := q ! from]))"

definition RunQueue_take_at :: "RunQueue \<Rightarrow> nat \<Rightarrow> nat option \<times> RunQueue" where
  "RunQueue_take_at q pos =
     (case RunQueue_at q pos of
        None \<Rightarrow> (None, q)
      | Some taken \<Rightarrow>
          if pos = 0
          then (Some taken, q\<lparr>rq_head := (rq_head q + 1) mod length (rq_slots q), rq_len := rq_len q - 1\<rparr>)
          else (Some taken, q\<lparr>rq_slots := shift_down (rq_len q - 1 - pos) (rq_head q) pos (rq_slots q),
                              rq_len := rq_len q - 1\<rparr>))"

record TraceContext =
  tc_thread_id :: "64 word"
  tc_process_id :: "64 word"
  tc_correlation :: "64 word"

definition TraceContext_NONE :: TraceContext where
  "TraceContext_NONE = \<lparr> tc_thread_id = 0, tc_process_id = 0, tc_correlation = 0 \<rparr>"

record Scheduler =
  sc_threads :: "Thread option list"
  sc_ready :: RunQueue
  sc_current :: "nat option"
  sc_quantum :: nat
  sc_quantum_reset :: nat
  sc_ticks :: nat
  sc_tick_limit :: nat
  sc_switches :: nat
  sc_next_thread_id :: "64 word"
  sc_cpu_access :: bool
  sc_trace :: TraceContext

definition Scheduler_new :: "nat \<Rightarrow> nat \<Rightarrow> nat \<Rightarrow> Scheduler" where
  "Scheduler_new max_threads quantum tick_limit =
     \<lparr> sc_threads = replicate max_threads None, sc_ready = RunQueue_new max_threads, sc_current = None,
       sc_quantum = max quantum 1, sc_quantum_reset = max quantum 1, sc_ticks = 0,
       sc_tick_limit = tick_limit, sc_switches = 0, sc_next_thread_id = 1,
       sc_cpu_access = False, sc_trace = TraceContext_NONE \<rparr>"

definition Scheduler_thread_at :: "Scheduler \<Rightarrow> nat \<Rightarrow> Thread option" where
  "Scheduler_thread_at s idx = Option.bind (get_opt (sc_threads s) idx) (\<lambda>t. t)"

definition Scheduler_thread_state :: "Scheduler \<Rightarrow> nat \<Rightarrow> ThreadState option" where
  "Scheduler_thread_state s idx = map_option thr_state (Scheduler_thread_at s idx)"

definition Scheduler_thread_priority :: "Scheduler \<Rightarrow> nat \<Rightarrow> 8 word option" where
  "Scheduler_thread_priority s idx = map_option thr_priority (Scheduler_thread_at s idx)"

definition Scheduler_thread_id :: "Scheduler \<Rightarrow> nat \<Rightarrow> ThreadId option" where
  "Scheduler_thread_id s idx = map_option thr_id (Scheduler_thread_at s idx)"

definition Scheduler_thread_correlation :: "Scheduler \<Rightarrow> nat \<Rightarrow> 64 word option" where
  "Scheduler_thread_correlation s idx = map_option thr_correlation (Scheduler_thread_at s idx)"

definition update_thread :: "Scheduler \<Rightarrow> nat \<Rightarrow> (Thread \<Rightarrow> Thread) \<Rightarrow> Scheduler" where
  "update_thread s idx f =
     (case Scheduler_thread_at s idx of
        None \<Rightarrow> s | Some t \<Rightarrow> s\<lparr>sc_threads := (sc_threads s)[idx := Some (f t)]\<rparr>)"

definition Scheduler_mint_thread_id :: "32 word \<Rightarrow> Scheduler \<Rightarrow> ThreadId res \<times> Scheduler" where
  "Scheduler_mint_thread_id cpu s =
     (let sequence = sc_next_thread_id s in
      if drop_bit ThreadId_CPU_SHIFT sequence \<noteq> 0 then (Err LimitExceeded, s)
      else (Ok (push_bit ThreadId_CPU_SHIFT (ucast cpu) OR sequence),
            s\<lparr>sc_next_thread_id := sc_next_thread_id s + 1\<rparr>))"

definition Scheduler_add_thread :: "32 word \<Rightarrow> 64 word \<Rightarrow> Scheduler \<Rightarrow> Thread \<Rightarrow> nat res \<times> Scheduler" where
  "Scheduler_add_thread cpu child s thread =
     (case free_slot (sc_threads s) of
        None \<Rightarrow> (Err OutOfMemory, s)
      | Some idx \<Rightarrow>
          (case Scheduler_mint_thread_id cpu s of
             (Err e, s1) \<Rightarrow> (Err e, s1)
           | (Ok tid, s1) \<Rightarrow>
               let thread' = thread\<lparr>thr_id := tid, thr_state := Ready, thr_correlation := child\<rparr>;
                   s2 = s1\<lparr>sc_threads := (sc_threads s1)[idx := Some thread']\<rparr>;
                   (pushed, q) = RunQueue_push (sc_ready s2) idx
               in if \<not> pushed then (Err OutOfMemory, s2\<lparr>sc_threads := (sc_threads s2)[idx := None]\<rparr>)
                  else (Ok idx, s2\<lparr>sc_ready := q\<rparr>)))"

definition Scheduler_trace_context :: "Scheduler \<Rightarrow> nat option \<Rightarrow> TraceContext" where
  "Scheduler_trace_context s idx =
     (case Option.bind idx (Scheduler_thread_at s) of
        None \<Rightarrow> TraceContext_NONE
      | Some t \<Rightarrow>
          \<lparr> tc_thread_id = thr_id t,
            tc_process_id = (case thr_process t of None \<Rightarrow> 0 | Some p \<Rightarrow> ucast (ObjectId_raw p)),
            tc_correlation = thr_correlation t \<rparr>)"

definition Scheduler_switch_to :: "Scheduler \<Rightarrow> nat option \<Rightarrow> Scheduler option" where
  "Scheduler_switch_to s next =
     (let outgoing = sc_cpu_access s;
          s1 = (case sc_current s of
                  None \<Rightarrow> s | Some cur \<Rightarrow> update_thread s cur (\<lambda>t. t\<lparr>thr_user_access := outgoing\<rparr>))
               \<lparr>sc_cpu_access := False\<rparr>
      in if (case sc_current s of None \<Rightarrow> False | Some cur \<Rightarrow> Scheduler_thread_at s1 cur = None) then None
         else (case next of
                 None \<Rightarrow> Some (s1\<lparr>sc_trace := TraceContext_NONE, sc_current := None, sc_switches := sc_switches s1 + 1\<rparr>)
               | Some idx \<Rightarrow>
                   (case Scheduler_thread_at s1 idx of
                      None \<Rightarrow> None
                    | Some t \<Rightarrow>
                        let s2 = (update_thread s1 idx (\<lambda>t. t\<lparr>thr_state := Running\<rparr>))
                                   \<lparr>sc_cpu_access := thr_user_access t\<rparr>
                        in Some (s2\<lparr>sc_trace := Scheduler_trace_context s2 (Some idx),
                                    sc_current := Some idx, sc_switches := sc_switches s2 + 1\<rparr>))))"

definition prio :: "Scheduler \<Rightarrow> nat \<Rightarrow> 8 word" where
  "prio s idx = (case Scheduler_thread_priority s idx of None \<Rightarrow> 0 | Some p \<Rightarrow> p)"

lemma take_at_decreases:
  "RunQueue_at q pos = Some idx \<Longrightarrow> rq_len (snd (RunQueue_take_at q pos)) < rq_len q"
  by (auto simp: RunQueue_take_at_def RunQueue_at_def split: if_splits)

function pop_scan ::
    "Scheduler \<Rightarrow> RunQueue \<Rightarrow> nat \<Rightarrow> (nat \<times> 8 word) option \<Rightarrow> RunQueue \<times> (nat \<times> 8 word) option" where
  "pop_scan s q pos best =
     (case RunQueue_at q pos of
        None \<Rightarrow> (q, best)
      | Some idx \<Rightarrow>
          if Scheduler_thread_state s idx \<noteq> Some Ready
          then pop_scan s (snd (RunQueue_take_at q pos)) pos best
          else let priority = prio s idx;
                   better = (case best of None \<Rightarrow> True | Some (_, best_priority) \<Rightarrow> priority > best_priority)
               in pop_scan s q (pos + 1) (if better then Some (pos, priority) else best))"
  by pat_completeness auto
termination
proof (relation "measure (\<lambda>(s, q, pos, best). rq_len q - pos)", goal_cases)
  case (2 s q pos best idx)
  moreover have "pos < rq_len q" using 2 by (auto simp: RunQueue_at_def split: if_splits)
  ultimately show ?case using take_at_decreases [of q pos idx] by simp
next
  case (3 s q pos best idx)
  then show ?case by (auto simp: RunQueue_at_def split: if_splits)
qed auto

declare pop_scan.simps [simp del]

definition Scheduler_pop_ready :: "Scheduler \<Rightarrow> nat option \<times> Scheduler" where
  "Scheduler_pop_ready s =
     (case pop_scan s (sc_ready s) 0 None of
        (q, None) \<Rightarrow> (None, s\<lparr>sc_ready := q\<rparr>)
      | (q, Some (at, _)) \<Rightarrow>
          (case RunQueue_take_at q at of (taken, q') \<Rightarrow> (taken, s\<lparr>sc_ready := q'\<rparr>)))"

definition Scheduler_run :: "Scheduler \<Rightarrow> Scheduler option" where
  "Scheduler_run s =
     (case Scheduler_pop_ready s of
        (None, s1) \<Rightarrow> Some s1
      | (Some first, s1) \<Rightarrow> Scheduler_switch_to (s1\<lparr>sc_quantum := sc_quantum_reset s1\<rparr>) (Some first))"

definition set_current_state :: "Scheduler \<Rightarrow> ThreadState \<Rightarrow> Scheduler" where
  "set_current_state s st =
     (case sc_current s of None \<Rightarrow> s | Some cur \<Rightarrow> update_thread s cur (\<lambda>t. t\<lparr>thr_state := st\<rparr>))"

definition Scheduler_block_current :: "Scheduler \<Rightarrow> Scheduler option" where
  "Scheduler_block_current s =
     (case Scheduler_pop_ready (set_current_state s Blocked) of (next, s1) \<Rightarrow> Scheduler_switch_to s1 next)"

definition Scheduler_handoff_to :: "Scheduler \<Rightarrow> nat \<Rightarrow> Scheduler option" where
  "Scheduler_handoff_to s target = Scheduler_switch_to (set_current_state s Blocked) (Some target)"

definition Scheduler_yield_to_boot :: "Scheduler \<Rightarrow> Scheduler option" where
  "Scheduler_yield_to_boot s = Scheduler_switch_to s None"

definition Scheduler_enqueue :: "Scheduler \<Rightarrow> nat \<Rightarrow> bool \<times> Scheduler" where
  "Scheduler_enqueue s idx =
     (case RunQueue_push (sc_ready s) idx of (ok, q) \<Rightarrow> (ok, s\<lparr>sc_ready := q\<rparr>))"

definition Scheduler_unblock :: "Scheduler \<Rightarrow> nat \<Rightarrow> Scheduler" where
  "Scheduler_unblock s idx =
     (if Scheduler_thread_state s idx \<noteq> Some Blocked then s
      else case Scheduler_enqueue (update_thread s idx (\<lambda>t. t\<lparr>thr_state := Ready\<rparr>)) idx of
             (True, s1) \<Rightarrow> s1
           | (False, s1) \<Rightarrow> update_thread s1 idx (\<lambda>t. t\<lparr>thr_state := Blocked\<rparr>))"

definition Scheduler_unblock_thread :: "Scheduler \<Rightarrow> nat \<Rightarrow> ThreadId \<Rightarrow> bool \<times> Scheduler" where
  "Scheduler_unblock_thread s idx tid =
     (if tid = ThreadId_UNASSIGNED \<or> Scheduler_thread_id s idx \<noteq> Some tid then (False, s)
      else (True, Scheduler_unblock s idx))"

definition Scheduler_exit_current :: "Scheduler \<Rightarrow> Scheduler option" where
  "Scheduler_exit_current s =
     (case Scheduler_pop_ready (set_current_state s Exited) of (next, s1) \<Rightarrow> Scheduler_switch_to s1 next)"

definition Scheduler_terminate :: "Scheduler \<Rightarrow> nat \<Rightarrow> Scheduler" where
  "Scheduler_terminate s idx = update_thread s idx (\<lambda>t. t\<lparr>thr_state := Exited\<rparr>)"

definition Scheduler_reap :: "Scheduler \<Rightarrow> nat \<Rightarrow> Thread option \<times> Scheduler" where
  "Scheduler_reap s idx =
     (if sc_current s = Some idx then (None, s)
      else let s1 = s\<lparr>sc_ready := snd (RunQueue_remove (sc_ready s) idx)\<rparr> in
           (Scheduler_thread_at s1 idx, s1\<lparr>sc_threads := (sc_threads s1)[idx := None]\<rparr>))"

definition Scheduler_set_thread_priority :: "Scheduler \<Rightarrow> nat \<Rightarrow> 8 word \<Rightarrow> Scheduler" where
  "Scheduler_set_thread_priority s idx p = update_thread s idx (\<lambda>t. t\<lparr>thr_priority := p\<rparr>)"

definition Scheduler_set_thread_correlation :: "Scheduler \<Rightarrow> nat \<Rightarrow> 64 word \<Rightarrow> Scheduler" where
  "Scheduler_set_thread_correlation s idx c =
     (let s1 = update_thread s idx (\<lambda>t. t\<lparr>thr_correlation := c\<rparr>) in
      if sc_current s1 = Some idx then s1\<lparr>sc_trace := (sc_trace s1)\<lparr>tc_correlation := c\<rparr>\<rparr> else s1)"

definition Scheduler_index_of :: "Scheduler \<Rightarrow> ThreadId \<Rightarrow> nat option" where
  "Scheduler_index_of s tid =
     (if tid = ThreadId_UNASSIGNED then None
      else position (\<lambda>slot. case slot of None \<Rightarrow> False | Some t \<Rightarrow> thr_id t = tid) (sc_threads s))"

definition Scheduler_requeue_current :: "Scheduler \<Rightarrow> Scheduler" where
  "Scheduler_requeue_current s =
     (case sc_current s of
        None \<Rightarrow> s
      | Some cur \<Rightarrow> snd (Scheduler_enqueue (update_thread s cur (\<lambda>t. t\<lparr>thr_state := Ready\<rparr>)) cur))"

definition Scheduler_on_tick :: "Scheduler \<Rightarrow> Scheduler option" where
  "Scheduler_on_tick s0 =
     (let s = s0\<lparr>sc_ticks := sc_ticks s0 + 1\<rparr> in
      if sc_tick_limit s \<noteq> 0 \<and> sc_ticks s \<ge> sc_tick_limit s
      then Scheduler_switch_to (Scheduler_requeue_current s) None
      else if sc_quantum s > 1 then Some (s\<lparr>sc_quantum := sc_quantum s - 1\<rparr>)
      else case Scheduler_pop_ready (s\<lparr>sc_quantum := sc_quantum_reset s\<rparr>) of
             (None, s1) \<Rightarrow> Some s1
           | (Some next, s1) \<Rightarrow> Scheduler_switch_to (Scheduler_requeue_current s1) (Some next))"

subsection \<open>The ready ring as a list\<close>

definition rq_wf :: "RunQueue \<Rightarrow> bool" where
  "rq_wf q \<longleftrightarrow> 0 < length (rq_slots q) \<and> rq_head q < length (rq_slots q) \<and> rq_len q \<le> length (rq_slots q)"

definition rq_list :: "RunQueue \<Rightarrow> nat list" where
  "rq_list q = ring_slice (rq_slots q) (rq_head q) (rq_len q)"

lemma length_rq_list [simp]: "length (rq_list q) = rq_len q"
  by (simp add: rq_list_def)

lemma RunQueue_new_list [simp]: "rq_list (RunQueue_new n) = []" "0 < n \<Longrightarrow> rq_wf (RunQueue_new n)"
  by (simp_all add: rq_list_def RunQueue_new_def rq_wf_def)

lemma RunQueue_at_list: "RunQueue_at q pos = (if pos < length (rq_list q) then Some (rq_list q ! pos) else None)"
  by (simp add: RunQueue_at_def rq_list_def ring_slice_nth)

lemma push_list:
  assumes "rq_wf q" "RunQueue_push q idx = (ok, q')"
  shows "rq_wf q'" and "length (rq_slots q') = length (rq_slots q)"
    and "ok \<longleftrightarrow> length (rq_list q) < length (rq_slots q)"
    and "rq_list q' = (if ok then rq_list q @ [idx] else rq_list q)"
  using assms ring_slice_push [of "rq_len q" "rq_slots q" "rq_head q" idx]
  by (auto simp: RunQueue_push_def rq_wf_def rq_list_def Let_def split: if_splits)

lemma remove_list:
  assumes "rq_wf q" "RunQueue_remove q idx = (r, q')"
  shows "rq_wf q'" and "length (rq_slots q') = length (rq_slots q)"
    and "rq_list q' = filter (\<lambda>v. v \<noteq> idx) (rq_list q)" and "r \<longleftrightarrow> idx \<in> set (rq_list q)"
proof -
  let ?kept = "filter (\<lambda>v. v \<noteq> idx) (rq_list q)" and ?n = "length (filter (\<lambda>v. v \<noteq> idx) (rq_list q))"
  have vs: "map (\<lambda>i. rq_slots q ! ((rq_head q + i) mod length (rq_slots q))) [0..<rq_len q] = rq_list q"
    by (simp add: rq_list_def ring_slice_def)
  have q': "r \<longleftrightarrow> idx \<in> set (rq_list q)"
      "q' = q\<lparr>rq_slots := ?kept @ drop ?n (rq_slots q), rq_head := 0, rq_len := ?n\<rparr>"
    using assms(2) unfolding RunQueue_remove_def vs Let_def by auto
  have n: "?n \<le> length (rq_slots q)"
    using assms(1) length_filter_le [of "\<lambda>v. v \<noteq> idx" "rq_list q"] by (simp add: rq_wf_def)
  then have len: "length (?kept @ drop ?n (rq_slots q)) = length (rq_slots q)" by simp
  show "rq_wf q'" "length (rq_slots q') = length (rq_slots q)" "r \<longleftrightarrow> idx \<in> set (rq_list q)"
    using assms(1) n len by (auto simp: q' rq_wf_def)
  show "rq_list q' = ?kept"
    using n len by (intro nth_equalityI) (auto simp: q' rq_list_def ring_slice_nth nth_append)
qed

lemma shift_down_list:
  assumes "ring_slice q h (length q) = A @ x # B @ C" "q \<noteq> []"
  shows "ring_slice (shift_down (length B) h (length A) q) h (length A + length B) = A @ B
       \<and> length (shift_down (length B) h (length A) q) = length q"
  using assms
proof (induction B arbitrary: A x q)
  case Nil
  have "take (length A) (ring_slice q h (length q)) = A" using Nil.prems by simp
  moreover have "length A \<le> length q" using arg_cong [OF Nil.prems(1), of length] by simp
  ultimately show ?case using take_ring_slice [of "length A" "length q" q h] by simp
next
  case (Cons b B)
  note r = Cons.prems(1)
  have l: "length q = length A + Suc (Suc (length B + length C))"
    using arg_cong [OF r, of length] by simp
  let ?i = "length A"
  have "ring_slice q h (length q) ! Suc ?i = b" using r by (simp add: nth_append)
  then have from_b: "q ! ((h + Suc ?i) mod length q) = b" using l by (simp add: ring_slice_nth)
  let ?q1 = "q[(h + ?i) mod length q := b]"
  have "ring_slice ?q1 h (length q) = (ring_slice q h (length q))[?i := b]"
    using l by (intro ring_slice_update) auto
  then have "ring_slice ?q1 h (length ?q1) = (A @ [b]) @ b # B @ C"
    by (simp add: r list_update_append)
  moreover have "shift_down (length (b # B)) h ?i q = shift_down (length B) h (length (A @ [b])) ?q1"
    using from_b by (simp add: Let_def)
  ultimately show ?case using Cons.IH [of ?q1 "A @ [b]" b] Cons.prems(2) by simp
qed

lemma take_at_list:
  assumes "rq_wf q" "RunQueue_take_at q pos = (r, q')" "pos < length (rq_list q)"
  shows "r = Some (rq_list q ! pos)" and "rq_wf q'" and "length (rq_slots q') = length (rq_slots q)"
    and "rq_list q' = remove_nth pos (rq_list q)"
proof -
  let ?s = "rq_slots q" and ?h = "rq_head q" and ?n = "rq_len q"
  have wf: "0 < length ?s" "?h < length ?s" "?n \<le> length ?s" "pos < ?n"
    using assms by (auto simp: rq_wf_def)
  have "(if pos = 0 then q\<lparr>rq_head := (?h + 1) mod length ?s, rq_len := ?n - 1\<rparr>
         else q\<lparr>rq_slots := shift_down (?n - 1 - pos) ?h pos ?s, rq_len := ?n - 1\<rparr>) = q'"
    and r: "r = Some (rq_list q ! pos)"
    using assms by (auto simp: RunQueue_take_at_def RunQueue_at_list split: if_splits)
  note q' = this(1) [symmetric]
  show "r = Some (rq_list q ! pos)" by (rule r)
  have all: "rq_wf q' \<and> length (rq_slots q') = length ?s \<and> rq_list q' = remove_nth pos (rq_list q)"
  proof (cases "pos = 0")
    case True
    then have "rq_list q = ?s ! (?h mod length ?s) # ring_slice ?s ((?h + 1) mod length ?s) (?n - 1)"
      using wf ring_slice_pop [of ?s ?h "?n - 1"] by (simp add: rq_list_def)
    with True wf show ?thesis by (auto simp: q' rq_wf_def rq_list_def remove_nth_def)
  next
    case False
    let ?L = "ring_slice ?s ?h (length ?s)"
    let ?A = "take pos ?L" and ?B = "drop (Suc pos) (take ?n ?L)"
    have "take ?n ?L = ?A @ ?L ! pos # ?B"
      using wf id_take_nth_drop [of pos "take ?n ?L"] by (simp add: min_absorb1)
    then have "?L = ?A @ ?L ! pos # ?B @ drop ?n ?L"
      using append_take_drop_id [of ?n ?L] by (metis append.assoc append_Cons)
    then have "ring_slice (shift_down (length ?B) ?h (length ?A) ?s) ?h (length ?A + length ?B) = ?A @ ?B
        \<and> length (shift_down (length ?B) ?h (length ?A) ?s) = length ?s"
      using wf by (intro shift_down_list) auto
    moreover have "take pos ?L = take pos (rq_list q)" "take ?n ?L = rq_list q"
      using wf by (simp_all add: take_ring_slice rq_list_def)
    ultimately show ?thesis
      using False wf by (auto simp: q' rq_wf_def rq_list_def remove_nth_def min_absorb1 Suc_diff_Suc)
  qed
  then show "rq_wf q'" "length (rq_slots q') = length (rq_slots q)" "rq_list q' = remove_nth pos (rq_list q)"
    by simp_all
qed

interpretation rqq: bounded_fifo
  rq_list rq_wf "\<lambda>q. length (rq_slots q)" RunQueue_push "\<lambda>q. RunQueue_take_at q 0"
proof (unfold_locales, goal_cases)
  case (1 q x r q')
  then show ?case using push_list [of q x r q'] by auto
next
  case (2 q x r q')
  then show ?case by (auto simp: RunQueue_push_def)
next
  case (3 q)
  then show ?case by (auto simp: RunQueue_take_at_def RunQueue_at_list)
next
  case (4 q x xs r q')
  then show ?case using take_at_list [of q 0 r q'] by (auto simp: remove_nth_def)
next
  case (5 q)
  then show ?case by (simp add: rq_wf_def)
qed

subsection \<open>Selection\<close>

abbreviation is_ready :: "Scheduler \<Rightarrow> nat \<Rightarrow> bool" where
  "is_ready s idx \<equiv> Scheduler_thread_state s idx = Some Ready"

fun best_of :: "Scheduler \<Rightarrow> nat \<Rightarrow> nat list \<Rightarrow> (nat \<times> 8 word) option \<Rightarrow> (nat \<times> 8 word) option" where
  "best_of s pos [] best = best"
| "best_of s pos (i # is) best =
     best_of s (pos + 1) is
       (if (case best of None \<Rightarrow> True | Some (_, bp) \<Rightarrow> prio s i > bp) then Some (pos, prio s i) else best)"

definition best_in :: "Scheduler \<Rightarrow> nat list \<Rightarrow> (nat \<times> 8 word) option \<Rightarrow> bool" where
  "best_in s xs best \<longleftrightarrow>
     (case best of
        None \<Rightarrow> xs = []
      | Some (at, p) \<Rightarrow> at < length xs \<and> p = prio s (xs ! at) \<and> (\<forall>j < at. prio s (xs ! j) < p) \<and>
          (\<forall>x \<in> set xs. prio s x \<le> p))"

lemma best_of_best:
  "best_in s ys best \<Longrightarrow> best_in s (ys @ xs) (best_of s (length ys) xs best)"
proof (induction xs arbitrary: ys best)
  case (Cons x xs)
  let ?best = "if (case best of None \<Rightarrow> True | Some (_, bp) \<Rightarrow> prio s x > bp) then Some (length ys, prio s x) else best"
  have "best_in s (ys @ [x]) ?best"
    using Cons.prems
    by (fastforce simp: best_in_def nth_append less_Suc_eq split: option.splits dest: nth_mem)
  from Cons.IH [OF this] show ?case by simp
qed simp

lemma pop_scan_list:
  assumes "rq_wf q" "pos \<le> length (rq_list q)" "pop_scan s q pos best = (q', best')"
  shows "rq_wf q' \<and> length (rq_slots q') = length (rq_slots q)
    \<and> rq_list q' = take pos (rq_list q) @ filter (is_ready s) (drop pos (rq_list q))
    \<and> best' = best_of s pos (filter (is_ready s) (drop pos (rq_list q))) best"
  using assms
proof (induction s q pos best rule: pop_scan.induct)
  case (1 s q pos best)
  show ?case
  proof (cases "pos < length (rq_list q)")
    case False
    with "1.prems" show ?thesis by (auto simp: pop_scan.simps [of s q pos] RunQueue_at_list)
  next
    case True
    define idx where "idx = rq_list q ! pos"
    have at: "RunQueue_at q pos = Some idx" using True by (simp add: RunQueue_at_list idx_def)
    have dr: "drop pos (rq_list q) = idx # drop (Suc pos) (rq_list q)"
      using True by (simp add: idx_def Cons_nth_drop_Suc)
    show ?thesis
    proof (cases "is_ready s idx")
      case False
      obtain r q1 where q1: "RunQueue_take_at q pos = (r, q1)" by (cases "RunQueue_take_at q pos")
      note t = take_at_list [OF "1.prems"(1) q1 True]
      have "take pos (rq_list q1) = take pos (rq_list q)" "drop pos (rq_list q1) = drop (Suc pos) (rq_list q)"
        "pos \<le> length (rq_list q1)"
        using True t(4) by (simp_all add: remove_nth_def)
      moreover have "pop_scan s q1 pos best = (q', best')"
        using "1.prems"(3) at False q1 by (simp add: pop_scan.simps [of s q pos])
      ultimately show ?thesis
        using "1.IH"(1) [OF at False] q1 t(2,3) False dr by simp
    next
      case ready: True
      let ?best = "if (case best of None \<Rightarrow> True | Some (_, bp) \<Rightarrow> prio s idx > bp) then Some (pos, prio s idx) else best"
      have "pop_scan s q (pos + 1) ?best = (q', best')"
        using "1.prems"(3) at ready by (simp add: pop_scan.simps [of s q pos] Let_def)
      moreover have "take (Suc pos) (rq_list q) = take pos (rq_list q) @ [idx]"
        using True by (simp add: idx_def take_Suc_conv_app_nth)
      ultimately show ?thesis
        using "1.IH"(2) [OF at _ refl refl] ready True "1.prems"(1) dr
        by simp
    qed
  qed
qed

lemma pop_ready_spec:
  assumes "rq_wf (sc_ready s)" "Scheduler_pop_ready s = (r, s')"
  defines "L \<equiv> filter (is_ready s) (rq_list (sc_ready s))"
  shows "\<exists>q. s' = s\<lparr>sc_ready := q\<rparr> \<and> rq_wf q \<and> length (rq_slots q) = length (rq_slots (sc_ready s)) \<and>
    (case r of
       None \<Rightarrow> L = [] \<and> rq_list q = []
     | Some idx \<Rightarrow> \<exists>at < length L. idx = L ! at \<and> rq_list q = remove_nth at L \<and>
         (\<forall>j < at. prio s (L ! j) < prio s idx) \<and> (\<forall>j \<in> set L. prio s j \<le> prio s idx))"
proof -
  obtain q best where ps: "pop_scan s (sc_ready s) 0 None = (q, best)" by (cases "pop_scan s (sc_ready s) 0 None")
  note sc = pop_scan_list [OF assms(1) _ ps, simplified, folded L_def]
  have "best_in s L best"
    using best_of_best [of s "[]" None L] sc by (simp add: best_in_def)
  show ?thesis
  proof (cases best)
    case None
    with \<open>best_in s L best\<close> sc ps assms(2) show ?thesis
      by (auto simp: Scheduler_pop_ready_def best_in_def)
  next
    case (Some b)
    obtain at p where b: "b = (at, p)" by (cases b)
    with Some \<open>best_in s L best\<close>
    have at: "at < length L" "p = prio s (L ! at)" "\<forall>j < at. prio s (L ! j) < p" "\<forall>x \<in> set L. prio s x \<le> p"
      by (auto simp: best_in_def)
    obtain x q1 where t: "RunQueue_take_at q at = (x, q1)" by (cases "RunQueue_take_at q at")
    have "at < length (rq_list q)" using at(1) sc by simp
    note tl = take_at_list [OF _ t this]
    from sc tl have "x = Some (L ! at)" "rq_wf q1" "length (rq_slots q1) = length (rq_slots (sc_ready s))"
      "rq_list q1 = remove_nth at L" by auto
    with at assms(2) ps t Some b show ?thesis
      by (intro exI [of _ q1]) (auto simp: Scheduler_pop_ready_def)
  qed
qed

subsection \<open>The scheduler invariant\<close>

abbreviation ring :: "Scheduler \<Rightarrow> nat list" where
  "ring s \<equiv> rq_list (sc_ready s)"

text \<open>
  \<open>ring_inv X s\<close>: the ring holds each slot at most once, names only occupied slots
  whose thread is ready or has exited, and names every ready thread outside \<open>X\<close>.
\<close>

definition ring_inv :: "nat set \<Rightarrow> Scheduler \<Rightarrow> bool" where
  "ring_inv X s \<longleftrightarrow>
     rq_wf (sc_ready s) \<and> length (rq_slots (sc_ready s)) = length (sc_threads s) \<and>
     distinct (ring s) \<and>
     (\<forall>i \<in> set (ring s). Scheduler_thread_state s i \<in> {Some Ready, Some Exited}) \<and>
     (\<forall>i. is_ready s i \<longrightarrow> i \<in> set (ring s) \<or> i \<in> X)"

definition sched_wf :: "Scheduler \<Rightarrow> bool" where
  "sched_wf s \<longleftrightarrow> ring_inv {} s \<and>
     (\<forall>c. sc_current s = Some c \<longrightarrow>
        Scheduler_thread_state s c \<in> {Some Running, Some Exited} \<and> c \<notin> set (ring s))"

lemma thread_at_update [simp]:
  "Scheduler_thread_at (update_thread s idx f) j
     = (if j = idx then map_option f (Scheduler_thread_at s idx) else Scheduler_thread_at s j)"
  by (auto simp: update_thread_def Scheduler_thread_at_def get_opt_def bind_eq_Some_conv nth_list_update
      split: option.splits)

lemma update_thread_frame [simp]:
  "sc_ready (update_thread s idx f) = sc_ready s" "sc_current (update_thread s idx f) = sc_current s"
  "length (sc_threads (update_thread s idx f)) = length (sc_threads s)"
  "sc_quantum (update_thread s idx f) = sc_quantum s"
  "sc_quantum_reset (update_thread s idx f) = sc_quantum_reset s"
  "sc_tick_limit (update_thread s idx f) = sc_tick_limit s"
  "sc_ticks (update_thread s idx f) = sc_ticks s"
  "sc_switches (update_thread s idx f) = sc_switches s"
  "sc_cpu_access (update_thread s idx f) = sc_cpu_access s"
  by (simp_all add: update_thread_def split: option.splits)

lemma thread_at_frame [simp]:
  "Scheduler_thread_at (s\<lparr>sc_ready := q\<rparr>) = Scheduler_thread_at s"
  "Scheduler_thread_at (s\<lparr>sc_current := c\<rparr>) = Scheduler_thread_at s"
  "Scheduler_thread_at (s\<lparr>sc_quantum := n\<rparr>) = Scheduler_thread_at s"
  "Scheduler_thread_at (s\<lparr>sc_ticks := n\<rparr>) = Scheduler_thread_at s"
  "Scheduler_thread_at (s\<lparr>sc_switches := n\<rparr>) = Scheduler_thread_at s"
  "Scheduler_thread_at (s\<lparr>sc_cpu_access := b\<rparr>) = Scheduler_thread_at s"
  "Scheduler_thread_at (s\<lparr>sc_trace := t\<rparr>) = Scheduler_thread_at s"
  "Scheduler_thread_at (s\<lparr>sc_next_thread_id := w\<rparr>) = Scheduler_thread_at s"
  by (simp_all add: Scheduler_thread_at_def fun_eq_iff)

lemma thread_state_Some_less: "Scheduler_thread_at s i = Some t \<Longrightarrow> i < length (sc_threads s)"
  by (auto simp: Scheduler_thread_at_def get_opt_def bind_eq_Some_conv split: if_splits)

text \<open>A free seat: a slot outside the ring leaves room on it.\<close>

lemma ring_room:
  assumes "ring_inv X s" "c < length (sc_threads s)" "c \<notin> set (ring s)"
  shows "length (ring s) < length (rq_slots (sc_ready s))"
proof -
  have "set (ring s) \<subseteq> {..<length (sc_threads s)} - {c}"
    using assms
    by (auto simp: ring_inv_def Scheduler_thread_state_def dest!: bspec intro: thread_state_Some_less)
  then have "card (set (ring s)) \<le> length (sc_threads s) - 1"
    using card_mono [of "{..<length (sc_threads s)} - {c}" "set (ring s)"] assms(2) by simp
  then show ?thesis
    using assms by (auto simp: ring_inv_def distinct_card)
qed

lemma enqueue_room:
  assumes "ring_inv X s" "c < length (sc_threads s)" "c \<notin> set (ring s)"
  shows "\<exists>q. Scheduler_enqueue s c = (True, s\<lparr>sc_ready := q\<rparr>) \<and> rq_wf q \<and>
    length (rq_slots q) = length (rq_slots (sc_ready s)) \<and> rq_list q = ring s @ [c]"
proof -
  obtain ok q where q: "RunQueue_push (sc_ready s) c = (ok, q)" by (cases "RunQueue_push (sc_ready s) c")
  moreover have "rq_wf (sc_ready s)" using assms(1) by (simp add: ring_inv_def)
  ultimately show ?thesis
    using push_list [of "sc_ready s" c ok q] ring_room [OF assms] by (auto simp: Scheduler_enqueue_def)
qed

text \<open>What a successful switch establishes.\<close>

lemma switch_to_None:
  assumes "ring_inv {} s" "\<And>c. sc_current s = Some c \<Longrightarrow> Scheduler_thread_at s c \<noteq> None"
  shows "\<exists>s'. Scheduler_switch_to s None = Some s' \<and> sched_wf s' \<and> sc_current s' = None"
  using assms
  by (auto simp: Scheduler_switch_to_def sched_wf_def ring_inv_def Let_def Scheduler_thread_state_def
      split: option.splits)

lemma switch_to_Some:
  assumes "ring_inv {idx} s" "\<And>c. sc_current s = Some c \<Longrightarrow> Scheduler_thread_at s c \<noteq> None"
    and "Scheduler_thread_at s idx \<noteq> None" "idx \<notin> set (ring s)"
  shows "\<exists>s'. Scheduler_switch_to s (Some idx) = Some s' \<and> sched_wf s' \<and> sc_current s' = Some idx
    \<and> sc_ready s' = sc_ready s"
proof -
  have "\<exists>s'. Scheduler_switch_to s (Some idx) = Some s' \<and> sc_current s' = Some idx \<and> sc_ready s' = sc_ready s
    \<and> length (sc_threads s') = length (sc_threads s)
    \<and> (\<forall>j. Scheduler_thread_state s' j = (if j = idx then Some Running else Scheduler_thread_state s j))"
    using assms(2,3)
    by (auto simp: Scheduler_switch_to_def Let_def Scheduler_thread_state_def split: option.splits)
  then obtain s' where s': "Scheduler_switch_to s (Some idx) = Some s'" "sc_current s' = Some idx"
      "sc_ready s' = sc_ready s" "length (sc_threads s') = length (sc_threads s)"
      "\<And>j. Scheduler_thread_state s' j = (if j = idx then Some Running else Scheduler_thread_state s j)"
    by blast
  then have "sched_wf s'" using assms(1,4) by (auto simp: sched_wf_def ring_inv_def)
  with s' show ?thesis by blast
qed

subsection \<open>Every operation preserves the invariant and none panics\<close>

lemma pop_ready_inv:
  assumes "ring_inv {} s" "Scheduler_pop_ready s = (r, s')"
  shows "\<exists>q. s' = s\<lparr>sc_ready := q\<rparr> \<and> ring_inv (set_option r) s' \<and>
     (\<forall>idx. r = Some idx \<longrightarrow> is_ready s idx \<and> idx \<in> set (ring s) \<and> idx \<notin> set (ring s')) \<and>
     set (ring s') \<subseteq> set (ring s)"
proof -
  let ?L = "filter (is_ready s) (ring s)"
  have wf: "rq_wf (sc_ready s)" and d: "distinct ?L" using assms(1) by (auto simp: ring_inv_def)
  obtain q where q: "s' = s\<lparr>sc_ready := q\<rparr>" "rq_wf q" "length (rq_slots q) = length (rq_slots (sc_ready s))"
    and r: "case r of None \<Rightarrow> ?L = [] \<and> rq_list q = []
          | Some idx \<Rightarrow> \<exists>at < length ?L. idx = ?L ! at \<and> rq_list q = remove_nth at ?L \<and>
              (\<forall>j < at. prio s (?L ! j) < prio s idx) \<and> (\<forall>j \<in> set ?L. prio s j \<le> prio s idx)"
    using pop_ready_spec [OF wf assms(2)] by blast
  have st: "Scheduler_thread_state s' = Scheduler_thread_state s"
    by (simp add: q(1) Scheduler_thread_state_def fun_eq_iff)
  show ?thesis
  proof (cases r)
    case None
    with r assms(1) q st show ?thesis by (auto simp: ring_inv_def filter_empty_conv)
  next
    case (Some idx)
    with r obtain at where at: "at < length ?L" "idx = ?L ! at" "rq_list q = remove_nth at ?L" by auto
    have set_q: "set (rq_list q) = set ?L - {idx}" and "distinct (rq_list q)"
      using set_remove_nth [OF d at(1)] distinct_remove_nth [OF d] at by auto
    moreover have "idx \<in> set ?L" using nth_mem [OF at(1)] by (simp only: at(2))
    ultimately show ?thesis using assms(1) Some q st by (auto simp: ring_inv_def)
  qed
qed

lemma set_current_state_inv:
  assumes "sched_wf s" "st \<noteq> Ready"
  shows "ring_inv {} (set_current_state s st)"
    and "sc_current (set_current_state s st) = sc_current s"
    and "sc_current s = Some c \<Longrightarrow> Scheduler_thread_at (set_current_state s st) c \<noteq> None"
  using assms
  by (auto simp: sched_wf_def ring_inv_def set_current_state_def Scheduler_thread_state_def split: option.splits)

text \<open>Giving up the CPU in state \<open>st\<close>: blocking and exiting share this.\<close>

lemma give_up_wf:
  assumes "sched_wf s" "st \<noteq> Ready"
    and "Scheduler_pop_ready (set_current_state s st) = (next, s1)"
  shows "\<exists>s'. Scheduler_switch_to s1 next = Some s' \<and> sched_wf s'"
proof -
  note cs = set_current_state_inv [OF assms(1,2)]
  obtain q where q: "s1 = (set_current_state s st)\<lparr>sc_ready := q\<rparr>" "ring_inv (set_option next) s1"
     "\<forall>idx. next = Some idx \<longrightarrow> is_ready (set_current_state s st) idx \<and> idx \<notin> set (ring s1)"
    using pop_ready_inv [OF cs(1) assms(3)] by blast
  have cur: "Scheduler_thread_at s1 c \<noteq> None" if "sc_current s1 = Some c" for c
    using cs(2,3) that by (simp add: q(1))
  show ?thesis
  proof (cases "next")
    case None
    with q(2) cur switch_to_None [of s1] show ?thesis by auto
  next
    case (Some idx)
    then have "Scheduler_thread_at s1 idx \<noteq> None" using q(1,3) by (auto simp: Scheduler_thread_state_def)
    with Some q(2,3) cur switch_to_Some [of idx s1] show ?thesis by auto
  qed
qed

lemma block_current_wf: "sched_wf s \<Longrightarrow> \<exists>s'. Scheduler_block_current s = Some s' \<and> sched_wf s'"
  using give_up_wf [of s Blocked]
  by (cases "Scheduler_pop_ready (set_current_state s Blocked)") (auto simp: Scheduler_block_current_def)

lemma exit_current_wf: "sched_wf s \<Longrightarrow> \<exists>s'. Scheduler_exit_current s = Some s' \<and> sched_wf s'"
  using give_up_wf [of s Exited]
  by (cases "Scheduler_pop_ready (set_current_state s Exited)") (auto simp: Scheduler_exit_current_def)

lemma handoff_wf:
  assumes "sched_wf s" "Scheduler_thread_state s target = Some Blocked"
  shows "\<exists>s'. Scheduler_handoff_to s target = Some s' \<and> sched_wf s' \<and> sc_current s' = Some target"
proof -
  note cs = set_current_state_inv [OF assms(1), of Blocked, simplified]
  have "ring_inv {target} (set_current_state s Blocked)" using cs(1) by (auto simp: ring_inv_def)
  moreover have "Scheduler_thread_at (set_current_state s Blocked) target \<noteq> None"
    using assms(2) by (auto simp: set_current_state_def Scheduler_thread_state_def split: option.splits)
  moreover have "target \<notin> set (ring (set_current_state s Blocked))"
    using assms by (auto simp: sched_wf_def ring_inv_def set_current_state_def split: option.splits)
  ultimately show ?thesis
    using switch_to_Some [of target "set_current_state s Blocked"] cs(2,3)
    by (auto simp: Scheduler_handoff_to_def)
qed

lemma yield_to_boot_wf: "sched_wf s \<Longrightarrow> \<exists>s'. Scheduler_yield_to_boot s = Some s' \<and> sched_wf s'"
  using switch_to_None [of s]
  by (fastforce simp: Scheduler_yield_to_boot_def sched_wf_def Scheduler_thread_state_def)

lemma unblock_wf:
  assumes "sched_wf s"
  shows "sched_wf (Scheduler_unblock s idx)"
    and "Scheduler_thread_state s idx = Some Blocked \<Longrightarrow>
      Scheduler_thread_state (Scheduler_unblock s idx) idx = Some Ready \<and> ring (Scheduler_unblock s idx) = ring s @ [idx]"
proof -
  let ?s = "update_thread s idx (\<lambda>t. t\<lparr>thr_state := Ready\<rparr>)"
  have "sched_wf (Scheduler_unblock s idx) \<and> (Scheduler_thread_state s idx = Some Blocked \<longrightarrow>
      Scheduler_thread_state (Scheduler_unblock s idx) idx = Some Ready \<and> ring (Scheduler_unblock s idx) = ring s @ [idx])"
  proof (cases "Scheduler_thread_state s idx = Some Blocked")
    case True
    then have nr: "idx \<notin> set (ring s)" "sc_current s \<noteq> Some idx" and lt: "idx < length (sc_threads s)"
      using assms by (auto simp: sched_wf_def ring_inv_def Scheduler_thread_state_def intro: thread_state_Some_less)
    have ri: "ring_inv {idx} ?s"
      using assms True by (auto simp: sched_wf_def ring_inv_def Scheduler_thread_state_def)
    obtain q where q: "Scheduler_enqueue ?s idx = (True, ?s\<lparr>sc_ready := q\<rparr>)" "rq_wf q"
       "length (rq_slots q) = length (rq_slots (sc_ready s))" "rq_list q = ring s @ [idx]"
      using enqueue_room [OF ri] nr lt by auto
    then have "Scheduler_unblock s idx = ?s\<lparr>sc_ready := q\<rparr>"
      using True by (simp add: Scheduler_unblock_def)
    with q ri nr assms True show ?thesis
      by (auto simp: sched_wf_def ring_inv_def Scheduler_thread_state_def)
  qed (use assms in \<open>simp add: Scheduler_unblock_def\<close>)
  then show "sched_wf (Scheduler_unblock s idx)"
    "Scheduler_thread_state s idx = Some Blocked \<Longrightarrow>
      Scheduler_thread_state (Scheduler_unblock s idx) idx = Some Ready \<and> ring (Scheduler_unblock s idx) = ring s @ [idx]"
    by blast+
qed

lemma terminate_wf: "sched_wf s \<Longrightarrow> sched_wf (Scheduler_terminate s idx)"
  by (auto simp: sched_wf_def ring_inv_def Scheduler_terminate_def Scheduler_thread_state_def)

lemma set_priority_wf: "sched_wf s \<Longrightarrow> sched_wf (Scheduler_set_thread_priority s idx p)"
  by (auto simp: sched_wf_def ring_inv_def Scheduler_set_thread_priority_def Scheduler_thread_state_def)

lemma set_correlation_wf: "sched_wf s \<Longrightarrow> sched_wf (Scheduler_set_thread_correlation s idx c)"
  by (auto simp: sched_wf_def ring_inv_def Scheduler_set_thread_correlation_def Scheduler_thread_state_def Let_def)

lemma thread_at_clear:
  "Scheduler_thread_at (s\<lparr>sc_threads := (sc_threads s)[idx := v]\<rparr>) j
     = (if j = idx \<and> idx < length (sc_threads s) then v else Scheduler_thread_at s j)"
  by (auto simp: Scheduler_thread_at_def get_opt_def)

lemma thread_at_clear_None:
  "Scheduler_thread_at (s\<lparr>sc_threads := (sc_threads s)[idx := None]\<rparr>) j
     = (if j = idx then None else Scheduler_thread_at s j)"
  unfolding thread_at_clear by (auto simp: Scheduler_thread_at_def get_opt_def)

lemma reap_wf:
  assumes "sched_wf s" "Scheduler_reap s idx = (r, s')"
  shows "sched_wf s'" and "sc_current s \<noteq> Some idx \<Longrightarrow> r = Scheduler_thread_at s idx \<and> Scheduler_thread_at s' idx = None"
proof -
  obtain b q where q: "RunQueue_remove (sc_ready s) idx = (b, q)" by (cases "RunQueue_remove (sc_ready s) idx")
  have "rq_wf (sc_ready s)" using assms(1) by (simp add: sched_wf_def ring_inv_def)
  note rl = remove_list [OF this q]
  have s': "sc_current s \<noteq> Some idx \<Longrightarrow> r = Scheduler_thread_at s idx
      \<and> s' = s\<lparr>sc_ready := q, sc_threads := (sc_threads s)[idx := None]\<rparr>"
    "sc_current s = Some idx \<Longrightarrow> s' = s"
    using assms(2) q by (auto simp: Scheduler_reap_def Let_def)
  show "sched_wf s'"
  proof (cases "sc_current s = Some idx")
    case False
    have at: "Scheduler_thread_at s' j = (if j = idx then None else Scheduler_thread_at s j)" for j
      using s'(1) [OF False] thread_at_clear_None [of "s\<lparr>sc_ready := q\<rparr>" idx j] by simp
    have "sc_ready s' = q" "sc_current s' = sc_current s" "length (sc_threads s') = length (sc_threads s)"
      using s'(1) [OF False] by simp_all
    with assms(1) rl False show ?thesis
      by (auto simp: sched_wf_def ring_inv_def Scheduler_thread_state_def at)
  qed (use s' assms in simp)
  show "r = Scheduler_thread_at s idx \<and> Scheduler_thread_at s' idx = None" if "sc_current s \<noteq> Some idx"
    using s'(1) [OF that] by (simp add: Scheduler_thread_at_def get_opt_def)
qed

lemma add_thread_wf:
  assumes "sched_wf s" "Scheduler_add_thread cpu child s t = (r, s')"
  shows "sched_wf s'" and "r = Ok idx \<Longrightarrow> ring s' = ring s @ [idx] \<and> Scheduler_thread_at s idx = None \<and>
     Scheduler_thread_state s' idx = Some Ready"
    and "r = Err e \<Longrightarrow> s' = s"
proof -
  have "sched_wf s' \<and> (case r of Ok i \<Rightarrow> ring s' = ring s @ [i] \<and> Scheduler_thread_at s i = None \<and>
     Scheduler_thread_state s' i = Some Ready | Err e \<Rightarrow> s' = s)"
  proof (cases "free_slot (sc_threads s)")
    case None
    with assms show ?thesis by (auto simp: Scheduler_add_thread_def)
  next
    case (Some i)
    note i = free_slotD [OF Some]
    show ?thesis
    proof (cases "drop_bit ThreadId_CPU_SHIFT (sc_next_thread_id s) \<noteq> 0")
      case True
      with Some assms show ?thesis by (auto simp: Scheduler_add_thread_def Scheduler_mint_thread_id_def Let_def)
    next
      case False
      define tid where "tid = push_bit ThreadId_CPU_SHIFT (ucast cpu) OR sc_next_thread_id s"
      let ?t = "t\<lparr>thr_id := tid, thr_state := Ready, thr_correlation := child\<rparr>"
      let ?s = "s\<lparr>sc_next_thread_id := sc_next_thread_id s + 1\<rparr>"
      let ?s2 = "?s\<lparr>sc_threads := (sc_threads s)[i := Some ?t]\<rparr>"
      have at_i: "Scheduler_thread_at s i = None" using i by (simp add: Scheduler_thread_at_def get_opt_def)
      then have nr: "i \<notin> set (ring s)" "sc_current s \<noteq> Some i"
        using assms(1) by (auto simp: sched_wf_def ring_inv_def Scheduler_thread_state_def)
      have at2: "Scheduler_thread_at ?s2 j = (if j = i then Some ?t else Scheduler_thread_at s j)" for j
        using i thread_at_clear [of ?s i "Some ?t" j] by simp
      obtain ok q where q: "RunQueue_push (sc_ready s) i = (ok, q)" by (cases "RunQueue_push (sc_ready s) i")
      have "length (ring s) < length (rq_slots (sc_ready s))"
        using ring_room [of "{}" s i] assms(1) i nr by (simp add: sched_wf_def)
      moreover have "rq_wf (sc_ready s)" using assms(1) by (simp add: sched_wf_def ring_inv_def)
      ultimately have pl: "ok" "rq_wf q" "length (rq_slots q) = length (rq_slots (sc_ready s))" "rq_list q = ring s @ [i]"
        using push_list [OF _ q] by auto
      have rs: "r = Ok i" "s' = ?s2\<lparr>sc_ready := q\<rparr>"
        using assms(2) Some False q pl(1)
        by (auto simp: Scheduler_add_thread_def Scheduler_mint_thread_id_def Let_def tid_def)
      have "sched_wf s'"
        using assms(1) pl nr i
        by (auto simp: rs sched_wf_def ring_inv_def Scheduler_thread_state_def at2)
      with rs pl at_i show ?thesis by (simp add: Scheduler_thread_state_def at2)
    qed
  qed
  then show "sched_wf s'" "r = Ok idx \<Longrightarrow> ring s' = ring s @ [idx] \<and> Scheduler_thread_at s idx = None \<and>
     Scheduler_thread_state s' idx = Some Ready" "r = Err e \<Longrightarrow> s' = s"
    by auto
qed

lemma run_wf: "sched_wf s \<Longrightarrow> \<exists>s'. Scheduler_run s = Some s' \<and> sched_wf s'"
proof -
  assume wf: "sched_wf s"
  obtain r s1 where p: "Scheduler_pop_ready s = (r, s1)" by (cases "Scheduler_pop_ready s")
  obtain q where q: "s1 = s\<lparr>sc_ready := q\<rparr>" "ring_inv (set_option r) s1"
     "\<forall>idx. r = Some idx \<longrightarrow> is_ready s idx \<and> idx \<notin> set (ring s1)" "set (ring s1) \<subseteq> set (ring s)"
    using pop_ready_inv [OF _ p] wf by (auto simp: sched_wf_def)
  show ?thesis
  proof (cases r)
    case None
    with p q wf show ?thesis by (auto simp: Scheduler_run_def sched_wf_def Scheduler_thread_state_def)
  next
    case (Some idx)
    let ?s = "s1\<lparr>sc_quantum := sc_quantum_reset s1\<rparr>"
    have "ring_inv {idx} ?s" using q(2) Some by (simp add: ring_inv_def Scheduler_thread_state_def)
    moreover have "Scheduler_thread_at ?s c \<noteq> None" if "sc_current ?s = Some c" for c
      using wf that q(1) by (auto simp: sched_wf_def Scheduler_thread_state_def)
    moreover have "Scheduler_thread_at ?s idx \<noteq> None" "idx \<notin> set (ring ?s)"
      using q(1,3) Some by (auto simp: Scheduler_thread_state_def)
    ultimately show ?thesis
      using switch_to_Some [of idx ?s] p Some by (auto simp: Scheduler_run_def)
  qed
qed

lemma requeue_current_inv:
  assumes "ring_inv X s" "sc_current s = Some c" "Scheduler_thread_at s c \<noteq> None" "c \<notin> set (ring s)"
  shows "\<exists>q. Scheduler_requeue_current s = (update_thread s c (\<lambda>t. t\<lparr>thr_state := Ready\<rparr>))\<lparr>sc_ready := q\<rparr>
    \<and> ring_inv X (Scheduler_requeue_current s) \<and> ring (Scheduler_requeue_current s) = ring s @ [c]"
proof -
  let ?s = "update_thread s c (\<lambda>t. t\<lparr>thr_state := Ready\<rparr>)"
  have ri: "ring_inv (insert c X) ?s"
    using assms by (auto simp: ring_inv_def Scheduler_thread_state_def)
  have "c < length (sc_threads s)" using assms(3) thread_state_Some_less by blast
  then obtain q where q: "Scheduler_enqueue ?s c = (True, ?s\<lparr>sc_ready := q\<rparr>)" "rq_wf q"
     "length (rq_slots q) = length (rq_slots (sc_ready s))" "rq_list q = ring s @ [c]"
    using enqueue_room [OF ri] assms(4) by auto
  then have eq: "Scheduler_requeue_current s = ?s\<lparr>sc_ready := q\<rparr>"
    using assms(2) by (simp add: Scheduler_requeue_current_def)
  have "ring_inv X (?s\<lparr>sc_ready := q\<rparr>)"
    using ri q assms by (auto simp: ring_inv_def Scheduler_thread_state_def)
  with eq q show ?thesis by auto
qed

text \<open>Requeueing the current thread and switching away, from a state a pop produced.\<close>

lemma requeue_switch_wf:
  assumes "ring_inv (set_option next) s"
    and "\<And>c. sc_current s = Some c \<Longrightarrow> Scheduler_thread_at s c \<noteq> None \<and> c \<notin> set (ring s) \<and> next \<noteq> Some c"
    and "\<And>i. next = Some i \<Longrightarrow> Scheduler_thread_at s i \<noteq> None \<and> i \<notin> set (ring s)"
  shows "\<exists>s'. Scheduler_switch_to (Scheduler_requeue_current s) next = Some s' \<and> sched_wf s' \<and> sc_current s' = next
    \<and> (next \<noteq> None \<longrightarrow> ring s' = ring s @ (case sc_current s of None \<Rightarrow> [] | Some c \<Rightarrow> [c]))"
proof -
  let ?r = "Scheduler_requeue_current s"
  have r: "ring_inv (set_option next) ?r" "\<And>c. sc_current ?r = Some c \<Longrightarrow> Scheduler_thread_at ?r c \<noteq> None"
     "\<And>i. next = Some i \<Longrightarrow> Scheduler_thread_at ?r i \<noteq> None \<and> i \<notin> set (ring ?r)"
     "ring ?r = ring s @ (case sc_current s of None \<Rightarrow> [] | Some c \<Rightarrow> [c])"
  proof -
    have "ring_inv (set_option next) ?r \<and> (\<forall>c. sc_current ?r = Some c \<longrightarrow> Scheduler_thread_at ?r c \<noteq> None)
      \<and> (\<forall>i. next = Some i \<longrightarrow> Scheduler_thread_at ?r i \<noteq> None \<and> i \<notin> set (ring ?r))
      \<and> ring ?r = ring s @ (case sc_current s of None \<Rightarrow> [] | Some c \<Rightarrow> [c])"
    proof (cases "sc_current s")
      case None
      with assms show ?thesis by (simp add: Scheduler_requeue_current_def)
    next
      case (Some c)
      with assms(2) have c: "Scheduler_thread_at s c \<noteq> None" "c \<notin> set (ring s)" "next \<noteq> Some c" by auto
      obtain q where q: "?r = (update_thread s c (\<lambda>t. t\<lparr>thr_state := Ready\<rparr>))\<lparr>sc_ready := q\<rparr>"
          "ring_inv (set_option next) ?r" "ring ?r = ring s @ [c]"
        using requeue_current_inv [OF assms(1) Some c(1,2)] by blast
      have "\<forall>j. Scheduler_thread_at ?r j \<noteq> None \<longleftrightarrow> Scheduler_thread_at s j \<noteq> None" "sc_current ?r = Some c"
        using Some by (simp_all add: q(1))
      then show ?thesis using q(2,3) c assms(3) Some by auto
    qed
    then show "ring_inv (set_option next) ?r" "\<And>c. sc_current ?r = Some c \<Longrightarrow> Scheduler_thread_at ?r c \<noteq> None"
     "\<And>i. next = Some i \<Longrightarrow> Scheduler_thread_at ?r i \<noteq> None \<and> i \<notin> set (ring ?r)"
     "ring ?r = ring s @ (case sc_current s of None \<Rightarrow> [] | Some c \<Rightarrow> [c])"
      by blast+
  qed
  show ?thesis
  proof (cases "next")
    case None
    with r switch_to_None [of ?r] show ?thesis by auto
  next
    case (Some i)
    with r switch_to_Some [of i ?r] show ?thesis by force
  qed
qed

lemma on_tick_wf:
  assumes "sched_wf s"
  shows "\<exists>s'. Scheduler_on_tick s = Some s' \<and> sched_wf s'"
proof -
  let ?s = "s\<lparr>sc_ticks := sc_ticks s + 1\<rparr>"
  have wf: "sched_wf ?s" using assms by (simp add: sched_wf_def ring_inv_def Scheduler_thread_state_def)
  consider (limit) "sc_tick_limit s \<noteq> 0 \<and> sc_ticks s + 1 \<ge> sc_tick_limit s"
    | (slice) "\<not> (sc_tick_limit s \<noteq> 0 \<and> sc_ticks s + 1 \<ge> sc_tick_limit s)" "sc_quantum s > 1"
    | (rotate) "\<not> (sc_tick_limit s \<noteq> 0 \<and> sc_ticks s + 1 \<ge> sc_tick_limit s)" "\<not> sc_quantum s > 1" by blast
  then show ?thesis
  proof cases
    case limit
    then have "Scheduler_on_tick s = Scheduler_switch_to (Scheduler_requeue_current ?s) None"
      by (simp add: Scheduler_on_tick_def Let_def)
    with wf requeue_switch_wf [of None ?s] show ?thesis
      by (fastforce simp: sched_wf_def Scheduler_thread_state_def)
  next
    case slice
    then have "Scheduler_on_tick s = Some (?s\<lparr>sc_quantum := sc_quantum s - 1\<rparr>)"
      by (auto simp: Scheduler_on_tick_def Let_def)
    moreover have "sched_wf (?s\<lparr>sc_quantum := sc_quantum s - 1\<rparr>)"
      using wf by (simp add: sched_wf_def ring_inv_def Scheduler_thread_state_def)
    ultimately show ?thesis by blast
  next
    case rotate
    let ?s1 = "?s\<lparr>sc_quantum := sc_quantum_reset s\<rparr>"
    have wf1: "sched_wf ?s1" using wf by (simp add: sched_wf_def ring_inv_def Scheduler_thread_state_def)
    obtain r s2 where p: "Scheduler_pop_ready ?s1 = (r, s2)" by (cases "Scheduler_pop_ready ?s1")
    obtain q where q: "s2 = ?s1\<lparr>sc_ready := q\<rparr>" "ring_inv (set_option r) s2"
       "\<forall>idx. r = Some idx \<longrightarrow> is_ready ?s1 idx \<and> idx \<in> set (ring ?s1) \<and> idx \<notin> set (ring s2)"
       "set (ring s2) \<subseteq> set (ring ?s1)"
      using pop_ready_inv [OF _ p] wf1 by (auto simp: sched_wf_def)
    have eq: "Scheduler_on_tick s =
        (case r of None \<Rightarrow> Some s2 | Some i \<Rightarrow> Scheduler_switch_to (Scheduler_requeue_current s2) (Some i))"
      using rotate p by (auto simp: Scheduler_on_tick_def Let_def split: option.splits)
    show ?thesis
    proof (cases r)
      case None
      with eq q wf1 show ?thesis by (auto simp: sched_wf_def Scheduler_thread_state_def)
    next
      case (Some i)
      have "Scheduler_thread_at s2 c \<noteq> None \<and> c \<notin> set (ring s2) \<and> r \<noteq> Some c" if "sc_current s2 = Some c" for c
        using wf1 that q Some by (auto simp: sched_wf_def Scheduler_thread_state_def)
      moreover have "Scheduler_thread_at s2 i \<noteq> None \<and> i \<notin> set (ring s2)"
        using q(1,3) Some by (auto simp: Scheduler_thread_state_def)
      ultimately show ?thesis
        using requeue_switch_wf [of r s2] q(2) eq Some by auto
    qed
  qed
qed

lemma Scheduler_new_wf: "0 < n \<Longrightarrow> sched_wf (Scheduler_new n quantum limit)"
  by (auto simp: sched_wf_def ring_inv_def Scheduler_new_def RunQueue_new_def rq_list_def rq_wf_def
      Scheduler_thread_state_def Scheduler_thread_at_def get_opt_def)

subsection \<open>Executions\<close>

text \<open>
  One entry into the scheduler. \<open>H\<close> says which handoffs a run makes: the function itself
  accepts any slot, and its panic is that of a switch to an empty one.
\<close>

inductive sched_step :: "(Scheduler \<Rightarrow> nat \<Rightarrow> bool) \<Rightarrow> Scheduler \<Rightarrow> Scheduler \<Rightarrow> bool" for H where
  add: "Scheduler_add_thread cpu child s t = (r, s') \<Longrightarrow> sched_step H s s'"
| run: "Scheduler_run s = Some s' \<Longrightarrow> sched_step H s s'"
| block: "Scheduler_block_current s = Some s' \<Longrightarrow> sched_step H s s'"
| handoff: "H s target \<Longrightarrow> Scheduler_handoff_to s target = Some s' \<Longrightarrow> sched_step H s s'"
| yield: "Scheduler_yield_to_boot s = Some s' \<Longrightarrow> sched_step H s s'"
| unblock: "sched_step H s (Scheduler_unblock s idx)"
| wake: "Scheduler_unblock_thread s idx tid = (b, s') \<Longrightarrow> sched_step H s s'"
| exit: "Scheduler_exit_current s = Some s' \<Longrightarrow> sched_step H s s'"
| terminate: "sched_step H s (Scheduler_terminate s idx)"
| reap: "Scheduler_reap s idx = (t', s') \<Longrightarrow> sched_step H s s'"
| priority: "sched_step H s (Scheduler_set_thread_priority s idx p)"
| correlation: "sched_step H s (Scheduler_set_thread_correlation s idx c)"
| tick: "Scheduler_on_tick s = Some s' \<Longrightarrow> sched_step H s s'"

inductive_cases sched_stepE: "sched_step H s s'"

text \<open>Handoffs to a slot that holds a thread, to a parked thread, and to a thread other than \<open>idx\<close>.\<close>

definition to_thread :: "Scheduler \<Rightarrow> nat \<Rightarrow> bool" where
  "to_thread s target \<longleftrightarrow> Scheduler_thread_at s target \<noteq> None"

definition to_parked :: "Scheduler \<Rightarrow> nat \<Rightarrow> bool" where
  "to_parked s target \<longleftrightarrow> Scheduler_thread_state s target = Some Blocked"

definition to_other :: "nat \<Rightarrow> Scheduler \<Rightarrow> nat \<Rightarrow> bool" where
  "to_other idx s target \<longleftrightarrow> target \<noteq> idx \<and> Scheduler_thread_at s target \<noteq> None"

lemma to_parked_thread: "to_parked s target \<Longrightarrow> to_thread s target"
  by (auto simp: to_parked_def to_thread_def Scheduler_thread_state_def)

lemma sched_step_mono:
  assumes "sched_step H s s'" "\<And>s target. H s target \<Longrightarrow> H' s target"
  shows "sched_step H' s s'"
  using assms by (induction rule: sched_step.induct) (auto intro: sched_step.intros)

lemma sched_step_wf: "sched_step to_parked s s' \<Longrightarrow> sched_wf s \<Longrightarrow> sched_wf s'"
proof (induction rule: sched_step.induct)
  case add then show ?case using add_thread_wf(1) by blast
next
  case run then show ?case using run_wf by fastforce
next
  case block then show ?case using block_current_wf by fastforce
next
  case handoff then show ?case using handoff_wf by (fastforce simp: to_parked_def)
next
  case yield then show ?case using yield_to_boot_wf by fastforce
next
  case unblock then show ?case by (rule unblock_wf(1))
next
  case (wake s idx tid b s')
  then show ?case using unblock_wf(1) by (auto simp: Scheduler_unblock_thread_def split: if_splits)
next
  case exit then show ?case using exit_current_wf by fastforce
next
  case terminate then show ?case by (rule terminate_wf)
next
  case reap then show ?case using reap_wf(1) by blast
next
  case priority then show ?case by (rule set_priority_wf)
next
  case correlation then show ?case by (rule set_correlation_wf)
next
  case tick then show ?case using on_tick_wf by fastforce
qed

lemma sched_reachable_wf:
  assumes "(sched_step to_parked)\<^sup>*\<^sup>* (Scheduler_new n quantum limit) s" "0 < n"
  shows "sched_wf s"
  using assms(1) by (induction rule: rtranclp_induct) (auto intro: sched_step_wf Scheduler_new_wf [OF assms(2)])

subsection \<open>Runs with any handoff\<close>

text \<open>
  What survives a handoff to any thread, ready ones included, which can leave a slot on the
  ring twice: the ring is well formed and the current slot is occupied (\<open>sched_safe\<close>), and a
  thread that has exited and is not running stays so (\<open>dead\<close>), unless its slot is reaped or
  it is handed the CPU itself.
\<close>

definition sched_safe :: "Scheduler \<Rightarrow> bool" where
  "sched_safe s \<longleftrightarrow> rq_wf (sc_ready s) \<and> (\<forall>c. sc_current s = Some c \<longrightarrow> Scheduler_thread_at s c \<noteq> None)"

definition dead :: "nat \<Rightarrow> ThreadId \<Rightarrow> Scheduler \<Rightarrow> bool" where
  "dead idx tid s \<longleftrightarrow> Scheduler_thread_state s idx = Some Exited \<and> Scheduler_thread_id s idx = Some tid \<and>
     sc_current s \<noteq> Some idx"

definition carries :: "nat set \<Rightarrow> Scheduler \<Rightarrow> Scheduler \<Rightarrow> bool" where
  "carries X s s' \<longleftrightarrow> sched_safe s' \<and> (\<forall>idx tid. idx \<notin> X \<longrightarrow> dead idx tid s \<longrightarrow> dead idx tid s')"

lemmas carries_simps = carries_def sched_safe_def dead_def Scheduler_thread_state_def Scheduler_thread_id_def

lemma carries_clock [simp]:
  "carries X s (s1\<lparr>sc_quantum := n\<rparr>) = carries X s s1" "carries X s (s1\<lparr>sc_ticks := n\<rparr>) = carries X s s1"
  by (simp_all add: carries_simps)

lemma carries_refl: "sched_safe s \<Longrightarrow> carries X s s"
  by (simp add: carries_def)

lemma switch_carries:
  assumes "sched_safe s" "\<And>i. next = Some i \<Longrightarrow> Scheduler_thread_at s i \<noteq> None"
  shows "\<exists>s'. Scheduler_switch_to s next = Some s' \<and> carries (set_option next) s s'"
  using assms by (auto simp: Scheduler_switch_to_def Let_def carries_simps split: option.splits)

lemma ready_switch_carries:
  assumes "carries {} s s1" "\<And>i. next = Some i \<Longrightarrow> Scheduler_thread_at s1 i \<noteq> None \<and> (\<forall>tid. \<not> dead i tid s)"
  shows "\<exists>s'. Scheduler_switch_to s1 next = Some s' \<and> carries {} s s'"
proof -
  have "sched_safe s1" using assms(1) by (simp add: carries_def)
  from switch_carries [OF this, of "next"] assms(2)
  obtain s' where s': "Scheduler_switch_to s1 next = Some s'" "carries (set_option next) s1 s'" by blast
  have "carries {} s s'"
    using assms s'(2) unfolding carries_def by (cases "next") (simp, metis Un_iff elem_set option.sel)
  with s'(1) show ?thesis by blast
qed

lemma pop_ready_carries:
  assumes "sched_safe s" "Scheduler_pop_ready s = (r, s')"
  shows "carries {} s s'" and "r = Some i \<Longrightarrow> Scheduler_thread_at s' i \<noteq> None \<and> \<not> dead i tid s"
proof -
  let ?L = "filter (is_ready s) (ring s)"
  have "rq_wf (sc_ready s)" using assms(1) by (simp add: sched_safe_def)
  from pop_ready_spec [OF this assms(2)] obtain q where q: "s' = s\<lparr>sc_ready := q\<rparr>" "rq_wf q"
    "r = Some i \<Longrightarrow> \<exists>at < length ?L. i = ?L ! at" for i by (cases r) auto
  then show "carries {} s s'" using assms(1) by (simp add: carries_simps)
  show "Scheduler_thread_at s' i \<noteq> None \<and> \<not> dead i tid s" if "r = Some i"
  proof -
    have "i \<in> set ?L" using q(3) [OF that] nth_mem by blast
    then show ?thesis using q(1) by (auto simp: dead_def Scheduler_thread_state_def)
  qed
qed

lemma set_current_carries: "sched_safe s \<Longrightarrow> carries {} s (set_current_state s st)"
  by (auto simp: carries_simps set_current_state_def split: option.splits)

lemma enqueue_safe: "rq_wf (sc_ready s) \<Longrightarrow> Scheduler_enqueue s i = (ok, s') \<Longrightarrow> \<exists>q. s' = s\<lparr>sc_ready := q\<rparr> \<and> rq_wf q"
  using push_list(1) [of "sc_ready s" i] by (auto simp: Scheduler_enqueue_def split: prod.splits)

lemma requeue_carries:
  assumes "sched_safe s"
  shows "carries {} s (Scheduler_requeue_current s)"
    and "Scheduler_thread_at (Scheduler_requeue_current s) i = None \<longleftrightarrow> Scheduler_thread_at s i = None"
proof -
  have "carries {} s (Scheduler_requeue_current s) \<and>
    (Scheduler_thread_at (Scheduler_requeue_current s) i = None \<longleftrightarrow> Scheduler_thread_at s i = None)"
  proof (cases "sc_current s")
    case (Some c)
    let ?s = "update_thread s c (\<lambda>t. t\<lparr>thr_state := Ready\<rparr>)"
    obtain ok s1 where e: "Scheduler_enqueue ?s c = (ok, s1)" by fastforce
    with enqueue_safe [of ?s c ok s1] assms obtain q where "s1 = ?s\<lparr>sc_ready := q\<rparr>" "rq_wf q"
      by (auto simp: sched_safe_def)
    with Some e assms show ?thesis by (auto simp: carries_simps Scheduler_requeue_current_def)
  qed (use assms in \<open>simp add: Scheduler_requeue_current_def carries_def\<close>)
  then show "carries {} s (Scheduler_requeue_current s)"
    "Scheduler_thread_at (Scheduler_requeue_current s) i = None \<longleftrightarrow> Scheduler_thread_at s i = None" by auto
qed

lemma carries_trans: "carries X s s1 \<Longrightarrow> carries X s1 s2 \<Longrightarrow> carries X s s2"
  by (simp add: carries_def)

lemma give_up_carries:
  assumes "sched_safe s" "Scheduler_pop_ready (set_current_state s st) = (next, s1)"
  shows "\<exists>s'. Scheduler_switch_to s1 next = Some s' \<and> carries {} s s'"
proof -
  let ?s = "set_current_state s st"
  have c: "carries {} s ?s" by (rule set_current_carries [OF assms(1)])
  then have "sched_safe ?s" by (simp add: carries_def)
  note p = pop_ready_carries [OF this assms(2)]
  obtain s' where "Scheduler_switch_to s1 next = Some s'" "carries {} ?s s'"
    using ready_switch_carries [OF p(1), of "next"] p(2) by blast
  with carries_trans [OF c] show ?thesis by blast
qed

lemma block_carries: "sched_safe s \<Longrightarrow> \<exists>s'. Scheduler_block_current s = Some s' \<and> carries {} s s'"
  using give_up_carries [of s Blocked]
  by (cases "Scheduler_pop_ready (set_current_state s Blocked)") (auto simp: Scheduler_block_current_def)

lemma exit_carries: "sched_safe s \<Longrightarrow> \<exists>s'. Scheduler_exit_current s = Some s' \<and> carries {} s s'"
  using give_up_carries [of s Exited]
  by (cases "Scheduler_pop_ready (set_current_state s Exited)") (auto simp: Scheduler_exit_current_def)

lemma yield_carries: "sched_safe s \<Longrightarrow> \<exists>s'. Scheduler_yield_to_boot s = Some s' \<and> carries {} s s'"
  using switch_carries [of s None] by (simp add: Scheduler_yield_to_boot_def)

lemma run_carries:
  assumes "sched_safe s"
  shows "\<exists>s'. Scheduler_run s = Some s' \<and> carries {} s s'"
proof -
  obtain r s1 where p: "Scheduler_pop_ready s = (r, s1)" by fastforce
  note c = pop_ready_carries [OF assms p]
  then show ?thesis
    using ready_switch_carries [of s "s1\<lparr>sc_quantum := sc_quantum_reset s1\<rparr>" r] c p
    by (cases r) (auto simp: Scheduler_run_def)
qed

lemma on_tick_carries:
  assumes "sched_safe s"
  shows "\<exists>s'. Scheduler_on_tick s = Some s' \<and> carries {} s s'"
proof -
  let ?s = "s\<lparr>sc_ticks := sc_ticks s + 1\<rparr>"
  have c: "carries {} s (?s\<lparr>sc_quantum := n\<rparr>)" "carries {} s ?s" for n using carries_refl [OF assms] by simp_all
  then have safe: "sched_safe (?s\<lparr>sc_quantum := n\<rparr>)" "sched_safe ?s" for n by (simp_all add: carries_def)
  have limit: "\<exists>s'. Scheduler_switch_to (Scheduler_requeue_current ?s) None = Some s' \<and> carries {} s s'"
    by (rule ready_switch_carries [OF carries_trans [OF c(2) requeue_carries(1) [OF safe(2)]]]) simp
  let ?s1 = "?s\<lparr>sc_quantum := sc_quantum_reset s\<rparr>"
  obtain r s2 where p: "Scheduler_pop_ready ?s1 = (r, s2)" by fastforce
  note q = pop_ready_carries [OF safe(1) p]
  have safe2: "sched_safe s2" using q(1) by (simp add: carries_def)
  have s2: "carries {} s s2" by (rule carries_trans [OF c(1) q(1)])
  have dead: "\<not> dead i tid s" if "r = Some i" for i tid using q(2) [OF that] c(1) by (auto simp: carries_def)
  have "\<exists>s'. Scheduler_switch_to (Scheduler_requeue_current s2) r = Some s' \<and> carries {} s s'"
    by (rule ready_switch_carries [OF carries_trans [OF s2 requeue_carries(1) [OF safe2]]])
      (use q(2) dead requeue_carries(2) [OF safe2] in auto)
  with limit s2 c p show ?thesis
    by (cases r) (auto simp: Scheduler_on_tick_def Let_def)
qed

lemma handoff_carries:
  assumes "sched_safe s" "to_thread s target"
  shows "\<exists>s'. Scheduler_handoff_to s target = Some s' \<and> carries {target} s s'"
proof -
  let ?s = "set_current_state s Blocked"
  have c: "carries {} s ?s" by (rule set_current_carries [OF assms(1)])
  moreover have "Scheduler_thread_at ?s target \<noteq> None"
    using assms(2) by (auto simp: to_thread_def set_current_state_def split: option.splits)
  ultimately obtain s' where "Scheduler_switch_to ?s (Some target) = Some s'" "carries {target} ?s s'"
    using switch_carries [of ?s "Some target"] by (auto simp: carries_def)
  with c show ?thesis by (auto simp: Scheduler_handoff_to_def carries_def)
qed

lemma unblock_carries:
  assumes "sched_safe s"
  shows "carries {} s (Scheduler_unblock s idx)"
proof (cases "Scheduler_thread_state s idx = Some Blocked")
  case True
  let ?s = "update_thread s idx (\<lambda>t. t\<lparr>thr_state := Ready\<rparr>)"
  obtain ok s1 where e: "Scheduler_enqueue ?s idx = (ok, s1)" by fastforce
  with enqueue_safe [of ?s idx ok s1] assms obtain q where "s1 = ?s\<lparr>sc_ready := q\<rparr>" "rq_wf q"
    by (auto simp: sched_safe_def)
  with True e assms show ?thesis by (cases ok) (auto simp: carries_simps Scheduler_unblock_def)
qed (use assms in \<open>simp add: Scheduler_unblock_def carries_def\<close>)

lemma reap_carries:
  assumes "sched_safe s" "Scheduler_reap s idx = (r, s')"
  shows "carries {idx} s s'"
proof (cases "sc_current s = Some idx")
  case False
  have "rq_wf (snd (RunQueue_remove (sc_ready s) idx))"
    using remove_list(1) [of "sc_ready s" idx] assms(1) by (simp add: sched_safe_def prod_eq_iff)
  then show ?thesis using False assms
    by (auto simp: Scheduler_reap_def Let_def carries_simps thread_at_clear_None [of "s\<lparr>sc_ready := q\<rparr>" for q, simplified])
qed (use assms in \<open>simp add: Scheduler_reap_def carries_def\<close>)

lemma reap_vacates:
  assumes "Scheduler_reap s idx = (r, s')" "sc_current s \<noteq> Some idx"
  shows "Scheduler_thread_at s' idx = None"
proof -
  have "s' = snd (Scheduler_reap s idx)" using assms(1) by simp
  then show ?thesis using assms(2)
    by (simp add: Scheduler_reap_def Let_def thread_at_clear_None [of "s\<lparr>sc_ready := q\<rparr>" for q, simplified])
qed

lemma add_thread_carries:
  assumes "sched_safe s" "Scheduler_add_thread cpu child s t = (r, s')"
  shows "carries {} s s'"
proof (cases "free_slot (sc_threads s)")
  case None
  with assms show ?thesis by (simp add: Scheduler_add_thread_def carries_def)
next
  case (Some i)
  obtain g s1 where g: "Scheduler_mint_thread_id cpu s = (g, s1)" by fastforce
  then have s1: "carries {} s s1" "Scheduler_thread_at s1 = Scheduler_thread_at s"
      "sc_ready s1 = sc_ready s" "sc_current s1 = sc_current s"
    using assms(1) by (auto simp: Scheduler_mint_thread_id_def Let_def carries_simps split: if_splits)
  have at: "Scheduler_thread_at s i = None" using free_slotD [OF Some] by (simp add: Scheduler_thread_at_def get_opt_def)
  have "rq_wf (snd (RunQueue_push (sc_ready s) i))"
    using push_list(1) [of "sc_ready s" i] assms(1) by (simp add: sched_safe_def prod_eq_iff)
  with at show ?thesis
    using assms Some g s1
    by (cases g) (auto simp: Scheduler_add_thread_def Let_def carries_simps thread_at_clear thread_at_clear_None split: prod.splits if_splits)
qed

text \<open>One step of any run: what it may disturb is the slot it hands the CPU to or reaps.\<close>

lemma sched_step_carries:
  assumes "sched_step H s s'" "sched_safe s" "\<And>s target. H s target \<Longrightarrow> to_thread s target"
  shows "sched_safe s'" and "dead idx tid s \<Longrightarrow> \<not> H s idx \<Longrightarrow> Scheduler_thread_at s' idx \<noteq> None \<Longrightarrow> dead idx tid s'"
proof -
  have "\<exists>X. carries X s s' \<and> (\<forall>i \<in> X. H s i \<or> Scheduler_thread_at s' i = None)"
    using assms(1)
  proof (cases rule: sched_step.cases)
    case (handoff target)
    then show ?thesis using handoff_carries [OF assms(2) assms(3)] by force
  next
    case (wake i t b)
    then show ?thesis using unblock_carries [OF assms(2), of i] assms(2)
      by (intro exI [of _ "{}"]) (auto simp: Scheduler_unblock_thread_def carries_def split: if_splits)
  next
    case (reap i t)
    show ?thesis
    proof (cases "sc_current s = Some i")
      case True
      with reap assms(2) show ?thesis by (intro exI [of _ "{}"]) (simp add: Scheduler_reap_def carries_def)
    next
      case False
      have "Scheduler_thread_at s' i = None" by (rule reap_vacates [OF reap False])
      then show ?thesis by (intro exI [of _ "{i}"]) (simp add: reap_carries [OF assms(2) reap])
    qed
  next
    case (terminate i)
    then show ?thesis using assms(2) by (intro exI [of _ "{}"]) (auto simp: Scheduler_terminate_def carries_simps)
  next
    case (priority i p)
    then show ?thesis using assms(2) by (intro exI [of _ "{}"]) (auto simp: Scheduler_set_thread_priority_def carries_simps)
  next
    case (correlation i c)
    then show ?thesis using assms(2)
      by (intro exI [of _ "{}"]) (auto simp: Scheduler_set_thread_correlation_def Let_def carries_simps)
  next
    case (add cpu child t r)
    then show ?thesis using add_thread_carries [OF assms(2)] by blast
  next
    case run
    then show ?thesis using run_carries [OF assms(2)] by force
  next
    case block
    then show ?thesis using block_carries [OF assms(2)] by force
  next
    case yield
    then show ?thesis using yield_carries [OF assms(2)] by force
  next
    case (unblock i)
    then show ?thesis using unblock_carries [OF assms(2)] by blast
  next
    case exit
    then show ?thesis using exit_carries [OF assms(2)] by force
  next
    case tick
    then show ?thesis using on_tick_carries [OF assms(2)] by force
  qed
  then obtain X where X: "carries X s s'" "\<forall>i \<in> X. H s i \<or> Scheduler_thread_at s' i = None" by (elim exE conjE)
  show "sched_safe s'" using X(1) by (simp add: carries_def)
  show "dead idx tid s'" if "dead idx tid s" "\<not> H s idx" "Scheduler_thread_at s' idx \<noteq> None"
  proof -
    have "idx \<notin> X" using bspec [OF X(2), of idx] that(2,3) by argo
    with X(1) that(1) show ?thesis by (simp add: carries_def)
  qed
qed

lemma sched_reachable_safe:
  assumes "(sched_step to_thread)\<^sup>*\<^sup>* (Scheduler_new n quantum limit) s" "0 < n"
  shows "sched_safe s"
  using assms(1)
proof (induction rule: rtranclp_induct)
  case base
  show ?case using Scheduler_new_wf [OF assms(2), of quantum limit]
    by (auto simp: sched_wf_def ring_inv_def sched_safe_def Scheduler_thread_state_def)
qed (rule sched_step_carries(1))

subsection \<open>Properties\<close>

definition sample_thread :: Thread where
  "sample_thread =
     \<lparr> thr_id = 0, thr_state = Ready, thr_priority = 16, thr_correlation = 0, thr_blocked_deadline = None,
       thr_stack_base = 0, thr_stack_pages = 1, thr_space_root = None, thr_process = None,
       thr_exception = ExceptionSlot_empty, thr_user_access = False \<rparr>"

definition two_threads :: Scheduler where
  "two_threads =
     snd (Scheduler_add_thread 0 8 (snd (Scheduler_add_thread 0 7 (Scheduler_new 3 1 0) sample_thread)) sample_thread)"

lemma two_threads_reachable: "(sched_step H)\<^sup>*\<^sup>* (Scheduler_new 3 1 0) two_threads"
  unfolding two_threads_def
  by (rule rtranclp_trans; rule r_into_rtranclp) (rule sched_step.add, rule prod.collapse [symmetric])+

text \<open>C3: The scheduler is sound in every state it can reach from its initial state, for every
  capacity of the thread table. Whatever threads the CPU is handed to, no entry point
  panics, a handoff to any slot that holds a thread included. If every handoff of the run is
  to a parked thread (\<open>handoff_to\<close> does not check this, and a handoff to a ready thread
  leaves its ring entry behind, so that its slot can come to be queued twice), then also
  each slot is on the ready ring at most once and every ready thread is on it, and waking a
  parked thread always finds room on the ring, so no wakeup is lost and no enqueue refused.\<close>
theorem scheduler_reachable_sound:
  assumes "(sched_step to_thread)\<^sup>*\<^sup>* (Scheduler_new n quantum limit) s" "0 < n"
  shows "Scheduler_run s \<noteq> None \<and> Scheduler_block_current s \<noteq> None \<and> Scheduler_exit_current s \<noteq> None \<and>
    Scheduler_yield_to_boot s \<noteq> None \<and> Scheduler_on_tick s \<noteq> None \<and>
    (\<forall>i. Scheduler_thread_at s i \<noteq> None \<longrightarrow> Scheduler_handoff_to s i \<noteq> None) \<and>
    ((sched_step to_parked)\<^sup>*\<^sup>* (Scheduler_new n quantum limit) s \<longrightarrow>
       distinct (ring s) \<and> (\<forall>i. is_ready s i \<longrightarrow> i \<in> set (ring s)) \<and>
       (\<forall>i. Scheduler_thread_state s i = Some Blocked \<longrightarrow>
          Scheduler_thread_state (Scheduler_unblock s i) i = Some Ready \<and> ring (Scheduler_unblock s i) = ring s @ [i]))"
proof -
  have safe: "sched_safe s" by (rule sched_reachable_safe [OF assms])
  have "Scheduler_run s \<noteq> None" "Scheduler_block_current s \<noteq> None" "Scheduler_exit_current s \<noteq> None"
    "Scheduler_yield_to_boot s \<noteq> None" "Scheduler_on_tick s \<noteq> None"
    using run_carries [OF safe] block_carries [OF safe] exit_carries [OF safe] yield_carries [OF safe]
      on_tick_carries [OF safe] by auto
  moreover have "Scheduler_handoff_to s i \<noteq> None" if "Scheduler_thread_at s i \<noteq> None" for i
    using handoff_carries [OF safe, of i] that by (auto simp: to_thread_def)
  moreover have "distinct (ring s) \<and> (\<forall>i. is_ready s i \<longrightarrow> i \<in> set (ring s)) \<and>
       (\<forall>i. Scheduler_thread_state s i = Some Blocked \<longrightarrow>
          Scheduler_thread_state (Scheduler_unblock s i) i = Some Ready \<and> ring (Scheduler_unblock s i) = ring s @ [i])"
    if r: "(sched_step to_parked)\<^sup>*\<^sup>* (Scheduler_new n quantum limit) s"
  proof -
    have wf: "sched_wf s" by (rule sched_reachable_wf [OF r assms(2)])
    then show ?thesis using unblock_wf(2) [OF wf] by (auto simp: sched_wf_def ring_inv_def)
  qed
  ultimately show ?thesis by blast
qed

theorem scheduler_reachable_sound_witness:
  "(sched_step to_thread)\<^sup>*\<^sup>* (Scheduler_new 3 1 0) two_threads \<and> (0::nat) < 3 \<and> is_ready two_threads 1 \<and>
   1 \<in> set (ring two_threads) \<and> Scheduler_on_tick two_threads \<noteq> None \<and> Scheduler_handoff_to two_threads 1 \<noteq> None"
proof -
  have r: "is_ready two_threads 1" by code_simp
  then have "Scheduler_thread_at two_threads 1 \<noteq> None" by (auto simp: Scheduler_thread_state_def)
  then show ?thesis
    using scheduler_reachable_sound [OF two_threads_reachable] two_threads_reachable r by simp
qed



lemma pop_ready_uniform:
  assumes "sched_wf s" "ring s = x # xs" "\<forall>i \<in> set (x # xs). is_ready s i \<and> prio s i = p"
  shows "\<exists>q. Scheduler_pop_ready s = (Some x, s\<lparr>sc_ready := q\<rparr>) \<and> rq_list q = xs"
proof -
  obtain r s' where pr: "Scheduler_pop_ready s = (r, s')" by (cases "Scheduler_pop_ready s")
  let ?L = "filter (is_ready s) (ring s)"
  have L: "?L = x # xs" using assms(2,3) by (simp add: filter_id_conv)
  have "rq_wf (sc_ready s)" using assms(1) by (simp add: sched_wf_def ring_inv_def)
  then obtain q where s': "s' = s\<lparr>sc_ready := q\<rparr>" and
    r: "case r of None \<Rightarrow> x # xs = [] \<and> rq_list q = []
      | Some idx \<Rightarrow> \<exists>at < length (x # xs). idx = (x # xs) ! at \<and> rq_list q = remove_nth at (x # xs) \<and>
         (\<forall>j < at. prio s ((x # xs) ! j) < prio s idx) \<and> (\<forall>j \<in> set (x # xs). prio s j \<le> prio s idx)"
    using pop_ready_spec [OF _ pr] unfolding L by blast
  then obtain idx at where at: "r = Some idx" "at < length (x # xs)" "idx = (x # xs) ! at"
      "rq_list q = remove_nth at (x # xs)" "\<forall>j < at. prio s ((x # xs) ! j) < prio s idx"
    by (auto split: option.splits)
  have "at = 0"
  proof (rule ccontr)
    assume "at \<noteq> 0"
    then have "prio s x < prio s idx" using at(5) by force
    moreover have "idx \<in> set (x # xs)" using nth_mem [OF at(2)] by (simp only: at(3))
    ultimately show False using assms(3) by (metis list.set_intros(1) less_irrefl)
  qed
  with at s' pr show ?thesis by (auto simp: remove_nth_def)
qed

text \<open>C28: Round robin. When the running thread's quantum expires on a tick short of the tick
  limit, if there is one, and the threads on the ready ring are ready and of one priority,
  the tick switches to the thread at the front of the ring and puts the preempted thread at
  the back, keeping the order of the others.\<close>
theorem tick_round_robin:
  assumes "sched_wf s" "sc_current s = Some c"
    and "sc_tick_limit s = 0 \<or> sc_ticks s + 1 < sc_tick_limit s" "sc_quantum s \<le> 1"
    and "ring s = x # xs" "\<forall>i \<in> set (x # xs). is_ready s i \<and> prio s i = p"
  shows "\<exists>s'. Scheduler_on_tick s = Some s' \<and> sc_current s' = Some x \<and> ring s' = xs @ [c] \<and> sched_wf s'"
proof -
  let ?s = "s\<lparr>sc_ticks := sc_ticks s + 1, sc_quantum := sc_quantum_reset s\<rparr>"
  have wf: "sched_wf ?s" using assms(1) by (simp add: sched_wf_def ring_inv_def Scheduler_thread_state_def)
  have u: "\<forall>i \<in> set (x # xs). is_ready ?s i \<and> prio ?s i = p"
    using assms(6) by (simp add: Scheduler_thread_state_def prio_def Scheduler_thread_priority_def)
  have rg: "ring ?s = x # xs" using assms(5) by simp
  obtain q where q: "Scheduler_pop_ready ?s = (Some x, ?s\<lparr>sc_ready := q\<rparr>)" "rq_list q = xs"
    using pop_ready_uniform [OF wf rg u] by blast
  let ?s2 = "?s\<lparr>sc_ready := q\<rparr>"
  have ri: "ring_inv (set_option (Some x)) ?s2" and nx: "x \<notin> set (ring ?s2)" and sub: "set (ring ?s2) \<subseteq> set (ring s)"
    using pop_ready_inv [OF _ q(1)] wf by (auto simp: sched_wf_def)
  have "c \<notin> set (ring s)" "Scheduler_thread_at s c \<noteq> None"
    using assms(1,2) by (auto simp: sched_wf_def Scheduler_thread_state_def)
  moreover have "Scheduler_thread_at s x \<noteq> None" using assms(6) by (auto simp: Scheduler_thread_state_def)
  ultimately have "\<exists>s'. Scheduler_switch_to (Scheduler_requeue_current ?s2) (Some x) = Some s' \<and> sched_wf s' \<and>
      sc_current s' = Some x \<and> ring s' = ring ?s2 @ [c]"
    using requeue_switch_wf [OF ri] assms(2,5) nx sub by auto
  moreover have "Scheduler_on_tick s = Scheduler_switch_to (Scheduler_requeue_current ?s2) (Some x)"
    using assms(3,4) q(1) by (auto simp: Scheduler_on_tick_def Let_def)
  ultimately show ?thesis using q(2) by auto
qed

definition two_running :: Scheduler where
  "two_running = the (Scheduler_run two_threads)"

lemma two_running_wf: "sched_wf two_running"
  using run_wf [OF sched_reachable_wf [OF two_threads_reachable]] by (auto simp: two_running_def)

lemma two_running_reachable: "(sched_step H)\<^sup>*\<^sup>* (Scheduler_new 3 1 0) two_running"
proof -
  have "Scheduler_run two_threads = Some two_running"
    using run_wf [OF sched_reachable_wf [OF two_threads_reachable]] by (auto simp: two_running_def)
  then have "sched_step H two_threads two_running" by (rule sched_step.run)
  with two_threads_reachable show ?thesis by (rule rtranclp.rtrancl_into_rtrancl)
qed

lemma two_running_facts:
  "sc_current two_running = Some 0" "ring two_running = [1]" "sc_quantum two_running \<le> 1"
  "sc_tick_limit two_running = 0" "\<forall>i \<in> set [1]. is_ready two_running i \<and> prio two_running i = 16"
proof -
  have "sc_current two_running = Some 0 \<and> ring two_running = [1] \<and> sc_quantum two_running \<le> 1 \<and>
     sc_tick_limit two_running = 0 \<and> (\<forall>i \<in> set [1]. is_ready two_running i \<and> prio two_running i = 16)"
    by code_simp
  then show "sc_current two_running = Some 0" "ring two_running = [1]" "sc_quantum two_running \<le> 1"
    "sc_tick_limit two_running = 0" "\<forall>i \<in> set [1]. is_ready two_running i \<and> prio two_running i = 16"
    by blast+
qed

theorem tick_round_robin_witness:
  "sc_current two_running = Some 0 \<and>
   (\<exists>s'. Scheduler_on_tick two_running = Some s' \<and> sc_current s' = Some 1 \<and> ring s' = [0] \<and> sched_wf s')"
proof -
  from tick_round_robin [OF two_running_wf two_running_facts(1) _ two_running_facts(3,2,5)] two_running_facts(1,4) show ?thesis by simp
qed

text \<open>A step of a run in which nobody hands the CPU to \<open>idx\<close> and its slot is not reaped.\<close>

definition kept_step :: "nat \<Rightarrow> Scheduler \<Rightarrow> Scheduler \<Rightarrow> bool" where
  "kept_step idx s s' \<longleftrightarrow> sched_step (to_other idx) s s' \<and> Scheduler_thread_at s' idx \<noteq> None"

lemma kept_run_dead:
  assumes "(kept_step idx)\<^sup>*\<^sup>* s s'" "sched_safe s" "dead idx tid s"
  shows "sched_safe s' \<and> dead idx tid s'"
  using assms(1)
proof (induction rule: rtranclp_induct)
  case (step s1 s2)
  then have k: "sched_step (to_other idx) s1 s2" "Scheduler_thread_at s2 idx \<noteq> None" and "sched_safe s1" "dead idx tid s1"
    by (simp_all add: kept_step_def)
  moreover have "to_other idx s target \<Longrightarrow> to_thread s target" "\<not> to_other idx s1 idx" for s target
    by (simp_all add: to_other_def to_thread_def)
  ultimately show ?case using sched_step_carries [of "to_other idx" s1 s2] by blast
qed (use assms in simp)

text \<open>C29: Terminating a thread that is not running is final. Take any reachable state and
  terminate a thread other than the running one. However long the scheduler then runs (ticks,
  blocking, wakeups of this thread and others, exits, new threads, handoffs to other threads),
  until the slot is reaped, the thread stays exited in its slot, is never the running thread
  and is never the one the next selection returns. Handoffs to the thread itself are the
  exception: \<open>handoff_to\<close> does not look at the target's state.\<close>
theorem terminated_never_selected:
  assumes "(sched_step to_thread)\<^sup>*\<^sup>* (Scheduler_new n quantum limit) s" "0 < n"
    and "sc_current s \<noteq> Some idx" "Scheduler_thread_id s idx = Some tid"
    and "(kept_step idx)\<^sup>*\<^sup>* (Scheduler_terminate s idx) s'"
  shows "Scheduler_thread_state s' idx = Some Exited \<and> Scheduler_thread_id s' idx = Some tid \<and>
    sc_current s' \<noteq> Some idx \<and> fst (Scheduler_pop_ready s') \<noteq> Some idx"
proof -
  have safe: "sched_safe s" by (rule sched_reachable_safe [OF assms(1,2)])
  then have "sched_safe (Scheduler_terminate s idx)" by (auto simp: sched_safe_def Scheduler_terminate_def)
  moreover have "dead idx tid (Scheduler_terminate s idx)"
    using assms(3,4) by (auto simp: dead_def Scheduler_terminate_def Scheduler_thread_state_def Scheduler_thread_id_def)
  ultimately have k: "sched_safe s'" "dead idx tid s'" using kept_run_dead [OF assms(5)] by blast+
  have "fst (Scheduler_pop_ready s') \<noteq> Some idx"
    using pop_ready_carries(2) [OF k(1) prod.collapse [symmetric]] k(2) by blast
  with k(2) show ?thesis by (simp add: dead_def)
qed

text \<open>The second of two threads is terminated while the first runs; the first then blocks, so
  the boot context is current, and a wakeup of the terminated thread changes nothing.\<close>

definition two_parked :: Scheduler where
  "two_parked = the (Scheduler_block_current (Scheduler_terminate two_running 1))"

theorem terminated_never_selected_witness:
  "sc_current two_running = Some 0 \<and> is_ready two_running 1 \<and>
   Scheduler_thread_state (Scheduler_unblock two_parked 1) 1 = Some Exited \<and>
   fst (Scheduler_pop_ready (Scheduler_unblock two_parked 1)) \<noteq> Some 1"
proof -
  have f: "is_ready two_running 1" "Scheduler_thread_id two_running 1 = Some 2"
    "Scheduler_block_current (Scheduler_terminate two_running 1) \<noteq> None"
    "Scheduler_thread_at two_parked 1 \<noteq> None" "Scheduler_thread_at (Scheduler_unblock two_parked 1) 1 \<noteq> None"
    by code_simp+
  have "kept_step 1 (Scheduler_terminate two_running 1) two_parked"
    using f(3,4) by (auto simp: kept_step_def two_parked_def intro: sched_step.block)
  moreover have "kept_step 1 two_parked (Scheduler_unblock two_parked 1)"
    using f(5) by (simp add: kept_step_def sched_step.unblock)
  ultimately have k: "(kept_step 1)\<^sup>*\<^sup>* (Scheduler_terminate two_running 1) (Scheduler_unblock two_parked 1)" by simp
  have c: "sc_current two_running \<noteq> Some 1" by (simp add: two_running_facts(1))
  from terminated_never_selected [OF two_running_reachable _ c f(2) k] f(1) two_running_facts(1) show ?thesis by simp
qed

lemma switch_keeps_other:
  assumes "Scheduler_thread_state s c = Some Ready" "sc_current s = Some c" "Scheduler_thread_at s x \<noteq> None" "c \<noteq> x"
  shows "\<exists>s'. Scheduler_switch_to s (Some x) = Some s' \<and> Scheduler_thread_state s' c = Some Ready \<and> sc_ready s' = sc_ready s"
  using assms by (auto simp: Scheduler_switch_to_def Let_def Scheduler_thread_state_def split: option.splits)

text \<open>C34: The running thread is the exception: a tick that preempts a thread which was
  terminated while it was running puts it back on the ready ring as a ready thread.\<close>
theorem tick_revives_terminated_current:
  assumes "sched_wf s" "sc_current s = Some c"
    and "sc_tick_limit s = 0 \<or> sc_ticks s + 1 < sc_tick_limit s" "sc_quantum s \<le> 1"
    and "ring s = x # xs" "\<forall>i \<in> set (x # xs). is_ready s i \<and> prio s i = p"
  shows "\<exists>s'. Scheduler_thread_state (Scheduler_terminate s c) c = Some Exited \<and>
    Scheduler_on_tick (Scheduler_terminate s c) = Some s' \<and> Scheduler_thread_state s' c = Some Ready \<and> c \<in> set (ring s')"
proof -
  let ?t = "Scheduler_terminate s c"
  let ?s = "?t\<lparr>sc_ticks := sc_ticks ?t + 1, sc_quantum := sc_quantum_reset ?t\<rparr>"
  have wft: "sched_wf ?t" by (rule terminate_wf [OF assms(1)])
  have wf: "sched_wf ?s" using wft by (simp add: sched_wf_def ring_inv_def Scheduler_thread_state_def)
  have c: "c \<notin> set (ring s)" "Scheduler_thread_at s c \<noteq> None"
    using assms(1,2) by (auto simp: sched_wf_def Scheduler_thread_state_def)
  then have u: "\<forall>i \<in> set (x # xs). is_ready ?s i \<and> prio ?s i = p"
    using assms(5,6)
    by (auto simp: Scheduler_thread_state_def prio_def Scheduler_thread_priority_def Scheduler_terminate_def)
  have rg: "ring ?s = x # xs" using assms(5) by (simp add: Scheduler_terminate_def)
  obtain q where q: "Scheduler_pop_ready ?s = (Some x, ?s\<lparr>sc_ready := q\<rparr>)" "rq_list q = xs"
    using pop_ready_uniform [OF wf rg u] by blast
  let ?s2 = "?s\<lparr>sc_ready := q\<rparr>" 
  have ri: "ring_inv {x} ?s2" and nx: "x \<notin> set (ring ?s2)"
    using pop_ready_inv [OF _ q(1)] wf by (auto simp: sched_wf_def)
  have cur: "sc_current ?s2 = Some c" using assms(2) by (simp add: Scheduler_terminate_def)
  have at2: "Scheduler_thread_at ?s2 c \<noteq> None" "c \<notin> set (ring ?s2)" "c \<noteq> x"
    using c assms(5) q(2) by (auto simp: Scheduler_terminate_def)
  let ?r = "Scheduler_requeue_current ?s2"
  obtain q2 where r: "?r = (update_thread ?s2 c (\<lambda>t. t\<lparr>thr_state := Ready\<rparr>))\<lparr>sc_ready := q2\<rparr>"
     "ring_inv {x} ?r" "ring ?r = ring ?s2 @ [c]"
    using requeue_current_inv [OF ri cur at2(1,2)] by blast
  have tick: "Scheduler_on_tick ?t = Scheduler_switch_to ?r (Some x)"
    using assms(3,4) q(1) by (auto simp: Scheduler_on_tick_def Let_def Scheduler_terminate_def)
  have at_r: "Scheduler_thread_at ?r j =
      (if j = c then map_option (\<lambda>t. t\<lparr>thr_state := Ready\<rparr>) (Scheduler_thread_at ?s2 c) else Scheduler_thread_at ?s2 j)" for j
    unfolding r(1) by simp
  have xr: "Scheduler_thread_at ?r x \<noteq> None"
    unfolding at_r using assms(6) at2(3) by (auto simp: Scheduler_thread_state_def Scheduler_terminate_def)
  have "sc_current ?r = Some c" unfolding r(1) using cur by simp
  moreover have "Scheduler_thread_state ?r c = Some Ready"
    unfolding Scheduler_thread_state_def at_r using at2(1) by (auto simp: option.map_comp)
  ultimately have cr: "Scheduler_thread_state ?r c = Some Ready" "sc_current ?r = Some c" by auto
  from cr xr at2(3)
  have "\<exists>s'. Scheduler_switch_to ?r (Some x) = Some s' \<and> Scheduler_thread_state s' c = Some Ready \<and> sc_ready s' = sc_ready ?r"
    by (rule switch_keeps_other)
  then show ?thesis
    using tick r(3) c(2) by (auto simp: Scheduler_terminate_def Scheduler_thread_state_def)
qed

theorem tick_revives_terminated_current_witness:
  "\<exists>s'. Scheduler_thread_state (Scheduler_terminate two_running 0) 0 = Some Exited \<and>
    Scheduler_on_tick (Scheduler_terminate two_running 0) = Some s' \<and> Scheduler_thread_state s' 0 = Some Ready \<and> 0 \<in> set (ring s')"
proof -
  from tick_revives_terminated_current [OF two_running_wf two_running_facts(1) _ two_running_facts(3,2,5)]
    two_running_facts(4) show ?thesis by simp
qed

text \<open>A handoff to a thread that is ready rather than parked leaves that thread's ring
  entry behind: after a handoff to a ready thread, a handoff back and a wakeup of it, its
  slot is on the ready ring twice.\<close>
theorem handoff_to_ready_duplicates:
  "is_ready two_running 1 \<and>
   ring (Scheduler_unblock (the (Scheduler_handoff_to (the (Scheduler_handoff_to two_running 1)) 0)) 1) = [1, 1]"
  by code_simp

end
