(* ===== verification/Ports.thy ===== *)
theory Ports
  imports Objects
begin

text \<open>
  Ports, \<^verbatim>\<open>kcore/src/port.rs\<close>: asynchronous event delivery with one preallocated slot per
  (source, signal) pair, on which edges coalesce, and the port pool with its object
  bridge. The main result is an account of edges: over any sequence of deliveries and
  drains nothing is lost and nothing invented, up to the saturation of the 32-bit count.
\<close>

type_synonym PortId = nat

record Binding =
  bd_source :: "64 word"
  bd_signal :: "8 word"
  bd_pending :: "32 word"
  bd_asserted :: bool

record PortEvent =
  pe_source :: "64 word"
  pe_signal :: "8 word"
  pe_pending :: "32 word"

record Port =
  pt_bindings :: "Binding option list"
  pt_coalesced :: "64 word"
  pt_blocked_drainer :: "ThreadId option"
  pt_object :: "ObjectId option"

definition Port_new :: "nat \<Rightarrow> Port" where
  "Port_new max_bindings =
     \<lparr> pt_bindings = replicate max_bindings None, pt_coalesced = 0, pt_blocked_drainer = None, pt_object = None \<rparr>"

definition Port_set_object :: "Port \<Rightarrow> ObjectId \<Rightarrow> Port" where
  "Port_set_object p oid = p\<lparr>pt_object := Some oid\<rparr>"

definition Port_find :: "Port \<Rightarrow> 64 word \<Rightarrow> 8 word \<Rightarrow> nat option" where
  "Port_find p source signal =
     position (\<lambda>b. case b of Some x \<Rightarrow> bd_source x = source \<and> bd_signal x = signal | None \<Rightarrow> False) (pt_bindings p)"

definition Port_bind :: "Port \<Rightarrow> 64 word \<Rightarrow> 8 word \<Rightarrow> unit res \<times> Port" where
  "Port_bind p source signal =
     (if Port_find p source signal \<noteq> None then (Err Protocol, p)
      else case free_slot (pt_bindings p) of
             None \<Rightarrow> (Err OutOfMemory, p)
           | Some slot \<Rightarrow>
               (Ok (), p\<lparr>pt_bindings := (pt_bindings p)[slot :=
                  Some \<lparr>bd_source = source, bd_signal = signal, bd_pending = 0, bd_asserted = False\<rparr>]\<rparr>))"

definition Port_unbind :: "Port \<Rightarrow> 64 word \<Rightarrow> 8 word \<Rightarrow> bool \<times> Port" where
  "Port_unbind p source signal =
     (case Port_find p source signal of
        Some idx \<Rightarrow> (True, p\<lparr>pt_bindings := (pt_bindings p)[idx := None]\<rparr>)
      | None \<Rightarrow> (False, p))"

definition Port_deliver :: "Port \<Rightarrow> 64 word \<Rightarrow> 8 word \<Rightarrow> 32 word \<Rightarrow> bool \<times> Port" where
  "Port_deliver p source signal edges =
     (case Port_find p source signal of
        None \<Rightarrow> (False, p)
      | Some idx \<Rightarrow>
          (case pt_bindings p ! idx of
             None \<Rightarrow> (True, p)
           | Some b \<Rightarrow>
               (True, p\<lparr>pt_coalesced := (if bd_pending b > 0 then sat_add (pt_coalesced p) 1 else pt_coalesced p),
                        pt_bindings := (pt_bindings p)[idx :=
                          Some (b\<lparr>bd_pending := sat_add (bd_pending b) edges, bd_asserted := True\<rparr>)]\<rparr>)))"

definition Port_is_asserted :: "Port \<Rightarrow> bool" where
  "Port_is_asserted p \<longleftrightarrow> list_ex bd_asserted (flatten (pt_bindings p))"

definition Port_drain :: "Port \<Rightarrow> PortEvent option \<times> Port" where
  "Port_drain p =
     (case position (\<lambda>b. case b of Some x \<Rightarrow> bd_asserted x | None \<Rightarrow> False) (pt_bindings p) of
        None \<Rightarrow> (None, p)
      | Some idx \<Rightarrow>
          (case pt_bindings p ! idx of
             None \<Rightarrow> (None, p)
           | Some b \<Rightarrow>
               (Some \<lparr>pe_source = bd_source b, pe_signal = bd_signal b, pe_pending = bd_pending b\<rparr>,
                p\<lparr>pt_bindings := (pt_bindings p)[idx := Some (b\<lparr>bd_pending := 0, bd_asserted := False\<rparr>)]\<rparr>)))"

definition Port_has_blocked_drainer :: "Port \<Rightarrow> bool" where
  "Port_has_blocked_drainer p \<longleftrightarrow> pt_blocked_drainer p \<noteq> None"

definition Port_set_blocked_drainer :: "Port \<Rightarrow> ThreadId option \<Rightarrow> Port" where
  "Port_set_blocked_drainer p thread = p\<lparr>pt_blocked_drainer := thread\<rparr>"

definition Port_take_blocked_drainer :: "Port \<Rightarrow> ThreadId option \<times> Port" where
  "Port_take_blocked_drainer p = (pt_blocked_drainer p, p\<lparr>pt_blocked_drainer := None\<rparr>)"

definition PORT_OBJECT_ID_BASE :: "32 word" where
  "PORT_OBJECT_ID_BASE = 0x3000"

record PortTable =
  ptt_ports :: "Port option list"
  ptt_next_id :: "32 word"

definition PortTable_new :: "nat \<Rightarrow> PortTable" where
  "PortTable_new max_ports = \<lparr> ptt_ports = replicate max_ports None, ptt_next_id = PORT_OBJECT_ID_BASE \<rparr>"

definition PortTable_create :: "nat \<Rightarrow> PortTable \<Rightarrow> PortId res \<times> PortTable" where
  "PortTable_create max_bindings t =
     (case free_slot (ptt_ports t) of
        None \<Rightarrow> (Err OutOfMemory, t)
      | Some index \<Rightarrow> (Ok index, t\<lparr>ptt_ports := (ptt_ports t)[index := Some (Port_new max_bindings)]\<rparr>))"

definition PortTable_port :: "PortTable \<Rightarrow> PortId \<Rightarrow> Port option" where
  "PortTable_port t pid = Option.bind (get_opt (ptt_ports t) pid) (\<lambda>p. p)"

definition PortTable_set_port :: "PortTable \<Rightarrow> PortId \<Rightarrow> Port \<Rightarrow> PortTable" where
  "PortTable_set_port t pid p = t\<lparr>ptt_ports := (ptt_ports t)[pid := Some p]\<rparr>"

definition PortTable_set_port_object :: "PortTable \<Rightarrow> PortId \<Rightarrow> ObjectId \<Rightarrow> PortTable" where
  "PortTable_set_port_object t pid oid =
     (case PortTable_port t pid of None \<Rightarrow> t | Some p \<Rightarrow> PortTable_set_port t pid (Port_set_object p oid))"

definition PortTable_create_with_object :: "nat \<Rightarrow> PortTable \<Rightarrow> (PortId \<times> ObjectId) res \<times> PortTable" where
  "PortTable_create_with_object max_bindings t =
     (case PortTable_create max_bindings t of
        (Err e, t') \<Rightarrow> (Err e, t')
      | (Ok pid, t') \<Rightarrow>
          let oid = ObjectId (ptt_next_id t') in
          (Ok (pid, oid),
           PortTable_set_port_object (t'\<lparr>ptt_next_id := ptt_next_id t' + 1\<rparr>) pid oid))"

definition PortTable_any_blocked_drainer :: "PortTable \<Rightarrow> bool" where
  "PortTable_any_blocked_drainer t \<longleftrightarrow> list_ex Port_has_blocked_drainer (flatten (ptt_ports t))"

definition PortTable_port_of_object :: "PortTable \<Rightarrow> ObjectId \<Rightarrow> PortId option" where
  "PortTable_port_of_object t oid =
     position (\<lambda>slot. case slot of Some p \<Rightarrow> pt_object p = Some oid | None \<Rightarrow> False) (ptt_ports t)"

subsection \<open>Bindings as a partial map from (source, signal) to pending counts\<close>

definition Port_lookup :: "Port \<Rightarrow> 64 word \<times> 8 word \<Rightarrow> Binding option" where
  "Port_lookup p k = Option.bind (Port_find p (fst k) (snd k)) (\<lambda>i. pt_bindings p ! i)"

definition bkey :: "Binding \<Rightarrow> 64 word \<times> 8 word" where
  "bkey b = (bd_source b, bd_signal b)"

text \<open>A port is well formed when no pair has two slots and a slot with pending edges is asserted.\<close>

definition keys_distinct :: "'k option list \<Rightarrow> bool" where
  "keys_distinct ks \<longleftrightarrow> (\<forall>i j k. i < length ks \<longrightarrow> j < length ks \<longrightarrow> ks ! i = Some k \<longrightarrow> ks ! j = Some k \<longrightarrow> i = j)"

definition Port_keys :: "Port \<Rightarrow> (64 word \<times> 8 word) option list" where
  "Port_keys p = map (map_option bkey) (pt_bindings p)"

definition Port_wf :: "Port \<Rightarrow> bool" where
  "Port_wf p \<longleftrightarrow> keys_distinct (Port_keys p) \<and>
     (\<forall>b \<in> set (flatten (pt_bindings p)). bd_pending b > 0 \<longrightarrow> bd_asserted b)"

lemma Port_find_SomeD:
  assumes "Port_find p s g = Some i"
  shows "i < length (pt_bindings p) \<and> (\<exists>b. pt_bindings p ! i = Some b \<and> bkey b = (s, g))"
  using position_SomeD [OF assms [unfolded Port_find_def]] by (auto simp: bkey_def split: option.splits)

lemma Port_wfD:
  "Port_wf p \<Longrightarrow> i < length (pt_bindings p) \<Longrightarrow> j < length (pt_bindings p) \<Longrightarrow>
   pt_bindings p ! i = Some b \<Longrightarrow> pt_bindings p ! j = Some c \<Longrightarrow> bkey b = bkey c \<Longrightarrow> i = j"
  unfolding Port_wf_def keys_distinct_def Port_keys_def
  by (elim conjE allE [of _ i] allE [of _ j] allE [of _ "bkey b"]) simp

lemma keys_distinct_fill:
  assumes "keys_distinct ks" "Some k \<notin> set ks"
  shows "keys_distinct (ks[i := Some k])"
  unfolding keys_distinct_def
proof (intro allI impI)
  fix a b k'
  assume ab: "a < length (ks[i := Some k])" "b < length (ks[i := Some k])"
    "ks[i := Some k] ! a = Some k'" "ks[i := Some k] ! b = Some k'"
  have nk: "ks ! j \<noteq> Some k" if "j < length ks" for j using assms(2) nth_mem [OF that] by metis
  have "ks ! a = Some k' \<Longrightarrow> ks ! b = Some k' \<Longrightarrow> a = b"
    using assms(1) ab(1,2) unfolding keys_distinct_def by simp
  with ab nk show "a = b" by (cases "a = i"; cases "b = i") auto
qed

lemma Port_find_unique:
  assumes "Port_wf p" "i < length (pt_bindings p)" "pt_bindings p ! i = Some b"
  shows "Port_find p (bd_source b) (bd_signal b) = Some i"
  unfolding Port_find_def
proof (rule position_SomeI [OF assms(2)])
  fix j assume "j < i"
  then show "\<not> (case pt_bindings p ! j of Some x \<Rightarrow> bd_source x = bd_source b \<and> bd_signal x = bd_signal b | None \<Rightarrow> False)"
    using Port_wfD [OF assms(1), of j i _ b] assms(2,3) by (auto simp: bkey_def split: option.splits)
qed (simp add: assms(3))

lemma Port_lookup_iff:
  assumes "Port_wf p"
  shows "Port_lookup p k = Some b \<longleftrightarrow> (\<exists>i < length (pt_bindings p). pt_bindings p ! i = Some b \<and> bkey b = k)"
proof
  assume "Port_lookup p k = Some b"
  then obtain i where "Port_find p (fst k) (snd k) = Some i" "pt_bindings p ! i = Some b"
    by (auto simp: Port_lookup_def bind_eq_Some_conv)
  with Port_find_SomeD show "\<exists>i < length (pt_bindings p). pt_bindings p ! i = Some b \<and> bkey b = k" by fastforce
next
  assume "\<exists>i < length (pt_bindings p). pt_bindings p ! i = Some b \<and> bkey b = k"
  with Port_find_unique [OF assms] show "Port_lookup p k = Some b"
    by (auto simp: Port_lookup_def bkey_def)
qed

lemma Port_lookup_range:
  assumes "Port_wf p"
  shows "b \<in> set (flatten (pt_bindings p)) \<longleftrightarrow> (\<exists>k. Port_lookup p k = Some b)"
proof
  assume "b \<in> set (flatten (pt_bindings p))"
  then obtain i where "i < length (pt_bindings p)" "pt_bindings p ! i = Some b"
    unfolding set_flatten mem_Collect_eq by (metis in_set_conv_nth)
  then have "Port_lookup p (bkey b) = Some b" by (auto simp: Port_lookup_iff [OF assms])
  then show "\<exists>k. Port_lookup p k = Some b" ..
next
  assume "\<exists>k. Port_lookup p k = Some b"
  then obtain i where "i < length (pt_bindings p)" "pt_bindings p ! i = Some b"
    by (auto simp: Port_lookup_iff [OF assms])
  then show "b \<in> set (flatten (pt_bindings p))"
    unfolding set_flatten mem_Collect_eq by (metis nth_mem)
qed

lemma update_binding:
  assumes "Port_wf p" "i < length (pt_bindings p)" "pt_bindings p ! i = Some b"
    and "bkey b' = bkey b" "bd_pending b' > 0 \<longrightarrow> bd_asserted b'"
    and "p' = p\<lparr>pt_bindings := (pt_bindings p)[i := Some b'], pt_coalesced := n\<rparr>"
  shows "Port_wf p'" and "Port_lookup p' = (Port_lookup p)(bkey b \<mapsto> b')"
proof -
  have nth: "pt_bindings p' ! j = (if j = i then Some b' else pt_bindings p ! j)" if "j < length (pt_bindings p)" for j
    using assms(6) that by (auto simp: nth_list_update)
  have len: "length (pt_bindings p') = length (pt_bindings p)" using assms(6) by simp
  have "Port_keys p' = Port_keys p"
    using assms(2-4,6) by (simp add: Port_keys_def map_update list_update_same_conv)
  then have keys: "keys_distinct (Port_keys p')" using assms(1) by (simp add: Port_wf_def)
  have "\<forall>c \<in> set (flatten (pt_bindings p')). bd_pending c > 0 \<longrightarrow> bd_asserted c"
    using assms(1,5,6) by (auto simp: set_flatten Port_wf_def dest!: set_update_subset_insert [THEN subsetD])
  with keys show wf': "Port_wf p'" by (simp add: Port_wf_def)
  show "Port_lookup p' = (Port_lookup p)(bkey b \<mapsto> b')"
  proof (rule ext, rule option_ext)
    fix k c
    show "Port_lookup p' k = Some c \<longleftrightarrow> ((Port_lookup p)(bkey b \<mapsto> b')) k = Some c"
    proof (cases "k = bkey b")
      case True
      then have "Port_lookup p' k = Some b'"
        unfolding Port_lookup_iff [OF wf'] len using nth [OF assms(2)] assms(2,4) by auto
      with True show ?thesis by auto
    next
      case False
      then have "pt_bindings p' ! j = Some c \<and> bkey c = k \<longleftrightarrow> pt_bindings p ! j = Some c \<and> bkey c = k"
        if "j < length (pt_bindings p)" for j
        using nth [OF that] assms(3,4) by auto
      with False show ?thesis
        by (auto simp: Port_lookup_iff [OF wf'] Port_lookup_iff [OF assms(1)] len)
    qed
  qed
qed

lemma deliver_spec:
  assumes "Port_wf p" "Port_deliver p s g n = (r, p')"
  shows "case Port_lookup p (s, g) of
      None \<Rightarrow> r = False \<and> p' = p
    | Some b \<Rightarrow> r = True \<and> Port_wf p' \<and>
        Port_lookup p' = (Port_lookup p)((s, g) \<mapsto> b\<lparr>bd_pending := sat_add (bd_pending b) n, bd_asserted := True\<rparr>)"
proof (cases "Port_find p s g")
  case None
  with assms(2) show ?thesis by (simp add: Port_deliver_def Port_lookup_def)
next
  case (Some i)
  then obtain b where i: "i < length (pt_bindings p)" "pt_bindings p ! i = Some b" "bkey b = (s, g)"
    using Port_find_SomeD by blast
  let ?b = "b\<lparr>bd_pending := sat_add (bd_pending b) n, bd_asserted := True\<rparr>"
  have p': "r = True" "p' = p\<lparr>pt_bindings := (pt_bindings p)[i := Some ?b],
      pt_coalesced := (if bd_pending b > 0 then sat_add (pt_coalesced p) 1 else pt_coalesced p)\<rparr>"
    using assms(2) Some i(2) by (auto simp: Port_deliver_def)
  have "Port_wf p'" "Port_lookup p' = (Port_lookup p)(bkey b \<mapsto> ?b)"
    by (rule update_binding [OF assms(1) i(1,2) _ _ p'(2)]; simp add: bkey_def)+
  moreover have "Port_lookup p (s, g) = Some b" using Some i by (simp add: Port_lookup_def)
  ultimately show ?thesis using p'(1) i(3) by simp
qed

lemma drain_spec:
  assumes "Port_wf p" "Port_drain p = (r, p')"
  shows "case r of
      None \<Rightarrow> p' = p \<and> (\<forall>k b. Port_lookup p k = Some b \<longrightarrow> \<not> bd_asserted b)
    | Some e \<Rightarrow> \<exists>b. Port_lookup p (pe_source e, pe_signal e) = Some b \<and> bd_asserted b \<and> pe_pending e = bd_pending b \<and>
        Port_wf p' \<and> Port_lookup p' = (Port_lookup p)((pe_source e, pe_signal e) \<mapsto> b\<lparr>bd_pending := 0, bd_asserted := False\<rparr>)"
proof (cases "position (\<lambda>b. case b of Some x \<Rightarrow> bd_asserted x | None \<Rightarrow> False) (pt_bindings p)")
  case None
  then have "\<forall>x \<in> set (pt_bindings p). \<not> (case x of Some x \<Rightarrow> bd_asserted x | None \<Rightarrow> False)"
    by (simp add: position_None_iff)
  then have "\<not> bd_asserted b" if "Port_lookup p k = Some b" for k b
    using that unfolding Port_lookup_iff [OF assms(1)] by (auto dest!: nth_mem)
  with None assms(2) show ?thesis by (auto simp: Port_drain_def)
next
  case (Some i)
  from position_SomeD [OF this] obtain b where i: "i < length (pt_bindings p)" "pt_bindings p ! i = Some b" "bd_asserted b"
    by (auto split: option.splits)
  let ?b = "b\<lparr>bd_pending := 0, bd_asserted := False\<rparr>"
  have r: "r = Some \<lparr>pe_source = bd_source b, pe_signal = bd_signal b, pe_pending = bd_pending b\<rparr>"
    and p': "p' = p\<lparr>pt_bindings := (pt_bindings p)[i := Some ?b], pt_coalesced := pt_coalesced p\<rparr>"
    using assms(2) Some i(2) by (auto simp: Port_drain_def)
  have "Port_wf p'" "Port_lookup p' = (Port_lookup p)(bkey b \<mapsto> ?b)"
    by (rule update_binding [OF assms(1) i(1,2) _ _ p']; simp add: bkey_def)+
  moreover have "Port_lookup p (bkey b) = Some b"
    unfolding Port_lookup_iff [OF assms(1)] using i by auto
  ultimately show ?thesis using i(3) r by (simp add: bkey_def)
qed

lemma bind_spec:
  assumes "Port_wf p" "Port_bind p s g = (r, p')"
  shows "case r of
      Err e \<Rightarrow> p' = p \<and> (if Port_lookup p (s, g) \<noteq> None then e = Protocol else e = OutOfMemory \<and> None \<notin> set (pt_bindings p))
    | Ok _ \<Rightarrow> Port_lookup p (s, g) = None \<and> Port_wf p' \<and>
        Port_lookup p' = (Port_lookup p)((s, g) \<mapsto> \<lparr>bd_source = s, bd_signal = g, bd_pending = 0, bd_asserted = False\<rparr>)"
proof -
  have fl: "Port_find p s g = None \<longleftrightarrow> Port_lookup p (s, g) = None"
    using Port_find_SomeD [of p s g] by (cases "Port_find p s g") (auto simp: Port_lookup_def)
  show ?thesis
  proof (cases "Port_find p s g = None \<and> free_slot (pt_bindings p) \<noteq> None")
    case False
    with assms(2) fl show ?thesis
      by (auto simp: Port_bind_def free_slot_None_iff [symmetric] split: option.splits if_splits)
  next
    case True
    then obtain i where i: "free_slot (pt_bindings p) = Some i" by auto
    note fs = free_slotD [OF i]
    let ?b = "\<lparr>bd_source = s, bd_signal = g, bd_pending = 0, bd_asserted = False\<rparr>"
    have r: "r = Ok ()" "p' = p\<lparr>pt_bindings := (pt_bindings p)[i := Some ?b]\<rparr>"
      using assms(2) True i by (auto simp: Port_bind_def)
    have len: "length (pt_bindings p') = length (pt_bindings p)" by (simp add: r)
    have nth: "pt_bindings p' ! j = (if j = i then Some ?b else pt_bindings p ! j)" if "j < length (pt_bindings p)" for j
      using that by (auto simp: r nth_list_update)
    have none: "\<not> (\<exists>j < length (pt_bindings p). \<exists>c. pt_bindings p ! j = Some c \<and> bkey c = (s, g))"
      using Port_lookup_iff [OF assms(1), of "(s, g)"] True fl by auto
    have "Some (s, g) \<notin> set (Port_keys p)"
    proof
      assume "Some (s, g) \<in> set (Port_keys p)"
      then obtain j where "j < length (Port_keys p)" "Port_keys p ! j = Some (s, g)"
        by (metis in_set_conv_nth)
      with none show False by (auto simp: Port_keys_def)
    qed
    then have keys: "keys_distinct (Port_keys p')"
      using keys_distinct_fill [of "Port_keys p" "(s, g)" i] assms(1)
      by (simp add: r Port_keys_def Port_wf_def map_update bkey_def)
    have "\<forall>c \<in> set (flatten (pt_bindings p')). bd_pending c > 0 \<longrightarrow> bd_asserted c"
      using assms(1) by (auto simp: r set_flatten Port_wf_def dest!: set_update_subset_insert [THEN subsetD])
    with keys have wf': "Port_wf p'" by (simp add: Port_wf_def)
    have "Port_lookup p' = (Port_lookup p)((s, g) \<mapsto> ?b)"
    proof (rule ext, rule option_ext)
      fix k c
      show "Port_lookup p' k = Some c \<longleftrightarrow> ((Port_lookup p)((s, g) \<mapsto> ?b)) k = Some c"
      proof (cases "k = (s, g)")
        case True
        then have "Port_lookup p' k = Some ?b"
          unfolding Port_lookup_iff [OF wf'] len using nth fs by (auto simp: bkey_def)
        with True show ?thesis by auto
      next
        case False
        then have "pt_bindings p' ! j = Some c \<and> bkey c = k \<longleftrightarrow> pt_bindings p ! j = Some c \<and> bkey c = k"
          if "j < length (pt_bindings p)" for j
          using nth [OF that] fs by (auto simp: bkey_def)
        with False show ?thesis
          by (auto simp: Port_lookup_iff [OF wf'] Port_lookup_iff [OF assms(1)] len)
      qed
    qed
    with r wf' True fl show ?thesis by simp
  qed
qed

lemma unbind_spec:
  assumes "Port_wf p" "Port_unbind p s g = (r, p')"
  shows "r \<longleftrightarrow> Port_lookup p (s, g) \<noteq> None" and "\<not> r \<Longrightarrow> p' = p" and "r \<Longrightarrow> Port_lookup p' (s, g) = None"
proof -
  have fl: "Port_find p s g = None \<longleftrightarrow> Port_lookup p (s, g) = None"
    using Port_find_SomeD [of p s g] by (cases "Port_find p s g") (auto simp: Port_lookup_def)
  then show "r \<longleftrightarrow> Port_lookup p (s, g) \<noteq> None" "\<not> r \<Longrightarrow> p' = p"
    using assms(2) by (auto simp: Port_unbind_def split: option.splits)
  assume r
  then obtain i where i: "Port_find p s g = Some i" and p': "p' = p\<lparr>pt_bindings := (pt_bindings p)[i := None]\<rparr>"
    using assms(2) by (auto simp: Port_unbind_def split: option.splits)
  from Port_find_SomeD [OF i] obtain b where b: "i < length (pt_bindings p)" "pt_bindings p ! i = Some b" "bkey b = (s, g)"
    by blast
  have "Port_find p' s g = None"
  proof (rule ccontr)
    assume "Port_find p' s g \<noteq> None"
    then obtain j c where j: "j < length (pt_bindings p')" "pt_bindings p' ! j = Some c" "bkey c = (s, g)"
      using Port_find_SomeD by blast
    then have "j \<noteq> i" "pt_bindings p ! j = Some c" using b by (auto simp: p' nth_list_update split: if_splits)
    with Port_wfD [OF assms(1), of j i c b] j b show False by (auto simp: p')
  qed
  then show "Port_lookup p' (s, g) = None" by (simp add: Port_lookup_def)
qed

lemma Port_new_wf: "Port_wf (Port_new n)" "Port_lookup (Port_new n) k = None"
proof -
  have "Port_find (Port_new n) s g = None" for s g
    by (auto simp: Port_find_def Port_new_def position_None_iff)
  then show "Port_lookup (Port_new n) k = None" by (simp add: Port_lookup_def)
  show "Port_wf (Port_new n)"
    by (auto simp: Port_wf_def keys_distinct_def Port_keys_def Port_new_def)
qed

subsection \<open>Edges are conserved\<close>

datatype port_op = Deliver "64 word" "8 word" "32 word" | Drain

definition pending :: "Port \<Rightarrow> 64 word \<times> 8 word \<Rightarrow> nat" where
  "pending p k = (case Port_lookup p k of None \<Rightarrow> 0 | Some b \<Rightarrow> unat (bd_pending b))"

text \<open>A run records the edges delivered to, and drained from, each bound pair.\<close>

fun port_run :: "Port \<Rightarrow> port_op list \<Rightarrow> (64 word \<times> 8 word \<Rightarrow> nat) \<times> (64 word \<times> 8 word \<Rightarrow> nat) \<times> Port" where
  "port_run p [] = (\<lambda>_. 0, \<lambda>_. 0, p)"
| "port_run p (Deliver s g n # ops) =
     (let (ok, p1) = Port_deliver p s g n; (d, e, p2) = port_run p1 ops in
      (if ok then d((s, g) := d (s, g) + unat n) else d, e, p2))"
| "port_run p (Drain # ops) =
     (let (r, p1) = Port_drain p; (d, e, p2) = port_run p1 ops in
      (d, (case r of None \<Rightarrow> e
           | Some ev \<Rightarrow> e((pe_source ev, pe_signal ev) := e (pe_source ev, pe_signal ev) + unat (pe_pending ev))), p2))"

lemma port_run_conserves:
  assumes "Port_wf p" "port_run p ops = (d, e, p')" "pending p k + d k < 2 ^ 32"
  shows "Port_wf p' \<and> pending p k + d k = e k + pending p' k"
  using assms
proof (induction ops arbitrary: p d e p')
  case (Cons op ops)
  show ?case
  proof (cases op)
    case (Deliver s g n)
    obtain ok p1 where p1: "Port_deliver p s g n = (ok, p1)" by (cases "Port_deliver p s g n")
    obtain d1 e1 p2 where r: "port_run p1 ops = (d1, e1, p2)" by (cases "port_run p1 ops")
    have de: "e = e1" "p' = p2" "d = (if ok then d1((s, g) := d1 (s, g) + unat n) else d1)"
      using Cons.prems(2) Deliver p1 r by (auto split: if_splits)
    note ds = deliver_spec [OF Cons.prems(1) p1]
    show ?thesis
    proof (cases "Port_lookup p (s, g)")
      case None
      with ds have "\<not> ok" "p1 = p" by auto
      with Cons.IH [OF _ r] Cons.prems de show ?thesis by simp
    next
      case (Some b)
      with ds have ok: "ok" "Port_wf p1"
        and l: "Port_lookup p1 = (Port_lookup p)((s, g) \<mapsto> b\<lparr>bd_pending := sat_add (bd_pending b) n, bd_asserted := True\<rparr>)"
        by auto
      have "pending p1 k = (if k = (s, g) then unat (sat_add (bd_pending b) n) else pending p k)"
        by (simp add: pending_def l)
      moreover have "unat (sat_add (bd_pending b) n) = unat (bd_pending b) + unat n" if "k = (s, g)"
        using Cons.prems(3) de ok that Some by (intro unat_sat_add) (simp add: pending_def)
      ultimately have "pending p1 k + d1 k = pending p k + d k"
        using de ok Some by (auto simp: pending_def)
      with Cons.IH [OF ok(2) r] Cons.prems(3) de show ?thesis by simp
    qed
  next
    case Drain
    obtain ev p1 where p1: "Port_drain p = (ev, p1)" by (cases "Port_drain p")
    obtain d1 e1 p2 where r: "port_run p1 ops = (d1, e1, p2)" by (cases "port_run p1 ops")
    note ds = drain_spec [OF Cons.prems(1) p1]
    show ?thesis
    proof (cases ev)
      case None
      with ds have "p1 = p" by auto
      with Cons.IH [OF _ r] Cons.prems None Drain p1 r show ?thesis by simp
    next
      case (Some v)
      let ?k = "(pe_source v, pe_signal v)"
      from Some ds obtain b where b: "Port_lookup p ?k = Some b" "pe_pending v = bd_pending b" "Port_wf p1"
          "Port_lookup p1 = (Port_lookup p)(?k \<mapsto> b\<lparr>bd_pending := 0, bd_asserted := False\<rparr>)" by auto
      have de: "d = d1" "p' = p2" "e = e1(?k := e1 ?k + unat (pe_pending v))"
        using Cons.prems(2) Drain p1 r Some by auto
      have p1k: "pending p1 k = (if k = ?k then 0 else pending p k)" by (simp add: pending_def b(4))
      then have "pending p1 k + d1 k < 2 ^ 32" using Cons.prems(3) de by (auto split: if_splits)
      from Cons.IH [OF b(3) r this] p1k de b show ?thesis by (auto simp: pending_def)
    qed
  qed
qed simp

text \<open>C21: Coalescing never loses or invents an edge: over any sequence of deliveries and
  drains on a port, the edges pending on a pair before plus those delivered to it are
  exactly the edges reported by drains plus those still pending, as long as that total
  fits the 32-bit count.\<close>
theorem port_edges_conserved:
  assumes "Port_wf p" "port_run p ops = (d, e, p')" "pending p k + d k < 2 ^ 32"
  shows "pending p k + d k = e k + pending p' k"
  using port_run_conserves [OF assms] by simp

definition sample_port :: Port where
  "sample_port = snd (Port_bind (Port_new 2) 5 1)"

lemma sample_port_wf: "Port_wf sample_port"
proof -
  have "Port_bind (Port_new 2) 5 1 = (Ok (), sample_port)" by (simp add: prod_eq_iff sample_port_def) code_simp
  from bind_spec [OF Port_new_wf(1) this] show ?thesis by simp
qed

theorem port_edges_conserved_witness:
  "let (d, e, p') = port_run sample_port [Deliver 5 1 2, Deliver 5 1 3, Drain, Deliver 5 1 4] in
   pending sample_port (5, 1) + d (5, 1) = e (5, 1) + pending p' (5, 1) \<and> d (5, 1) = 9 \<and> e (5, 1) = 5"
proof -
  let ?ops = "[Deliver 5 1 2, Deliver 5 1 3, Drain, Deliver 5 1 4]"
  obtain d e p' where r: "port_run sample_port ?ops = (d, e, p')" by (cases "port_run sample_port ?ops")
  have v: "fst (port_run sample_port ?ops) (5, 1) = 9 \<and> fst (snd (port_run sample_port ?ops)) (5, 1) = 5 \<and>
      pending sample_port (5, 1) = 0" by code_simp
  from port_edges_conserved [OF sample_port_wf r, of "(5, 1)"] v r show ?thesis by simp
qed

text \<open>A drain and the readiness test agree: \<open>drain\<close> returns an event exactly when some
  binding is asserted, so a caller that finds nothing asserted parks without missing one,
  and every binding with pending edges is asserted.\<close>
theorem drain_iff_asserted:
  assumes "Port_wf p"
  shows "(fst (Port_drain p) \<noteq> None \<longleftrightarrow> Port_is_asserted p) \<and> (pending p k > 0 \<longrightarrow> Port_is_asserted p)"
proof -
  obtain r p' where r: "Port_drain p = (r, p')" by (cases "Port_drain p")
  have a: "Port_is_asserted p \<longleftrightarrow> (\<exists>k b. Port_lookup p k = Some b \<and> bd_asserted b)"
    unfolding Port_is_asserted_def list_ex_iff Bex_def Port_lookup_range [OF assms] by blast
  have "pending p k > 0 \<longrightarrow> Port_is_asserted p"
  proof
    assume "pending p k > 0"
    then obtain b where b: "Port_lookup p k = Some b" "0 < unat (bd_pending b)"
      by (auto simp: pending_def split: option.splits)
    then have "bd_pending b > 0" by (simp add: unat_gt_0 word_gt_0)
    moreover from b have "b \<in> set (flatten (pt_bindings p))"
      unfolding Port_lookup_range [OF assms] by blast
    ultimately show "Port_is_asserted p" using b(1) assms a unfolding Port_wf_def by blast
  qed
  moreover have "fst (Port_drain p) \<noteq> None \<longleftrightarrow> Port_is_asserted p"
    using drain_spec [OF assms r] a r by (auto split: option.splits)
  ultimately show ?thesis by blast
qed

theorem drain_iff_asserted_witness:
  "(fst (Port_drain (snd (Port_deliver sample_port 5 1 3))) \<noteq> None
     \<longleftrightarrow> Port_is_asserted (snd (Port_deliver sample_port 5 1 3))) \<and>
   Port_is_asserted (snd (Port_deliver sample_port 5 1 3))"
proof -
  let ?p = "snd (Port_deliver sample_port 5 1 3)"
  have "Port_wf ?p"
    using deliver_spec [OF sample_port_wf, of 5 1 3 "fst (Port_deliver sample_port 5 1 3)" ?p] sample_port_wf
    by (auto split: option.splits)
  moreover have "pending ?p (5, 1) > 0" by code_simp
  ultimately show ?thesis using drain_iff_asserted [of ?p "(5, 1)"] by simp
qed

end
