(* ===== verification/Addr.thy ===== *)
theory Addr
  imports Prelude
begin

text \<open>
  Addresses and frames, \<^verbatim>\<open>karch/src/addr.rs\<close>. A physical or virtual address is a 64-bit
  word; a frame is represented by its base, which every constructor guarantees to be
  aligned.
\<close>

type_synonym PhysFrame = "64 word"

definition FRAME_SIZE :: "64 word" where "FRAME_SIZE = 4096"

definition align_down :: "64 word \<Rightarrow> 64 word \<Rightarrow> 64 word" where
  "align_down a align = a AND NOT (align - 1)"

definition align_up :: "64 word \<Rightarrow> 64 word \<Rightarrow> 64 word option" where
  "align_up a align = map_option (\<lambda>sum. sum AND NOT (align - 1)) (checked_add a (align - 1))"

definition is_aligned :: "64 word \<Rightarrow> 64 word \<Rightarrow> bool" where
  "is_aligned a align \<longleftrightarrow> a AND (align - 1) = 0"

definition PhysFrame_from_base :: "PhysAddr \<Rightarrow> PhysFrame option" where
  "PhysFrame_from_base base = (if is_aligned base FRAME_SIZE then Some base else None)"

definition PhysFrame_containing :: "PhysAddr \<Rightarrow> PhysFrame" where
  "PhysFrame_containing addr = align_down addr FRAME_SIZE"

definition PhysFrame_from_number :: "64 word \<Rightarrow> PhysFrame option" where
  "PhysFrame_from_number n =
     (if unat n * unat FRAME_SIZE < 2 ^ 64 then Some (n * FRAME_SIZE) else None)"

definition PhysFrame_number :: "PhysFrame \<Rightarrow> 64 word" where
  "PhysFrame_number f = f div FRAME_SIZE"

subsection \<open>Alignment as divisibility\<close>

lemma frame_mask: "(FRAME_SIZE - 1) = mask 12"
  by (simp add: FRAME_SIZE_def mask_eq_exp_minus_1)

lemma unat_FRAME_SIZE [simp]: "unat FRAME_SIZE = 4096"
  by (simp add: FRAME_SIZE_def)

lemma is_aligned_iff_take_bit: "is_aligned a FRAME_SIZE \<longleftrightarrow> take_bit 12 a = 0"
  unfolding is_aligned_def frame_mask take_bit_eq_mask ..

lemma unat_take_bit12: "unat (take_bit 12 (a :: 64 word)) = unat a mod 4096"
  by (simp add: take_bit_eq_mod unat_mod)

lemma is_aligned_dvd: "is_aligned a FRAME_SIZE \<longleftrightarrow> 4096 dvd unat a"
  unfolding is_aligned_iff_take_bit dvd_eq_mod_eq_0 unat_take_bit12 [symmetric] by (simp add: unat_eq_zero)

lemma unat_align_down: "unat (align_down a FRAME_SIZE) = unat a - unat a mod 4096"
proof -
  have "a = align_down a FRAME_SIZE OR take_bit 12 a"
    unfolding align_down_def frame_mask take_bit_eq_mask by (rule bit_word_eqI) (auto simp: bit_simps)
  moreover have "align_down a FRAME_SIZE AND take_bit 12 a = 0"
    unfolding align_down_def frame_mask take_bit_eq_mask by (rule bit_word_eqI) (auto simp: bit_simps)
  ultimately have s: "a = align_down a FRAME_SIZE + take_bit 12 a"
    by (simp add: disjunctive_add_eq_or)
  have le: "align_down a FRAME_SIZE \<le> a"
    unfolding align_down_def by (rule word_and_le2)
  from s have "align_down a FRAME_SIZE = a - take_bit 12 a" by (simp add: algebra_simps)
  moreover have "take_bit 12 a \<le> a"
    unfolding take_bit_eq_mask by (rule word_and_le2)
  ultimately show ?thesis using unat_take_bit12 [of a] by (simp add: unat_sub)
qed

lemma align_down_aligned: "is_aligned (align_down a FRAME_SIZE) FRAME_SIZE"
  unfolding is_aligned_dvd unat_align_down by (simp add: dvd_minus_mod)

lemma align_down_le: "align_down a FRAME_SIZE \<le> a"
  unfolding align_down_def by (rule word_and_le2)

lemma align_down_idem: "is_aligned a FRAME_SIZE \<Longrightarrow> align_down a FRAME_SIZE = a"
  by (metis is_aligned_dvd unat_align_down dvd_imp_mod_0 diff_zero word_unat_eq_iff)

lemma unat_align_up:
  "align_up a FRAME_SIZE = Some b \<Longrightarrow> is_aligned b FRAME_SIZE \<and> unat a \<le> unat b \<and> unat b < unat a + 4096"
proof -
  assume "align_up a FRAME_SIZE = Some b"
  then obtain s where s: "checked_add a (FRAME_SIZE - 1) = Some s" and b: "b = align_down s FRAME_SIZE"
    by (auto simp: align_up_def align_down_def)
  have u: "unat (FRAME_SIZE - 1) = 4095" by (simp add: FRAME_SIZE_def)
  then have us: "unat s = unat a + 4095"
    using s unat_add_lem [of a "FRAME_SIZE - 1"] by (simp add: checked_add_Some_iff)
  have "unat b = unat s - unat s mod 4096" by (simp add: b unat_align_down)
  moreover have "unat s mod 4096 < 4096" "unat s mod 4096 \<le> unat s" by simp_all
  ultimately have "unat a \<le> unat b" "unat b < unat a + 4096" using us by linarith+
  with align_down_aligned [of s] b show ?thesis by simp
qed

lemma aligned_add:
  "is_aligned a FRAME_SIZE \<Longrightarrow> is_aligned b FRAME_SIZE \<Longrightarrow> is_aligned (a + b) FRAME_SIZE"
  unfolding is_aligned_dvd unat_word_ariths by (rule dvd_mod) (auto intro: dvd_add)

lemma aligned_FRAME_SIZE [simp]: "is_aligned FRAME_SIZE FRAME_SIZE"
  unfolding is_aligned_dvd by simp

lemma aligned_mult: "is_aligned (n * FRAME_SIZE) FRAME_SIZE"
proof -
  have "n * FRAME_SIZE = push_bit 12 n" by (simp add: FRAME_SIZE_def push_bit_eq_mult)
  then show ?thesis unfolding is_aligned_iff_take_bit by (simp add: take_bit_push_bit)
qed

lemma from_base_iff: "PhysFrame_from_base b = Some f \<longleftrightarrow> is_aligned b FRAME_SIZE \<and> f = b"
  by (auto simp: PhysFrame_from_base_def)

text \<open>A frame and its number determine each other.\<close>

lemma from_number_number:
  assumes "is_aligned f FRAME_SIZE"
  shows "PhysFrame_from_number (PhysFrame_number f) = Some f"
proof -
  have "unat (f div FRAME_SIZE) * 4096 = unat f"
    using assms by (simp add: unat_div is_aligned_dvd)
  moreover from this have "f div FRAME_SIZE * FRAME_SIZE = f"
    by (metis unat_FRAME_SIZE unsigned_less unat_mult_lem word_unat_eq_iff)
  moreover have "unat f < 2 ^ 64" using unsigned_less [of f] by simp
  ultimately show ?thesis by (simp add: PhysFrame_from_number_def PhysFrame_number_def)
qed

lemma number_from_number:
  assumes "PhysFrame_from_number n = Some f"
  shows "PhysFrame_number f = n" and "is_aligned f FRAME_SIZE"
proof -
  from assms have lt: "unat n * unat FRAME_SIZE < 2 ^ LENGTH(64)" and f: "f = n * FRAME_SIZE"
    by (auto simp: PhysFrame_from_number_def split: if_splits)
  then have "unat f = unat n * 4096" using unat_mult_lem [of n FRAME_SIZE] by simp
  then have "unat (f div FRAME_SIZE) = unat n" by (simp add: unat_div)
  then show "PhysFrame_number f = n" by (simp add: PhysFrame_number_def word_unat_eq_iff)
  show "is_aligned f FRAME_SIZE" unfolding f by (rule aligned_mult)
qed

end
