(* ===== verification/Waits.thy ===== *)
theory Waits
  imports Addr
begin

text \<open>
  Wait-on-address, \<^verbatim>\<open>kcore/src/wait.rs\<close>: the pool of threads parked on a word of physical
  memory. A key is the frame and the offset of the word; the pool is abstracted to the
  multiset of enrolled (key, thread) pairs.
\<close>

record WaitKey =
  wk_frame :: "64 word"
  wk_offset :: "64 word"

definition WaitKey_at :: "64 word \<Rightarrow> WaitKey" where
  "WaitKey_at phys = \<lparr> wk_frame = phys div FRAME_SIZE, wk_offset = phys mod FRAME_SIZE \<rparr>"

record Waiter =
  wt_key :: WaitKey
  wt_thread :: ThreadId

record WaitSet =
  ws_waiters :: "Waiter option list"

definition WaitSet_new :: "nat \<Rightarrow> WaitSet" where
  "WaitSet_new max_waiters = \<lparr> ws_waiters = replicate max_waiters None \<rparr>"

definition WaitSet_enroll :: "WaitSet \<Rightarrow> WaitKey \<Rightarrow> ThreadId \<Rightarrow> unit res \<times> WaitSet" where
  "WaitSet_enroll w key thread =
     (case free_slot (ws_waiters w) of
        None \<Rightarrow> (Err OutOfMemory, w)
      | Some slot \<Rightarrow>
          (Ok (), w\<lparr>ws_waiters := (ws_waiters w)[slot := Some \<lparr>wt_key = key, wt_thread = thread\<rparr>]\<rparr>))"

definition WaitSet_pop_matching :: "WaitSet \<Rightarrow> WaitKey \<Rightarrow> ThreadId option \<times> WaitSet" where
  "WaitSet_pop_matching w key =
     (case position (\<lambda>x. case x of Some entry \<Rightarrow> wt_key entry = key | None \<Rightarrow> False) (ws_waiters w) of
        None \<Rightarrow> (None, w)
      | Some slot \<Rightarrow>
          (map_option wt_thread (ws_waiters w ! slot),
           w\<lparr>ws_waiters := (ws_waiters w)[slot := None]\<rparr>))"

definition WaitSet_len :: "WaitSet \<Rightarrow> nat" where
  "WaitSet_len w = count_some (ws_waiters w)"

definition WaitSet_is_empty :: "WaitSet \<Rightarrow> bool" where
  "WaitSet_is_empty w \<longleftrightarrow> WaitSet_len w = 0"

subsection \<open>Keys\<close>

text \<open>A key names a word of memory and nothing else: it can be turned back into the
  physical address, so two addresses share a key only when they are the same word.\<close>

lemma WaitKey_at_address: "wk_frame (WaitKey_at p) * FRAME_SIZE + wk_offset (WaitKey_at p) = p"
  unfolding WaitKey_at_def WaitKey.select_convs by (rule div_mult_mod_eq)

lemma WaitKey_at_inj: "WaitKey_at p = WaitKey_at q \<longleftrightarrow> p = q"
  by (metis WaitKey_at_address)

subsection \<open>The pool as a multiset\<close>

definition waiters :: "WaitSet \<Rightarrow> Waiter multiset" where
  "waiters w = mset (flatten (ws_waiters w))"

definition waiters_on :: "WaitSet \<Rightarrow> WaitKey \<Rightarrow> ThreadId multiset" where
  "waiters_on w key = image_mset wt_thread {# x \<in># waiters w. wt_key x = key #}"

lemma size_waiters: "size (waiters w) = WaitSet_len w"
  by (simp add: waiters_def WaitSet_len_def length_flatten)

lemma waiters_new [simp]: "waiters (WaitSet_new n) = {#}"
  by (simp add: waiters_def WaitSet_new_def)

lemma enroll_waiters:
  "WaitSet_enroll w key t = (r, w') \<Longrightarrow>
   length (ws_waiters w') = length (ws_waiters w) \<and>
   (case r of
      Ok _ \<Rightarrow> waiters w' = add_mset \<lparr>wt_key = key, wt_thread = t\<rparr> (waiters w)
    | Err e \<Rightarrow> e = OutOfMemory \<and> w' = w \<and> WaitSet_len w = length (ws_waiters w))"
  using count_some_less_iff [of "ws_waiters w"] count_some_le [of "ws_waiters w"]
  by (auto simp: WaitSet_enroll_def waiters_def WaitSet_len_def slot_simps
      split: option.splits dest!: free_slotD)

lemma pop_matching_waiters:
  assumes "WaitSet_pop_matching w key = (r, w')"
  shows "length (ws_waiters w') = length (ws_waiters w) \<and>
   (case r of
      Some t \<Rightarrow> waiters w = add_mset \<lparr>wt_key = key, wt_thread = t\<rparr> (waiters w')
    | None \<Rightarrow> w' = w \<and> waiters_on w key = {#})"
proof (cases "position (\<lambda>x. case x of Some entry \<Rightarrow> wt_key entry = key | None \<Rightarrow> False) (ws_waiters w)")
  case None
  then have "\<forall>x \<in> set (flatten (ws_waiters w)). wt_key x \<noteq> key"
    by (auto simp: position_None_iff set_flatten)
  with assms None show ?thesis
    by (auto simp: WaitSet_pop_matching_def waiters_on_def waiters_def filter_empty_conv mset_filter [symmetric] simp del: mset_filter)
next
  case (Some i)
  from position_SomeD [OF this] obtain x where
    x: "i < length (ws_waiters w)" "ws_waiters w ! i = Some x" "wt_key x = key"
    by (auto split: option.splits)
  then have "x = \<lparr>wt_key = key, wt_thread = wt_thread x\<rparr>" by simp
  moreover have "r = Some (wt_thread x)" "w' = w\<lparr>ws_waiters := (ws_waiters w)[i := None]\<rparr>"
    using assms Some x by (auto simp: WaitSet_pop_matching_def)
  ultimately show ?thesis
    using mset_flatten_clear [of i "ws_waiters w" x] x(1,2) by (simp add: waiters_def)
qed

text \<open>What a pop takes from the waiters of each key.\<close>

lemma enroll_waiters_on:
  "WaitSet_enroll w key t = (Ok (), w') \<Longrightarrow>
   waiters_on w' k = waiters_on w k + (if k = key then {#t#} else {#})"
  using enroll_waiters [of w key t "Ok ()" w'] by (simp add: waiters_on_def)

lemma pop_matching_waiters_on:
  "WaitSet_pop_matching w key = (Some t, w') \<Longrightarrow>
   waiters_on w k = waiters_on w' k + (if k = key then {#t#} else {#})"
  using pop_matching_waiters [of w key "Some t" w'] by (simp add: waiters_on_def)

lemma pop_matching_None_iff:
  "fst (WaitSet_pop_matching w key) = None \<longleftrightarrow> waiters_on w key = {#}"
proof (cases "WaitSet_pop_matching w key")
  case (Pair r w')
  then show ?thesis
    using pop_matching_waiters [OF Pair] pop_matching_waiters_on [of w key _ w' key]
    by (cases r) auto
qed

text \<open>A wait key is the physical word and nothing else: recombining the frame number and
  the offset of a key gives the address back, the offset stays inside the frame, and two
  addresses have the same key only when they are the same word. Two processes that map the
  same frame at different virtual addresses therefore meet on one key, and no two different
  words are ever confused.\<close>
theorem wait_key_roundtrip:
  "wk_frame (WaitKey_at p) * FRAME_SIZE + wk_offset (WaitKey_at p) = p \<and>
   wk_offset (WaitKey_at p) < FRAME_SIZE \<and>
   (WaitKey_at p = WaitKey_at q \<longleftrightarrow> p = q)"
proof -
  have "wk_offset (WaitKey_at p) < FRAME_SIZE"
    by (simp add: WaitKey_at_def FRAME_SIZE_def word_less_nat_alt unat_mod_distrib)
  with WaitKey_at_address [of p] WaitKey_at_inj [of p q] show ?thesis by blast
qed

end
