(* ===== verification/Jobs.thy ===== *)
theory Jobs
  imports Objects
begin

text \<open>
  Jobs, \<^verbatim>\<open>kcore/src/job.rs\<close>: the containment forest. A job holds member processes and
  child jobs; limits only tighten downwards; a kill walks the subtree depth first and
  marks it innermost first. The capacities \<^verbatim>\<open>MAX_CHILDREN_PER_JOB\<close> and
  \<^verbatim>\<open>MAX_MEMBERS_PER_JOB\<close> are arguments (\<open>mc\<close>, \<open>mm\<close>) of the operations that build a job;
  \<^verbatim>\<open>MAX_JOBS\<close> is the length of the pool.
\<close>

definition SIGNAL_MEMBER_EXIT :: "8 word" where "SIGNAL_MEMBER_EXIT = 1"
definition SIGNAL_EMPTY :: "8 word" where "SIGNAL_EMPTY = 2"

type_synonym JobId = nat

record JobLimits =
  max_processes :: "32 word"

definition JobLimits_within :: "JobLimits \<Rightarrow> JobLimits \<Rightarrow> bool" where
  "JobLimits_within self ancestor \<longleftrightarrow> max_processes self \<le> max_processes ancestor"

record Member =
  mb_process :: ObjectId
  mb_thread :: ThreadId

record Job =
  jb_object :: ObjectId
  jb_parent :: "JobId option"
  jb_children :: "JobId option list"
  jb_members :: "Member option list"
  jb_limits :: JobLimits
  jb_state_source :: "64 word"
  jb_killed :: bool

definition Job_new :: "nat \<Rightarrow> nat \<Rightarrow> ObjectId \<Rightarrow> JobId option \<Rightarrow> JobLimits \<Rightarrow> Job" where
  "Job_new mc mm object parent limits =
     \<lparr> jb_object = object, jb_parent = parent,
       jb_children = replicate mc None, jb_members = replicate mm None,
       jb_limits = limits, jb_state_source = ucast (ObjectId_raw object), jb_killed = False \<rparr>"

definition Job_member_count :: "Job \<Rightarrow> nat" where
  "Job_member_count j = length (flatten (jb_members j))"

record JobTable =
  jt_jobs :: "Job option list"

definition JobTable_new :: "nat \<Rightarrow> JobTable" where
  "JobTable_new max_jobs = \<lparr> jt_jobs = replicate max_jobs None \<rparr>"

definition JobTable_job :: "JobTable \<Rightarrow> JobId \<Rightarrow> Job option" where
  "JobTable_job t i = (case get_opt (jt_jobs t) i of Some j \<Rightarrow> j | None \<Rightarrow> None)"

definition JobTable_set_job :: "JobTable \<Rightarrow> JobId \<Rightarrow> Job \<Rightarrow> JobTable" where
  "JobTable_set_job t i j = t\<lparr>jt_jobs := (jt_jobs t)[i := Some j]\<rparr>"

definition JobTable_free_slot :: "JobTable \<Rightarrow> nat res" where
  "JobTable_free_slot t = (case free_slot (jt_jobs t) of Some i \<Rightarrow> Ok i | None \<Rightarrow> Err OutOfMemory)"

definition JobTable_create_root ::
    "nat \<Rightarrow> nat \<Rightarrow> JobTable \<Rightarrow> ObjectId \<Rightarrow> JobLimits \<Rightarrow> JobId res \<times> JobTable" where
  "JobTable_create_root mc mm t object limits =
     (case JobTable_free_slot t of
        Err e \<Rightarrow> (Err e, t)
      | Ok index \<Rightarrow> (Ok index, JobTable_set_job t index (Job_new mc mm object None limits)))"

definition JobTable_create_child ::
    "nat \<Rightarrow> nat \<Rightarrow> JobTable \<Rightarrow> JobId \<Rightarrow> ObjectId \<Rightarrow> JobLimits \<Rightarrow> Rights \<Rightarrow> JobId res \<times> JobTable" where
  "JobTable_create_child mc mm t parent object limits caller_rights =
     (if \<not> Rights_contains caller_rights Rights_CREATE_JOB then (Err AccessDenied, t)
      else case JobTable_job t parent of
        None \<Rightarrow> (Err BadHandle, t)
      | Some parent_job \<Rightarrow>
          if jb_killed parent_job then (Err BadHandle, t)
          else if \<not> JobLimits_within limits (jb_limits parent_job) then (Err LimitExceeded, t)
          else case JobTable_free_slot t of
            Err e \<Rightarrow> (Err e, t)
          | Ok index \<Rightarrow>
              let t1 = JobTable_set_job t index (Job_new mc mm object (Some parent) limits) in
              (case JobTable_job t1 parent of
                 None \<Rightarrow> (Err BadHandle, t1)
               | Some pj \<Rightarrow>
                   (case free_slot (jb_children pj) of
                      None \<Rightarrow> (Err OutOfMemory, t1)
                    | Some slot \<Rightarrow>
                        (Ok index, JobTable_set_job t1 parent
                           (pj\<lparr>jb_children := (jb_children pj)[slot := Some index]\<rparr>)))))"

definition JobTable_add_process :: "JobTable \<Rightarrow> JobId \<Rightarrow> Member \<Rightarrow> Rights \<Rightarrow> unit res \<times> JobTable" where
  "JobTable_add_process t job member caller_rights =
     (if \<not> Rights_contains caller_rights Rights_CREATE_PROCESS then (Err AccessDenied, t)
      else case JobTable_job t job of
        None \<Rightarrow> (Err BadHandle, t)
      | Some j \<Rightarrow>
          if jb_killed j then (Err BadHandle, t)
          else if (of_nat (Job_member_count j) :: 32 word) \<ge> max_processes (jb_limits j) then (Err LimitExceeded, t)
          else case free_slot (jb_members j) of
            None \<Rightarrow> (Err OutOfMemory, t)
          | Some slot \<Rightarrow>
              (Ok (), JobTable_set_job t job (j\<lparr>jb_members := (jb_members j)[slot := Some member]\<rparr>)))"

text \<open>The kill walk. The scratch stack is the list of its live entries, top first; both
  scratch arrays have \<^verbatim>\<open>MAX_JOBS\<close> entries, and exceeding either is the \<open>OutOfMemory\<close>
  branch.\<close>

fun push_children :: "nat \<Rightarrow> JobId list \<Rightarrow> JobId list \<Rightarrow> JobId list res" where
  "push_children cp [] stack = Ok stack"
| "push_children cp (c # cs) stack =
     (if cp \<le> length stack then Err OutOfMemory else push_children cp cs (c # stack))"

function kill_walk :: "JobTable \<Rightarrow> JobId list \<Rightarrow> JobId list \<Rightarrow> JobId list res" where
  "kill_walk t pre [] = Ok pre"
| "kill_walk t pre (job_id # stack) =
     (if length (jt_jobs t) \<le> length pre then Err OutOfMemory
      else
        (case JobTable_job t job_id of
           None \<Rightarrow> kill_walk t (pre @ [job_id]) stack
         | Some job \<Rightarrow>
             (case push_children (length (jt_jobs t)) (flatten (jb_children job)) stack of
                Err e \<Rightarrow> Err e
              | Ok stack' \<Rightarrow> kill_walk t (pre @ [job_id]) stack')))"
  by pat_completeness auto
termination
  by (relation "measure (\<lambda>(t, pre, stack). length (jt_jobs t) - length pre)") auto

fun mark_killed :: "JobTable \<Rightarrow> JobId option list \<Rightarrow> JobTable" where
  "mark_killed t [] = t"
| "mark_killed t (None # slots) = mark_killed t slots"
| "mark_killed t (Some job_id # slots) =
     mark_killed
       (case JobTable_job t job_id of
          Some job \<Rightarrow> JobTable_set_job t job_id (job\<lparr>jb_killed := True\<rparr>)
        | None \<Rightarrow> t) slots"

definition JobTable_kill_order ::
    "JobTable \<Rightarrow> JobId \<Rightarrow> Rights \<Rightarrow> JobId option list \<Rightarrow> nat res \<times> JobTable \<times> JobId option list" where
  "JobTable_kill_order t root caller_rights order =
     (if \<not> Rights_contains caller_rights Rights_KILL then (Err AccessDenied, t, order)
      else if JobTable_job t root = None then (Err BadHandle, t, order)
      else case kill_walk t [] [root] of
        Err e \<Rightarrow> (Err e, t, order)
      | Ok pre \<Rightarrow>
          if length order < length pre then (Err OutOfMemory, t, order)
          else
            let order' = map Some (rev pre) @ drop (length pre) order
            in (Ok (length pre), mark_killed t (take (length pre) order'), order'))"

subsection \<open>The invariant\<close>

text \<open>Slots are never freed, so the pool fills from the front; every child link goes from a
  job to a younger one that names it as its parent, and no child is linked twice.\<close>

definition kids :: "JobTable \<Rightarrow> JobId \<Rightarrow> JobId list" where
  "kids t i = (case JobTable_job t i of Some j \<Rightarrow> flatten (jb_children j) | None \<Rightarrow> [])"

definition job_wf :: "Job \<Rightarrow> bool" where
  "job_wf j \<longleftrightarrow> Job_member_count j \<le> unat (max_processes (jb_limits j)) \<and> length (jb_members j) < 2 ^ 32"

definition jobs_wf :: "JobTable \<Rightarrow> bool" where
  "jobs_wf t \<longleftrightarrow>
     (\<forall>i k. i < k \<longrightarrow> JobTable_job t k \<noteq> None \<longrightarrow> JobTable_job t i \<noteq> None) \<and>
     (\<forall>p c. c \<in> set (kids t p) \<longrightarrow> p < c \<and> map_option jb_parent (JobTable_job t c) = Some (Some p)) \<and>
     (\<forall>p. distinct (kids t p)) \<and>
     (\<forall>i j. JobTable_job t i = Some j \<longrightarrow> job_wf j) \<and>
     (\<forall>i j p. JobTable_job t i = Some j \<longrightarrow> jb_parent j = Some p \<longrightarrow>
        (\<exists>pj. JobTable_job t p = Some pj \<and> JobLimits_within (jb_limits j) (jb_limits pj) \<and> p < i))"

lemma job_Some_iff: "JobTable_job t i = Some j \<longleftrightarrow> i < length (jt_jobs t) \<and> jt_jobs t ! i = Some j"
  by (auto simp: JobTable_job_def get_opt_def)

lemma job_less: "JobTable_job t i \<noteq> None \<Longrightarrow> i < length (jt_jobs t)"
  by (auto simp: JobTable_job_def get_opt_def split: if_splits)

lemma job_set_job [simp]:
  "i < length (jt_jobs t) \<Longrightarrow> JobTable_job (JobTable_set_job t i j) = (JobTable_job t)(i \<mapsto> j)"
  by (auto simp: JobTable_job_def JobTable_set_job_def get_opt_def fun_eq_iff)

lemma length_set_job [simp]: "length (jt_jobs (JobTable_set_job t i j)) = length (jt_jobs t)"
  by (simp add: JobTable_set_job_def)

lemma free_slot_Ok:
  assumes "JobTable_free_slot t = Ok i"
  shows "i < length (jt_jobs t)" and "JobTable_job t i = None"
  using assms by (auto simp: JobTable_free_slot_def JobTable_job_def get_opt_def
      split: option.splits dest!: free_slotD)

lemma jobs_wfD:
  assumes "jobs_wf t"
  shows "i < k \<Longrightarrow> JobTable_job t k \<noteq> None \<Longrightarrow> JobTable_job t i \<noteq> None"
    and "c \<in> set (kids t p) \<Longrightarrow> p < c"
    and "c \<in> set (kids t p) \<Longrightarrow> map_option jb_parent (JobTable_job t c) = Some (Some p)"
    and "distinct (kids t p)"
    and "JobTable_job t i = Some j \<Longrightarrow> job_wf j"
  using assms unfolding jobs_wf_def by blast+

lemma kids_unique:
  "jobs_wf t \<Longrightarrow> c \<in> set (kids t p) \<Longrightarrow> c \<in> set (kids t q) \<Longrightarrow> p = q"
  using jobs_wfD(3) [of t c p] jobs_wfD(3) [of t c q] by simp

lemma kids_live: "jobs_wf t \<Longrightarrow> c \<in> set (kids t p) \<Longrightarrow> c < length (jt_jobs t)"
  using jobs_wfD(3) [of t c p] job_less [of t c] by auto

lemma kids_dead: "JobTable_job t i = None \<Longrightarrow> kids t i = []"
  by (simp add: kids_def)

subsection \<open>Every operation keeps the invariant\<close>

lemma kids_set_job:
  "i < length (jt_jobs t) \<Longrightarrow> kids (JobTable_set_job t i j) p = (if p = i then flatten (jb_children j) else kids t p)"
  by (simp add: kids_def)

lemma update_job_wf:
  assumes wf: "jobs_wf t" and j: "JobTable_job t i = Some j"
    and same: "jb_children j' = jb_children j" "jb_parent j' = jb_parent j" "jb_limits j' = jb_limits j"
    and j': "job_wf j'"
  shows "jobs_wf (JobTable_set_job t i j')" and "kids (JobTable_set_job t i j') = kids t"
proof -
  have i: "i < length (jt_jobs t)" using j by (simp add: job_Some_iff)
  show k: "kids (JobTable_set_job t i j') = kids t"
    using i j same by (auto simp: kids_def fun_eq_iff)
  note w = wf [unfolded jobs_wf_def]
  show "jobs_wf (JobTable_set_job t i j')"
    unfolding jobs_wf_def k job_set_job [OF i]
  proof (intro conjI)
    show "\<forall>a b. a < b \<longrightarrow> ((JobTable_job t)(i \<mapsto> j')) b \<noteq> None \<longrightarrow> ((JobTable_job t)(i \<mapsto> j')) a \<noteq> None"
      using jobs_wfD(1) [OF wf] j by (metis fun_upd_apply option.distinct(1))
    show "\<forall>p c. c \<in> set (kids t p) \<longrightarrow>
        p < c \<and> map_option jb_parent (((JobTable_job t)(i \<mapsto> j')) c) = Some (Some p)"
      using jobs_wfD(2,3) [OF wf] j same(2) by (metis fun_upd_apply option.simps(9))
    show "\<forall>p. distinct (kids t p)" using w by blast
    show "\<forall>a b. ((JobTable_job t)(i \<mapsto> j')) a = Some b \<longrightarrow> job_wf b" using w j' by simp
    show "\<forall>a b p. ((JobTable_job t)(i \<mapsto> j')) a = Some b \<longrightarrow> jb_parent b = Some p \<longrightarrow>
        (\<exists>pj. ((JobTable_job t)(i \<mapsto> j')) p = Some pj \<and> JobLimits_within (jb_limits b) (jb_limits pj) \<and> p < a)"
    proof (intro allI impI)
      fix a b p
      assume a: "((JobTable_job t)(i \<mapsto> j')) a = Some b" and p: "jb_parent b = Some p"
      define b0 where "b0 = (if a = i then j else b)"
      have "JobTable_job t a = Some b0" "jb_parent b0 = Some p" "jb_limits b0 = jb_limits b"
        using a p j same by (auto simp: b0_def split: if_splits)
      with w obtain pj where "JobTable_job t p = Some pj" "JobLimits_within (jb_limits b) (jb_limits pj)" "p < a"
        by metis
      then show "\<exists>pj. ((JobTable_job t)(i \<mapsto> j')) p = Some pj \<and> JobLimits_within (jb_limits b) (jb_limits pj) \<and> p < a"
        using j same(3) by auto
    qed
  qed
qed

lemma free_slot_first:
  assumes "jobs_wf t" "JobTable_free_slot t = Ok i" "JobTable_job t k \<noteq> None"
  shows "k < i"
  using free_slot_Ok(2) [OF assms(2)] assms(3) jobs_wfD(1) [OF assms(1), of i k]
  by (metis linorder_neqE_nat)

lemma store_job_wf:
  assumes wf: "jobs_wf t" and i: "JobTable_free_slot t = Ok i"
    and j: "job_wf j" "flatten (jb_children j) = []"
    and par: "\<And>p. jb_parent j = Some p \<Longrightarrow>
        \<exists>pj. JobTable_job t p = Some pj \<and> JobLimits_within (jb_limits j) (jb_limits pj)"
  shows "jobs_wf (JobTable_set_job t i j)" and "kids (JobTable_set_job t i j) = kids t"
proof -
  note i' = free_slot_Ok [OF i]
  show k: "kids (JobTable_set_job t i j) = kids t"
    using i' j(2) by (auto simp: kids_def fun_eq_iff)
  note w = wf [unfolded jobs_wf_def]
  have fresh: "i \<notin> set (kids t p)" for p using jobs_wfD(3) [OF wf, of i p] i'(2) by auto
  show "jobs_wf (JobTable_set_job t i j)"
    unfolding jobs_wf_def k job_set_job [OF i'(1)]
  proof (intro conjI)
    have "JobTable_job t a \<noteq> None" if "a < i" for a
    proof -
      from i have "free_slot (jt_jobs t) = Some i" by (auto simp: JobTable_free_slot_def split: option.splits)
      then have "jt_jobs t ! a \<noteq> None"
        using position_SomeD(3) [of "\<lambda>x. x = None" "jt_jobs t" i] that by (auto simp: free_slot_def)
      then show ?thesis using that i'(1) by (auto simp: JobTable_job_def get_opt_def)
    qed
    then show "\<forall>a b. a < b \<longrightarrow> ((JobTable_job t)(i \<mapsto> j)) b \<noteq> None \<longrightarrow> ((JobTable_job t)(i \<mapsto> j)) a \<noteq> None"
      using jobs_wfD(1) [OF wf] by (metis fun_upd_apply option.distinct(1))
    show "\<forall>p c. c \<in> set (kids t p) \<longrightarrow>
        p < c \<and> map_option jb_parent (((JobTable_job t)(i \<mapsto> j)) c) = Some (Some p)"
      using jobs_wfD(2,3) [OF wf] fresh by (metis fun_upd_apply)
    show "\<forall>p. distinct (kids t p)" using w by blast
    show "\<forall>a b. ((JobTable_job t)(i \<mapsto> j)) a = Some b \<longrightarrow> job_wf b" using w j by simp
    show "\<forall>a b p. ((JobTable_job t)(i \<mapsto> j)) a = Some b \<longrightarrow> jb_parent b = Some p \<longrightarrow>
        (\<exists>pj. ((JobTable_job t)(i \<mapsto> j)) p = Some pj \<and> JobLimits_within (jb_limits b) (jb_limits pj) \<and> p < a)"
    proof (intro allI impI)
      fix a b p
      assume a: "((JobTable_job t)(i \<mapsto> j)) a = Some b" and p: "jb_parent b = Some p"
      have "\<exists>pj. JobTable_job t p = Some pj \<and> JobLimits_within (jb_limits b) (jb_limits pj) \<and> p < a"
      proof (cases "a = i")
        case True
        with a have "b = j" by simp
        with par p obtain pj where "JobTable_job t p = Some pj" "JobLimits_within (jb_limits b) (jb_limits pj)" by blast
        with True free_slot_first [OF wf i, of p] show ?thesis by auto
      next
        case False
        with a p w show ?thesis by (metis fun_upd_apply)
      qed
      then show "\<exists>pj. ((JobTable_job t)(i \<mapsto> j)) p = Some pj \<and> JobLimits_within (jb_limits b) (jb_limits pj) \<and> p < a"
        using i'(2) by (metis fun_upd_apply option.distinct(1))
    qed
  qed
qed

lemma link_child_wf:
  assumes wf: "jobs_wf t" and pj: "JobTable_job t p = Some pj" and c: "JobTable_job t c = Some j"
    and par: "jb_parent j = Some p" "p < c" and fresh: "\<And>q. c \<notin> set (kids t q)"
    and slot: "free_slot (jb_children pj) = Some s"
  shows "jobs_wf (JobTable_set_job t p (pj\<lparr>jb_children := (jb_children pj)[s := Some c]\<rparr>))"
    and "set (kids (JobTable_set_job t p (pj\<lparr>jb_children := (jb_children pj)[s := Some c]\<rparr>)) q)
          = set (kids t q) \<union> (if q = p then {c} else {})"
proof -
  let ?pj = "pj\<lparr>jb_children := (jb_children pj)[s := Some c]\<rparr>"
  let ?t = "JobTable_set_job t p ?pj"
  have p: "p < length (jt_jobs t)" using pj by (simp add: job_Some_iff)
  have kp: "kids t p = flatten (jb_children pj)" using pj by (simp add: kids_def)
  have m: "mset (kids ?t q) = mset (kids t q) + (if q = p then {#c#} else {#})" for q
    using slot by (auto simp: kids_set_job [OF p] kp slot_simps dest!: free_slotD)
  show s: "set (kids ?t q) = set (kids t q) \<union> (if q = p then {c} else {})" for q
    using arg_cong [OF m [of q], of set_mset] by (auto split: if_splits)
  note w = wf [unfolded jobs_wf_def]
  have up: "map_option jb_parent (((JobTable_job t)(p \<mapsto> ?pj)) a) = map_option jb_parent (JobTable_job t a)" for a
    using pj by simp
  show "jobs_wf ?t"
    unfolding jobs_wf_def job_set_job [OF p] up
  proof (intro conjI)
    show "\<forall>a b. a < b \<longrightarrow> ((JobTable_job t)(p \<mapsto> ?pj)) b \<noteq> None \<longrightarrow> ((JobTable_job t)(p \<mapsto> ?pj)) a \<noteq> None"
      using jobs_wfD(1) [OF wf] pj by (metis fun_upd_apply option.distinct(1))
    show "\<forall>q a. a \<in> set (kids ?t q) \<longrightarrow> q < a \<and> map_option jb_parent (JobTable_job t a) = Some (Some q)"
    proof (intro allI impI)
      fix q a
      assume "a \<in> set (kids ?t q)"
      then consider "a \<in> set (kids t q)" | "q = p" "a = c" unfolding s by (auto split: if_splits)
      then show "q < a \<and> map_option jb_parent (JobTable_job t a) = Some (Some q)"
        using jobs_wfD(2,3) [OF wf, of a q] par c by cases simp_all
    qed
    have "distinct (kids ?t q)" for q
      using m [of q] jobs_wfD(4) [OF wf, of q] fresh [of q]
        mset_eq_imp_distinct_iff [of "kids ?t q" "if q = p then c # kids t q else kids t q"]
      by (cases "q = p") simp_all
    then show "\<forall>q. distinct (kids ?t q)" by blast
    show "\<forall>a b. ((JobTable_job t)(p \<mapsto> ?pj)) a = Some b \<longrightarrow> job_wf b"
      using w pj by (auto simp: job_wf_def Job_member_count_def)
    show "\<forall>a b q. ((JobTable_job t)(p \<mapsto> ?pj)) a = Some b \<longrightarrow> jb_parent b = Some q \<longrightarrow>
        (\<exists>qj. ((JobTable_job t)(p \<mapsto> ?pj)) q = Some qj \<and> JobLimits_within (jb_limits b) (jb_limits qj) \<and> q < a)"
    proof (intro allI impI)
      fix a b q
      assume a: "((JobTable_job t)(p \<mapsto> ?pj)) a = Some b" and q: "jb_parent b = Some q"
      define b0 where "b0 = (if a = p then pj else b)"
      have "JobTable_job t a = Some b0" "jb_parent b0 = Some q" "jb_limits b0 = jb_limits b"
        using a q pj by (auto simp: b0_def split: if_splits)
      with w obtain qj where "JobTable_job t q = Some qj" "JobLimits_within (jb_limits b) (jb_limits qj)" "q < a"
        by metis
      then show "\<exists>qj. ((JobTable_job t)(p \<mapsto> ?pj)) q = Some qj \<and> JobLimits_within (jb_limits b) (jb_limits qj) \<and> q < a"
        using pj by auto
    qed
  qed
qed

lemma Job_new_wf: "mm < 2 ^ 32 \<Longrightarrow> job_wf (Job_new mc mm ob p l)"
  by (simp add: job_wf_def Job_new_def Job_member_count_def)

lemma Job_new_simps [simp]:
  "flatten (jb_children (Job_new mc mm ob p l)) = []"
  "jb_parent (Job_new mc mm ob p l) = p" "jb_limits (Job_new mc mm ob p l) = l"
  "jb_killed (Job_new mc mm ob p l) = False"
  by (simp_all add: Job_new_def)

lemma create_root_wf:
  "jobs_wf t \<Longrightarrow> mm < 2 ^ 32 \<Longrightarrow> jobs_wf (snd (JobTable_create_root mc mm t ob l))"
  by (auto simp: JobTable_create_root_def Job_new_wf intro!: store_job_wf split: res.splits)

lemma create_child_cases:
  assumes "JobTable_create_child mc mm t p ob l r = (res, t')" "t' \<noteq> t"
  obtains pj i where "Rights_contains r Rights_CREATE_JOB" "JobTable_job t p = Some pj" "\<not> jb_killed pj"
    "JobLimits_within l (jb_limits pj)" "JobTable_free_slot t = Ok i"
    "case free_slot (jb_children pj) of
       None \<Rightarrow> res = Err OutOfMemory \<and> t' = JobTable_set_job t i (Job_new mc mm ob (Some p) l)
     | Some s \<Rightarrow> res = Ok i \<and> t' = JobTable_set_job (JobTable_set_job t i (Job_new mc mm ob (Some p) l)) p
                   (pj\<lparr>jb_children := (jb_children pj)[s := Some i]\<rparr>)"
proof -
  from assms obtain pj i where pj: "Rights_contains r Rights_CREATE_JOB" "JobTable_job t p = Some pj" "\<not> jb_killed pj"
    "JobLimits_within l (jb_limits pj)" "JobTable_free_slot t = Ok i"
    by (auto simp: JobTable_create_child_def split: if_splits option.splits res.splits)
  then have "JobTable_job (JobTable_set_job t i (Job_new mc mm ob (Some p) l)) p = Some pj"
    using free_slot_Ok [OF pj(5)] by auto
  with pj assms(1) that [OF pj] show thesis
    by (auto simp: JobTable_create_child_def Let_def split: option.splits)
qed

lemma create_child_wf:
  assumes wf: "jobs_wf t" and mm: "mm < 2 ^ 32"
  shows "jobs_wf (snd (JobTable_create_child mc mm t p ob l r))"
proof (cases "snd (JobTable_create_child mc mm t p ob l r) = t")
  case False
  obtain res t' where e: "JobTable_create_child mc mm t p ob l r = (res, t')" by fastforce
  with False obtain pj i where c: "JobTable_job t p = Some pj" "JobLimits_within l (jb_limits pj)"
      "JobTable_free_slot t = Ok i"
    "case free_slot (jb_children pj) of
       None \<Rightarrow> res = Err OutOfMemory \<and> t' = JobTable_set_job t i (Job_new mc mm ob (Some p) l)
     | Some s \<Rightarrow> res = Ok i \<and> t' = JobTable_set_job (JobTable_set_job t i (Job_new mc mm ob (Some p) l)) p
                   (pj\<lparr>jb_children := (jb_children pj)[s := Some i]\<rparr>)"
    by (auto elim: create_child_cases)
  let ?j = "Job_new mc mm ob (Some p) l"
  let ?t = "JobTable_set_job t i ?j"
  note i = free_slot_Ok [OF c(3)]
  have 1: "jobs_wf ?t" "kids ?t = kids t"
    using store_job_wf [OF wf c(3), of ?j] c Job_new_wf [OF mm] by auto
  have pi: "p < i" using free_slot_first [OF wf c(3), of p] c(1) by simp
  have "i \<notin> set (kids ?t q)" for q
    unfolding 1(2) using jobs_wfD(3) [OF wf, of i q] i(2) by auto
  then have "jobs_wf (JobTable_set_job ?t p (pj\<lparr>jb_children := (jb_children pj)[s := Some i]\<rparr>))"
    if "free_slot (jb_children pj) = Some s" for s
    using link_child_wf(1) [OF 1(1), of p pj i ?j] pi i c(1) that by simp
  with 1 c(4) e show ?thesis by (auto split: option.splits)
qed (use wf in simp)

lemma add_process_wf:
  assumes wf: "jobs_wf t"
  shows "jobs_wf (snd (JobTable_add_process t i m r))"
proof (cases "fst (JobTable_add_process t i m r) = Ok ()")
  case True
  then obtain j s where j: "JobTable_job t i = Some j"
      "\<not> (of_nat (Job_member_count j) :: 32 word) \<ge> max_processes (jb_limits j)" "free_slot (jb_members j) = Some s"
      "snd (JobTable_add_process t i m r) = JobTable_set_job t i (j\<lparr>jb_members := (jb_members j)[s := Some m]\<rparr>)"
    by (auto simp: JobTable_add_process_def split: if_splits option.splits)
  have w: "job_wf j" using jobs_wfD(5) [OF wf j(1)] .
  have "Job_member_count j < 2 ^ 32"
    using w count_some_le [of "jb_members j"] by (simp add: job_wf_def Job_member_count_def length_flatten)
  with j(2) have "Job_member_count j < unat (max_processes (jb_limits j))"
    by (simp add: word_le_nat_alt unat_of_nat)
  then have "job_wf (j\<lparr>jb_members := (jb_members j)[s := Some m]\<rparr>)"
    using w free_slotD [OF j(3)] by (simp add: job_wf_def Job_member_count_def length_flatten slot_simps)
  with update_job_wf(1) [OF wf j(1)] j(4) show ?thesis by simp
next
  case False
  then have "snd (JobTable_add_process t i m r) = t"
    by (auto simp: JobTable_add_process_def split: if_splits option.splits)
  with wf show ?thesis by simp
qed

lemma mark_killed_eq:
  "JobTable_job (mark_killed t slots) =
     (\<lambda>i. if Some i \<in> set slots then map_option (\<lambda>j. j\<lparr>jb_killed := True\<rparr>) (JobTable_job t i) else JobTable_job t i)"
proof (induction t slots rule: mark_killed.induct)
  case (3 t i slots)
  show ?case
  proof (cases "JobTable_job t i")
    case (Some j)
    then have "i < length (jt_jobs t)" by (simp add: job_Some_iff)
    with 3 Some show ?thesis by (auto simp: fun_eq_iff)
  qed (use 3 in \<open>auto simp: fun_eq_iff\<close>)
qed (auto simp: fun_eq_iff)

lemma mark_killed_wf: "jobs_wf t \<Longrightarrow> jobs_wf (mark_killed t slots)"
proof (induction t slots rule: mark_killed.induct)
  case (3 t i slots)
  then show ?case
    using update_job_wf(1) [OF 3(2), of i _ "_\<lparr>jb_killed := True\<rparr>"] jobs_wfD(5) [OF 3(2), of i]
    by (auto simp: job_wf_def Job_member_count_def split: option.splits)
qed auto

lemma kill_order_wf: "jobs_wf t \<Longrightarrow> jobs_wf (fst (snd (JobTable_kill_order t root r order)))"
  by (auto simp: JobTable_kill_order_def Let_def mark_killed_wf split: res.splits)

lemma JobTable_new_wf: "jobs_wf (JobTable_new n)"
  by (auto simp: jobs_wf_def JobTable_new_def JobTable_job_def kids_def slot_simps)

subsection \<open>Reachable tables\<close>

inductive job_step :: "nat \<Rightarrow> nat \<Rightarrow> JobTable \<Rightarrow> JobTable \<Rightarrow> bool" for mc mm where
  step_create_root: "job_step mc mm t (snd (JobTable_create_root mc mm t ob l))"
| step_create_child: "job_step mc mm t (snd (JobTable_create_child mc mm t p ob l r))"
| step_add_process: "job_step mc mm t (snd (JobTable_add_process t j m r))"
| step_kill: "job_step mc mm t (fst (snd (JobTable_kill_order t root r order)))"

lemma job_reachable_wf:
  "(job_step mc mm)\<^sup>*\<^sup>* (JobTable_new n) t \<Longrightarrow> mm < 2 ^ 32 \<Longrightarrow> jobs_wf t"
proof (induction rule: rtranclp_induct)
  case base
  show ?case by (rule JobTable_new_wf)
next
  case (step t t')
  from step(2,3,4) show ?case
    by (cases rule: job_step.cases) (simp_all add: create_root_wf create_child_wf add_process_wf kill_order_wf)
qed

subsection \<open>The kill walk\<close>

definition child_rel :: "JobTable \<Rightarrow> (JobId \<times> JobId) set" where
  "child_rel t = {(p, c). c \<in> set (kids t p)}"

definition kill_inv :: "JobTable \<Rightarrow> JobId \<Rightarrow> JobId list \<Rightarrow> JobId list \<Rightarrow> bool" where
  "kill_inv t root pre stack \<longleftrightarrow>
     distinct (pre @ stack) \<and> root \<in> set (pre @ stack) \<and>
     (\<forall>x \<in> set pre. set (kids t x) \<subseteq> set (pre @ stack)) \<and>
     (\<forall>x \<in> set stack. x = root \<or> (\<exists>p \<in> set pre. x \<in> set (kids t p))) \<and>
     (\<forall>k < length pre. pre ! k = root \<or> (\<exists>i < k. pre ! k \<in> set (kids t (pre ! i)))) \<and>
     (\<forall>x \<in> set (pre @ stack). root \<le> x \<and> x < length (jt_jobs t))"

lemma push_children_ok:
  "length cs + length st \<le> n \<Longrightarrow> push_children n cs st = Ok (rev cs @ st)"
  by (induction cs arbitrary: st) auto

lemma kill_inv_bound:
  assumes "kill_inv t root pre stack"
  shows "length pre + length stack \<le> length (jt_jobs t)"
proof -
  have "distinct (pre @ stack)" "set (pre @ stack) \<subseteq> {..<length (jt_jobs t)}"
    using assms by (auto simp: kill_inv_def)
  then have "length (pre @ stack) \<le> card {..<length (jt_jobs t)}"
    by (metis card_mono distinct_card finite_lessThan)
  then show ?thesis by simp
qed

lemma kill_inv_parent:
  assumes "kill_inv t root pre stack" "x \<in> set (pre @ stack)" "x \<noteq> root"
  shows "\<exists>p \<in> set pre. x \<in> set (kids t p)"
proof (cases "x \<in> set stack")
  case True
  with assms show ?thesis unfolding kill_inv_def by blast
next
  case False
  with assms(2) obtain k where "k < length pre" "pre ! k = x" by (auto simp: in_set_conv_nth)
  with assms obtain i where "i < k" "x \<in> set (kids t (pre ! i))" unfolding kill_inv_def by blast
  with \<open>k < length pre\<close> show ?thesis by (metis nth_mem order.strict_trans)
qed

lemma kill_inv_step:
  assumes wf: "jobs_wf t" and inv: "kill_inv t root pre (j # stack)"
  shows "kill_inv t root (pre @ [j]) (rev (kids t j) @ stack)"
proof -
  note I = inv [unfolded kill_inv_def]
  have jr: "root \<le> j" "j \<notin> set pre" using I by auto
  have fresh: "x \<notin> set (pre @ j # stack)" if "x \<in> set (kids t j)" for x
  proof
    assume x: "x \<in> set (pre @ j # stack)"
    have "x \<noteq> root" using jobs_wfD(2) [OF wf that] jr(1) by auto
    from kill_inv_parent [OF inv x this] obtain p where "p \<in> set pre" "x \<in> set (kids t p)" by blast
    with kids_unique [OF wf that] jr(2) show False by blast
  qed
  have st: "set ((pre @ [j]) @ rev (kids t j) @ stack) = set (pre @ j # stack) \<union> set (kids t j)" by auto
  show ?thesis
    unfolding kill_inv_def st
  proof (intro conjI)
    show "distinct ((pre @ [j]) @ rev (kids t j) @ stack)"
      using I jobs_wfD(4) [OF wf, of j] fresh by auto
    show "root \<in> set (pre @ j # stack) \<union> set (kids t j)" using I by blast
    show "\<forall>x \<in> set (pre @ [j]). set (kids t x) \<subseteq> set (pre @ j # stack) \<union> set (kids t j)"
      using I by auto
    show "\<forall>x \<in> set (rev (kids t j) @ stack). x = root \<or> (\<exists>p \<in> set (pre @ [j]). x \<in> set (kids t p))"
      using I by auto
    show "\<forall>k < length (pre @ [j]). (pre @ [j]) ! k = root \<or>
        (\<exists>i < k. (pre @ [j]) ! k \<in> set (kids t ((pre @ [j]) ! i)))"
    proof (intro allI impI)
      fix k assume k: "k < length (pre @ [j])"
      show "(pre @ [j]) ! k = root \<or> (\<exists>i < k. (pre @ [j]) ! k \<in> set (kids t ((pre @ [j]) ! i)))"
      proof (cases "k < length pre")
        case True
        then have "pre ! k = root \<or> (\<exists>i < k. pre ! k \<in> set (kids t (pre ! i)))" using I by blast
        with True show ?thesis by (simp add: nth_append) (metis order.strict_trans)
      next
        case False
        with k have "k = length pre" by simp
        moreover have "j = root \<or> (\<exists>i < length pre. j \<in> set (kids t (pre ! i)))"
          using kill_inv_parent [OF inv, of j] by (metis in_set_conv_nth in_set_conv_decomp)
        ultimately show ?thesis by (auto simp: nth_append)
      qed
    qed
    show "\<forall>x \<in> set (pre @ j # stack) \<union> set (kids t j). root \<le> x \<and> x < length (jt_jobs t)"
    proof
      fix x assume "x \<in> set (pre @ j # stack) \<union> set (kids t j)"
      then consider "x \<in> set (pre @ j # stack)" | "x \<in> set (kids t j)" by blast
      then show "root \<le> x \<and> x < length (jt_jobs t)"
        using I jr(1) jobs_wfD(2) [OF wf, of x j] kids_live [OF wf, of x j] by cases auto
    qed
  qed
qed

lemma kill_walk_complete:
  "jobs_wf t \<Longrightarrow> kill_inv t root pre stack \<Longrightarrow>
   \<exists>pre'. kill_walk t pre stack = Ok pre' \<and> kill_inv t root pre' []"
proof (induction t pre stack rule: kill_walk.induct)
  case (2 t pre j stack)
  have b: "length pre + length (j # stack) \<le> length (jt_jobs t)" using kill_inv_bound [OF 2(4)] .
  have inv: "kill_inv t root (pre @ [j]) (rev (kids t j) @ stack)" using kill_inv_step [OF 2(3,4)] .
  show ?case
  proof (cases "JobTable_job t j")
    case None
    with 2 b inv show ?thesis by (simp add: kids_dead)
  next
    case (Some job)
    then have k: "flatten (jb_children job) = kids t j" by (simp add: kids_def)
    have "push_children (length (jt_jobs t)) (kids t j) stack = Ok (rev (kids t j) @ stack)"
      using kill_inv_bound [OF inv] by (intro push_children_ok) simp
    with 2(2) [OF _ Some, unfolded k, OF _ _ 2(3) inv] Some b k show ?thesis by simp
  qed
qed simp

lemma kill_inv_reach:
  assumes wf: "jobs_wf t" and inv: "kill_inv t root pre []"
  shows "set pre = {x. (root, x) \<in> (child_rel t)\<^sup>*}"
proof (intro set_eqI iffI)
  fix x
  assume "x \<in> set pre"
  then obtain k where "k < length pre" "x = pre ! k" by (auto simp: in_set_conv_nth)
  then have "(root, x) \<in> (child_rel t)\<^sup>*"
  proof (induction k arbitrary: x rule: less_induct)
    case (less k)
    with inv consider "x = root" | i where "i < k" "x \<in> set (kids t (pre ! i))"
      unfolding kill_inv_def by blast
    then show ?case
    proof cases
      case 2
      with less have "(root, pre ! i) \<in> (child_rel t)\<^sup>*" by simp
      with 2 show ?thesis by (auto simp: child_rel_def intro: rtrancl_into_rtrancl)
    qed simp
  qed
  then show "x \<in> {x. (root, x) \<in> (child_rel t)\<^sup>*}" by simp
next
  fix x
  assume "x \<in> {x. (root, x) \<in> (child_rel t)\<^sup>*}"
  then have "(root, x) \<in> (child_rel t)\<^sup>*" by simp
  then show "x \<in> set pre"
    by (induction rule: rtrancl_induct) (use inv in \<open>auto simp: kill_inv_def child_rel_def\<close>)
qed

lemma kill_inv_order:
  assumes wf: "jobs_wf t" and inv: "kill_inv t root pre []"
    and "(pre ! a, y) \<in> (child_rel t)\<^sup>+" "a < length pre" "b < length pre" "pre ! b = y"
  shows "a < b"
  using assms(3-6)
proof (induction arbitrary: b rule: trancl_induct)
  note I = inv [unfolded kill_inv_def]
  have one: "c < b" if h: "pre ! b \<in> set (kids t (pre ! c))" "b < length pre" "c < length pre" for b c
  proof -
    have "root \<le> pre ! c" using I h(3) by simp
    then have "pre ! b \<noteq> root" using jobs_wfD(2) [OF wf h(1)] by simp
    then obtain i where i: "i < b" "pre ! b \<in> set (kids t (pre ! i))" using I h(2) by blast
    then have "pre ! i = pre ! c" using kids_unique [OF wf h(1)] by simp
    then have "i = c" using I h i(1) by (simp add: nth_eq_iff_index_eq)
    with i show ?thesis by simp
  qed
  {
    case (base y)
    then show ?case using one [of b a] by (simp add: child_rel_def)
  next
    case (step y z)
    have "pre ! a \<in> set pre" using step.prems by simp
    then have "(root, y) \<in> (child_rel t)\<^sup>*"
      using kill_inv_reach [OF wf inv] step.hyps(1) by (auto intro: rtrancl_trans trancl_into_rtrancl)
    then have "y \<in> set pre" using kill_inv_reach [OF wf inv] by simp
    then obtain c where c: "c < length pre" "pre ! c = y" by (auto simp: in_set_conv_nth)
    with step.IH step.prems have "a < c" by blast
    also have "c < b" using one [of b c] c step.hyps(2) step.prems by (simp add: child_rel_def)
    finally show ?case .
  }
qed

lemma kill_order_complete:
  assumes wf: "jobs_wf t" and root: "JobTable_job t root \<noteq> None" and r: "Rights_contains r Rights_KILL"
    and len: "length (jt_jobs t) \<le> length order"
  shows "\<exists>pre. kill_inv t root pre [] \<and> JobTable_kill_order t root r order =
    (Ok (length pre), mark_killed t (map Some (rev pre)), map Some (rev pre) @ drop (length pre) order)"
proof -
  have "kill_inv t root [] [root]" using root job_less by (simp add: kill_inv_def)
  from kill_walk_complete [OF wf this] obtain pre where
    pre: "kill_walk t [] [root] = Ok pre" "kill_inv t root pre []" by blast
  then have "length pre \<le> length order" using kill_inv_bound [OF pre(2)] len by simp
  with pre root r show ?thesis by (auto simp: JobTable_kill_order_def Let_def)
qed

subsection \<open>A forest for the concrete checks\<close>

definition sample_jobs :: JobTable where
  "sample_jobs = snd (JobTable_create_child 1 2 (snd (JobTable_create_root 1 2 (JobTable_new 3) (ObjectId 1) \<lparr>max_processes = 4\<rparr>))
     0 (ObjectId 2) \<lparr>max_processes = 3\<rparr> Rights_CREATE_JOB)"

lemma sample_jobs_reachable: "(job_step 1 2)\<^sup>*\<^sup>* (JobTable_new 3) sample_jobs"
  unfolding sample_jobs_def
  by (rule rtranclp.rtrancl_into_rtrancl [OF rtranclp.rtrancl_into_rtrancl [OF rtranclp.rtrancl_refl]];
      rule step_create_root step_create_child)

subsection \<open>Properties\<close>

text \<open>C25: Killing a job of any table the operations can build always completes, and takes
  exactly the job's subtree, innermost first: with the right to kill and an order buffer of
  \<^verbatim>\<open>MAX_JOBS\<close> entries, \<open>kill_order\<close> succeeds, the entries it writes are the job and all its
  descendants, each once, every job before each of its ancestors; those jobs become killed
  and no other job changes.\<close>
theorem kill_order_innermost_first:
  assumes reach: "(job_step mc mm)\<^sup>*\<^sup>* (JobTable_new n) t" and mm: "mm < 2 ^ 32"
    and root: "JobTable_job t root \<noteq> None" and r: "Rights_contains r Rights_KILL"
    and len: "length (jt_jobs t) \<le> length order"
  shows "\<exists>k t' order' jobs. JobTable_kill_order t root r order = (Ok k, t', order') \<and>
     take k order' = map Some jobs \<and> distinct jobs \<and>
     set jobs = {x. (root, x) \<in> (child_rel t)\<^sup>*} \<and>
     (\<forall>a b. a < length jobs \<longrightarrow> b < length jobs \<longrightarrow> (jobs ! a, jobs ! b) \<in> (child_rel t)\<^sup>+ \<longrightarrow> b < a) \<and>
     (\<forall>i. JobTable_job t' i =
        (if i \<in> set jobs then map_option (\<lambda>j. j\<lparr>jb_killed := True\<rparr>) (JobTable_job t i) else JobTable_job t i))"
proof -
  have wf: "jobs_wf t" using job_reachable_wf [OF reach mm] .
  obtain pre where pre: "kill_inv t root pre []" and eq: "JobTable_kill_order t root r order =
    (Ok (length pre), mark_killed t (map Some (rev pre)), map Some (rev pre) @ drop (length pre) order)"
    using kill_order_complete [OF wf root r len] by blast
  have "b < a" if ab: "a < length (rev pre)" "b < length (rev pre)" "(rev pre ! a, rev pre ! b) \<in> (child_rel t)\<^sup>+" for a b
  proof -
    have l: "a < length pre" "b < length pre" using ab(1,2) by simp_all
    have pa: "pre ! (length pre - Suc a) = rev pre ! a" by (simp only: rev_nth [OF l(1)])
    have pb: "pre ! (length pre - Suc b) = rev pre ! b" by (simp only: rev_nth [OF l(2)])
    have "length pre - Suc a < length pre - Suc b"
      by (rule kill_inv_order [OF wf pre _ _ _ pb], unfold pa, rule ab(3)) (use l in linarith)+
    then show ?thesis by linarith
  qed
  moreover have "distinct (rev pre)" using pre by (simp add: kill_inv_def)
  moreover have "set (rev pre) = {x. (root, x) \<in> (child_rel t)\<^sup>*}" using kill_inv_reach [OF wf pre] by simp
  ultimately show ?thesis
    unfolding eq by (intro exI [of _ "length pre"] exI [of _ "rev pre"] exI conjI refl)
      (auto simp: mark_killed_eq simp flip: rev_map)
qed

theorem kill_order_innermost_first_witness:
  "\<exists>k t' order' jobs. JobTable_kill_order sample_jobs 0 Rights_KILL (replicate 3 None) = (Ok k, t', order') \<and>
     take k order' = map Some jobs \<and> distinct jobs \<and>
     set jobs = {x. (0, x) \<in> (child_rel sample_jobs)\<^sup>*} \<and> jobs = [1, 0]"
proof -
  let ?k = "JobTable_kill_order sample_jobs 0 Rights_KILL (replicate 3 None)"
  have v: "JobTable_job sample_jobs 0 \<noteq> None" "length (jt_jobs sample_jobs) \<le> length (replicate 3 (None :: nat option))"
    "Rights_contains Rights_KILL Rights_KILL" by code_simp+
  have e: "fst ?k = Ok 2" "snd (snd ?k) = map Some [1, 0] @ [None]" by code_simp+
  from kill_order_innermost_first [OF sample_jobs_reachable _ v(1,3,2)]
  obtain k t' order' jobs where j: "?k = (Ok k, t', order')" "take k order' = map Some jobs" "distinct jobs"
    "set jobs = {x. (0, x) \<in> (child_rel sample_jobs)\<^sup>*}" by auto
  then have "k = 2" "order' = map Some [1, 0] @ [None]" using e by simp_all
  with j(2) have "map Some jobs = map Some [1, 0]" by simp
  then have "jobs = [1, 0]" by (rule map_injective) simp
  with j show ?thesis by blast
qed

text \<open>C26: Limits only tighten. In every table the operations can build, no job has more members
  than its own ceiling, and its ceiling is at most that of each of its ancestors.\<close>
theorem job_limits_tighten:
  assumes reach: "(job_step mc mm)\<^sup>*\<^sup>* (JobTable_new n) t" and mm: "mm < 2 ^ 32"
    and i: "JobTable_job t i = Some j"
    and a: "(i, a) \<in> {(c, p). map_option jb_parent (JobTable_job t c) = Some (Some p)}\<^sup>*"
  shows "Job_member_count j \<le> unat (max_processes (jb_limits j)) \<and>
    (\<exists>k. JobTable_job t a = Some k \<and> JobLimits_within (jb_limits j) (jb_limits k))"
proof -
  note w = job_reachable_wf [OF reach mm, unfolded jobs_wf_def]
  have "\<exists>k. JobTable_job t a = Some k \<and> JobLimits_within (jb_limits j) (jb_limits k)"
    using a
  proof (induction rule: rtrancl_induct)
    case base
    show ?case using i by (simp add: JobLimits_within_def)
  next
    case (step y z)
    then obtain k where k: "JobTable_job t y = Some k" "JobLimits_within (jb_limits j) (jb_limits k)" by blast
    with step(2) have "jb_parent k = Some z" by simp
    with w k(1) obtain l where "JobTable_job t z = Some l" "JobLimits_within (jb_limits k) (jb_limits l)" by metis
    with k(2) show ?case by (auto simp: JobLimits_within_def intro: order.trans)
  qed
  moreover have "job_wf j" using w i by blast
  ultimately show ?thesis by (simp add: job_wf_def)
qed

theorem job_limits_tighten_witness:
  "Job_member_count (the (JobTable_job sample_jobs 1)) \<le> 3 \<and>
   (\<exists>k. JobTable_job sample_jobs 0 = Some k \<and> JobLimits_within \<lparr>max_processes = 3\<rparr> (jb_limits k))"
proof -
  have j: "JobTable_job sample_jobs 1 = Some (the (JobTable_job sample_jobs 1))"
    "jb_limits (the (JobTable_job sample_jobs 1)) = \<lparr>max_processes = 3\<rparr>"
    "map_option jb_parent (JobTable_job sample_jobs 1) = Some (Some 0)" by code_simp+
  then have "(1, 0) \<in> {(c, p). map_option jb_parent (JobTable_job sample_jobs c) = Some (Some p)}\<^sup>*"
    by (intro r_into_rtrancl) simp
  from job_limits_tighten [OF sample_jobs_reachable _ j(1) this] j(2) show ?thesis by simp
qed

text \<open>Creating a child under a job whose child set is full fails, but only after the new
  job has been stored: the slot stays occupied by a job naming that parent, which is in no
  child set, so killing any other job of the forest does not reach it, and nothing frees it.\<close>
theorem create_child_full_leaks:
  assumes reach: "(job_step mc mm)\<^sup>*\<^sup>* (JobTable_new n) t" and mm: "mm < 2 ^ 32"
    and r: "Rights_contains r Rights_CREATE_JOB" and p: "JobTable_job t p = Some pj" "\<not> jb_killed pj"
    and l: "JobLimits_within l (jb_limits pj)" and full: "None \<notin> set (jb_children pj)"
    and i: "JobTable_free_slot t = Ok i"
  shows "fst (JobTable_create_child mc mm t p ob l r) = Err OutOfMemory \<and>
    JobTable_job (snd (JobTable_create_child mc mm t p ob l r)) i = Some (Job_new mc mm ob (Some p) l) \<and>
    (\<forall>root. root \<noteq> i \<longrightarrow> (root, i) \<notin> (child_rel (snd (JobTable_create_child mc mm t p ob l r)))\<^sup>*)"
proof -
  let ?j = "Job_new mc mm ob (Some p) l"
  let ?t = "JobTable_set_job t i ?j"
  have wf: "jobs_wf t" using job_reachable_wf [OF reach mm] .
  note i' = free_slot_Ok [OF i]
  have ne: "p \<noteq> i" using i' p by auto
  have k: "kids ?t = kids t"
    using store_job_wf(2) [OF wf i, of ?j] Job_new_wf [OF mm] p l by simp
  have "free_slot (jb_children pj) = None" using full by (simp add: free_slot_None_iff)
  then have e: "JobTable_create_child mc mm t p ob l r = (Err OutOfMemory, ?t)"
    using r p l i i' ne by (simp add: JobTable_create_child_def Let_def)
  have "i \<notin> set (kids t q)" for q using jobs_wfD(3) [OF wf, of i q] i'(2) by auto
  then have "(q, i) \<notin> child_rel ?t" for q by (simp add: child_rel_def k)
  then show ?thesis unfolding e using i' by (auto elim: rtranclE)
qed

theorem create_child_full_leaks_witness:
  "fst (JobTable_create_child 1 2 sample_jobs 0 (ObjectId 3) \<lparr>max_processes = 1\<rparr> Rights_CREATE_JOB) = Err OutOfMemory \<and>
   JobTable_job (snd (JobTable_create_child 1 2 sample_jobs 0 (ObjectId 3) \<lparr>max_processes = 1\<rparr> Rights_CREATE_JOB)) 2
     = Some (Job_new 1 2 (ObjectId 3) (Some 0) \<lparr>max_processes = 1\<rparr>)"
proof -
  have "JobTable_job sample_jobs 0 = Some (the (JobTable_job sample_jobs 0))"
    "\<not> jb_killed (the (JobTable_job sample_jobs 0))"
    "JobLimits_within \<lparr>max_processes = 1\<rparr> (jb_limits (the (JobTable_job sample_jobs 0)))"
    "None \<notin> set (jb_children (the (JobTable_job sample_jobs 0)))"
    "JobTable_free_slot sample_jobs = Ok 2"
    "Rights_contains Rights_CREATE_JOB Rights_CREATE_JOB" by code_simp+
  then show ?thesis
    using create_child_full_leaks [OF sample_jobs_reachable, of Rights_CREATE_JOB 0 _ "\<lparr>max_processes = 1\<rparr>" 2 "ObjectId 3"]
    by simp
qed

end
