(* ===== verification/BootMap.thy ===== *)
theory BootMap
  imports Addr
begin

text \<open>
  The boot memory map, \<^verbatim>\<open>karch/src/boot.rs\<close>: regions and kinds, the precedence of kinds,
  and \<open>normalize_memory_map\<close>, which turns overlapping firmware reports into a sorted,
  disjoint map. The scratch buffer and the output buffer of the source are lists with a
  capacity; the result is the filled prefix of the output.
\<close>

datatype MemoryKind =
    Usable | BootloaderReclaimable | KernelAndModules | Framebuffer
  | AcpiReclaimable | AcpiNvs | Reserved | Bad

fun MemoryKind_precedence :: "MemoryKind \<Rightarrow> nat" where
  "MemoryKind_precedence Usable = 0"
| "MemoryKind_precedence BootloaderReclaimable = 1"
| "MemoryKind_precedence AcpiReclaimable = 2"
| "MemoryKind_precedence Framebuffer = 3"
| "MemoryKind_precedence KernelAndModules = 4"
| "MemoryKind_precedence AcpiNvs = 5"
| "MemoryKind_precedence Reserved = 6"
| "MemoryKind_precedence Bad = 7"

record MemoryRegion =
  mr_base :: PhysAddr
  mr_len :: "64 word"
  mr_kind :: MemoryKind

definition MemoryRegion_described :: "64 word \<Rightarrow> 64 word \<Rightarrow> bool \<Rightarrow> MemoryRegion" where
  "MemoryRegion_described base len usable =
     \<lparr> mr_base = base, mr_len = len, mr_kind = (if usable then Usable else Reserved) \<rparr>"

definition MemoryRegion_end :: "MemoryRegion \<Rightarrow> PhysAddr option" where
  "MemoryRegion_end r = checked_add (mr_base r) (mr_len r)"

subsection \<open>Normalization\<close>

fun collect_edges :: "nat \<Rightarrow> MemoryRegion list \<Rightarrow> 64 word list \<Rightarrow> 64 word list res" where
  "collect_edges edge_cap [] edges = Ok edges"
| "collect_edges edge_cap (region # rs) edges =
     (if mr_len region = 0 then collect_edges edge_cap rs edges
      else case MemoryRegion_end region of
        None \<Rightarrow> Err InvalidMapping
      | Some e \<Rightarrow>
          if length edges = edge_cap then Err LimitExceeded
          else if length (edges @ [mr_base region]) = edge_cap then Err LimitExceeded
          else collect_edges edge_cap rs (edges @ [mr_base region, e]))"

fun sift :: "64 word list \<Rightarrow> nat \<Rightarrow> 64 word list" where
  "sift edges 0 = edges"
| "sift edges (Suc j) =
     (if edges ! j > edges ! Suc j
      then sift (edges[j := edges ! Suc j, Suc j := edges ! j]) j
      else edges)"

definition sort_edges :: "64 word list \<Rightarrow> 64 word list" where
  "sort_edges edges = foldl sift edges [1..<length edges]"

definition strongest :: "MemoryRegion list \<Rightarrow> 64 word \<Rightarrow> MemoryKind option" where
  "strongest input start =
     foldl (\<lambda>kind region.
        if mr_len region = 0 then kind
        else if start < mr_base region \<or> start \<ge> mr_base region + mr_len region then kind
        else (case kind of
                None \<Rightarrow> Some (mr_kind region)
              | Some held \<Rightarrow>
                  if MemoryKind_precedence (mr_kind region) > MemoryKind_precedence held
                  then Some (mr_kind region) else kind)) None input"

fun sweep :: "nat \<Rightarrow> MemoryRegion list \<Rightarrow> 64 word list \<Rightarrow> MemoryRegion list \<Rightarrow> MemoryRegion list res" where
  "sweep out_cap input (s # e # es) out =
     (if s = e then sweep out_cap input (e # es) out
      else case strongest input s of
        None \<Rightarrow> sweep out_cap input (e # es) out
      | Some kind \<Rightarrow>
          if out \<noteq> [] \<and> mr_kind (last out) = kind \<and> mr_base (last out) + mr_len (last out) = s
          then sweep out_cap input (e # es)
                 (butlast out @ [(last out)\<lparr>mr_len := mr_len (last out) + (e - s)\<rparr>])
          else if length out = out_cap then Err LimitExceeded
          else sweep out_cap input (e # es) (out @ [\<lparr>mr_base = s, mr_len = e - s, mr_kind = kind\<rparr>]))"
| "sweep out_cap input _ out = Ok out"

definition normalize_memory_map :: "nat \<Rightarrow> nat \<Rightarrow> MemoryRegion list \<Rightarrow> MemoryRegion list res" where
  "normalize_memory_map edge_cap out_cap input =
     (case collect_edges edge_cap input [] of
        Err e \<Rightarrow> Err e
      | Ok edges \<Rightarrow> sweep out_cap input (sort_edges edges) [])"

subsection \<open>Regions as sets of addresses\<close>

definition covers :: "MemoryRegion \<Rightarrow> 64 word \<Rightarrow> bool" where
  "covers r a \<longleftrightarrow> mr_len r \<noteq> 0 \<and> mr_base r \<le> a \<and> a < mr_base r + mr_len r"

definition kind_at :: "MemoryRegion list \<Rightarrow> 64 word \<Rightarrow> MemoryKind \<Rightarrow> bool" where
  "kind_at rs a k \<longleftrightarrow> (\<exists>r \<in> set rs. covers r a \<and> mr_kind r = k)"

text \<open>The specification of the sweep: the kind of an address is that of the covering region
  of the highest precedence.\<close>

definition strongest_at :: "MemoryRegion list \<Rightarrow> 64 word \<Rightarrow> MemoryKind \<Rightarrow> bool" where
  "strongest_at input a k \<longleftrightarrow>
     (\<exists>r \<in> set input. covers r a \<and> mr_kind r = k) \<and>
     (\<forall>r \<in> set input. covers r a \<longrightarrow> MemoryKind_precedence (mr_kind r) \<le> MemoryKind_precedence k)"

text \<open>A normalized map: nonempty regions that do not wrap, in ascending order, disjoint, and
  coalesced.\<close>

fun map_ok :: "MemoryRegion list \<Rightarrow> bool" where
  "map_ok [] = True"
| "map_ok [r] \<longleftrightarrow> mr_base r < mr_base r + mr_len r"
| "map_ok (r # r' # rs) \<longleftrightarrow>
     mr_base r < mr_base r + mr_len r \<and> mr_base r + mr_len r \<le> mr_base r' \<and>
     (mr_base r + mr_len r = mr_base r' \<longrightarrow> mr_kind r \<noteq> mr_kind r') \<and> map_ok (r' # rs)"

lemma kind_at_simps [simp]:
  "kind_at [] a k \<longleftrightarrow> False"
  "kind_at (r # rs) a k \<longleftrightarrow> covers r a \<and> mr_kind r = k \<or> kind_at rs a k"
  "kind_at (rs @ rs') a k \<longleftrightarrow> kind_at rs a k \<or> kind_at rs' a k"
  by (auto simp: kind_at_def)

lemma precedence_inj: "MemoryKind_precedence j = MemoryKind_precedence k \<Longrightarrow> j = k"
  by (cases j; cases k) simp_all

lemma strongest_at_unique: "strongest_at input a j \<Longrightarrow> strongest_at input a k \<Longrightarrow> j = k"
  unfolding strongest_at_def by (metis order_antisym precedence_inj)

lemma strongest_spec:
  "(case strongest input a of Some k \<Rightarrow> strongest_at input a k | None \<Rightarrow> \<forall>r \<in> set input. \<not> covers r a)"
proof (induction input rule: rev_induct)
  case (snoc r rs)
  have step: "strongest (rs @ [r]) a =
    (if \<not> covers r a then strongest rs a
     else case strongest rs a of None \<Rightarrow> Some (mr_kind r)
       | Some h \<Rightarrow> if MemoryKind_precedence (mr_kind r) > MemoryKind_precedence h then Some (mr_kind r) else Some h)"
    by (auto simp: strongest_def covers_def not_less split: option.splits)
  show ?case
  proof (cases "covers r a")
    case False
    with snoc step show ?thesis by (auto simp: strongest_at_def split: option.splits)
  next
    case True
    show ?thesis
    proof (cases "strongest rs a")
      case None
      with snoc step True show ?thesis by (auto simp: strongest_at_def)
    next
      case (Some h)
      with snoc step True show ?thesis by (auto simp: strongest_at_def)
    qed
  qed
qed (simp add: strongest_def)

lemma strongest_iff: "strongest input a = Some k \<longleftrightarrow> strongest_at input a k"
proof -
  have "\<not> strongest_at input a k" if "strongest input a = None" for k
    using strongest_spec [of input a] that by (auto simp: strongest_at_def)
  then show ?thesis
    using strongest_spec [of input a] strongest_at_unique [of input a] by (cases "strongest input a") auto
qed

subsection \<open>The edges\<close>

fun rins :: "64 word \<Rightarrow> 64 word list \<Rightarrow> 64 word list" where
  "rins x [] = [x]"
| "rins x (y # ys) = (if x < y then x # y # ys else y # rins x ys)"

lemma mset_rins [simp]: "mset (rins x ys) = add_mset x (mset ys)"
  by (induction ys) auto

lemma sorted_rins: "sorted ys \<Longrightarrow> sorted (rins x ys)"
proof (induction ys)
  case (Cons y ys)
  have "set (rins x ys) = insert x (set ys)" by (metis mset_rins set_mset_add_mset_insert set_mset_mset)
  with Cons show ?case by (auto simp: not_less)
qed simp

lemma rins_snoc:
  "sorted (ys @ [y]) \<Longrightarrow> rins x (ys @ [y]) = (if x < y then rins x ys @ [y] else ys @ [y, x])"
  by (induction ys) (auto simp: not_less)

lemma sift_rins: "sorted ys \<Longrightarrow> sift (ys @ x # zs) (length ys) = rins x ys @ zs"
proof (induction ys arbitrary: zs rule: rev_induct)
  case (snoc y ys)
  have a: "(ys @ [y]) @ x # zs = ys @ y # x # zs" by simp
  have l: "length (ys @ [y]) = Suc (length ys)" by simp
  have n: "(ys @ y # x # zs) ! length ys = y" "(ys @ y # x # zs) ! Suc (length ys) = x"
    "(ys @ y # x # zs)[length ys := x, Suc (length ys) := y] = ys @ x # y # zs"
    by (simp_all add: nth_append list_update_append)
  from snoc.prems have "sorted ys" by (simp add: sorted_append)
  then show ?case unfolding a l sift.simps n rins_snoc [OF snoc.prems]
    using snoc.IH [of "y # zs"] by auto
qed simp

lemma sort_edges_prefix:
  "n \<le> length xs \<Longrightarrow> \<exists>ys. foldl sift xs [1..<n] = ys @ drop n xs \<and> sorted ys \<and> mset ys = mset (take n xs)"
proof (induction n)
  case (Suc n)
  then obtain ys where ys: "foldl sift xs [1..<n] = ys @ drop n xs" "sorted ys" "mset ys = mset (take n xs)" by auto
  have d: "drop n xs = xs ! n # drop (Suc n) xs" using Suc.prems by (simp add: Cons_nth_drop_Suc)
  have len: "length ys = n" using ys(3) Suc.prems by (metis length_take min.absorb2 size_mset Suc_leD)
  show ?case
  proof (cases n)
    case 0
    with ys d show ?thesis by (intro exI [of _ "[xs ! 0]"]) (use Suc.prems take_Suc_conv_app_nth [of 0 xs] in auto)
  next
    case (Suc m)
    then have "[1..<Suc n] = [1..<n] @ [n]" by simp
    then have "foldl sift xs [1..<Suc n] = sift (ys @ xs ! n # drop (Suc n) xs) (length ys)"
      using ys(1) d len by simp
    also have "\<dots> = rins (xs ! n) ys @ drop (Suc n) xs" using ys(2) by (rule sift_rins)
    finally show ?thesis
      using ys Suc.prems by (intro exI [of _ "rins (xs ! n) ys"]) (simp add: sorted_rins take_Suc_conv_app_nth)
  qed
qed simp

lemma sort_edges_spec: "sorted (sort_edges xs) \<and> mset (sort_edges xs) = mset xs"
  using sort_edges_prefix [of "length xs" xs] by (auto simp: sort_edges_def)

lemma collect_edges_Ok:
  assumes "collect_edges n input acc = Ok edges"
  shows "set edges = set acc \<union> (\<Union>r \<in> {r \<in> set input. mr_len r \<noteq> 0}. {mr_base r, mr_base r + mr_len r})"
    and "\<forall>r \<in> set input. mr_len r \<noteq> 0 \<longrightarrow> mr_base r < mr_base r + mr_len r"
  using assms
proof (induction input arbitrary: acc)
  case (Cons r rs)
  { case 1
    then show ?case using Cons(1)
      by (auto simp: MemoryRegion_end_def checked_add_def split: if_splits option.splits) }
  { case 2
    have "mr_base r < mr_base r + mr_len r" if "mr_len r \<noteq> 0" "MemoryRegion_end r \<noteq> None"
      using that by (auto simp: MemoryRegion_end_def checked_add_def not_less split: if_splits)
        (metis add_cancel_right_right order_neq_le_trans)
    with 2 Cons(2) show ?case by (auto split: if_splits option.splits) }
qed auto

subsection \<open>The sweep\<close>

lemma map_ok_snoc:
  "map_ok (out @ [r]) \<longleftrightarrow> map_ok out \<and> mr_base r < mr_base r + mr_len r \<and>
     (out \<noteq> [] \<longrightarrow> mr_base (last out) + mr_len (last out) \<le> mr_base r \<and>
        (mr_base (last out) + mr_len (last out) = mr_base r \<longrightarrow> mr_kind (last out) \<noteq> mr_kind r))"
  by (induction out rule: map_ok.induct) auto

lemma map_ok_Cons: "map_ok (r # rs) \<Longrightarrow> mr_base r < mr_base r + mr_len r"
  by (cases rs) auto

lemma map_ok_ends:
  "map_ok out \<Longrightarrow> \<forall>r \<in> set out. mr_base r + mr_len r \<le> mr_base (last out) + mr_len (last out)"
proof (induction out rule: map_ok.induct)
  case (3 r r' rs)
  then have "mr_base r + mr_len r \<le> mr_base r'" "mr_base r' < mr_base r' + mr_len r'" "map_ok (r' # rs)"
    using map_ok_Cons [of r' rs] by simp_all
  moreover have "mr_base r' + mr_len r' \<le> mr_base (last (r' # rs)) + mr_len (last (r' # rs))"
    using 3 by simp
  ultimately have "mr_base r + mr_len r \<le> mr_base (last (r' # rs)) + mr_len (last (r' # rs))" by order
  with 3 show ?case by simp
qed auto

definition sweep_inv :: "MemoryRegion list \<Rightarrow> 64 word \<Rightarrow> MemoryRegion list \<Rightarrow> bool" where
  "sweep_inv input s out \<longleftrightarrow>
     map_ok out \<and> (out \<noteq> [] \<longrightarrow> mr_base (last out) + mr_len (last out) \<le> s) \<and>
     (\<forall>a < s. \<forall>k. kind_at out a k \<longleftrightarrow> strongest_at input a k)"

definition edges_at :: "MemoryRegion list \<Rightarrow> 64 word \<Rightarrow> 64 word list \<Rightarrow> bool" where
  "edges_at input s es \<longleftrightarrow>
     (\<forall>r \<in> set input. mr_len r \<noteq> 0 \<longrightarrow>
        (mr_base r \<le> s \<or> mr_base r \<in> set es) \<and> (mr_base r + mr_len r \<le> s \<or> mr_base r + mr_len r \<in> set es))"

lemma sweep_inv_above: "sweep_inv input s out \<Longrightarrow> s \<le> a \<Longrightarrow> r \<in> set out \<Longrightarrow> \<not> covers r a"
  using map_ok_ends [of out] by (fastforce simp: sweep_inv_def covers_def)

lemma covers_elementary:
  assumes "edges_at input s (e # es)" "sorted (e # es)" "s \<le> a" "a < e" "r \<in> set input"
  shows "covers r a \<longleftrightarrow> covers r s"
proof (cases "mr_len r = 0")
  case False
  have ge: "e \<le> x" if "x \<in> set (e # es)" for x using that assms(2) by auto
  have "mr_base r \<le> s \<or> e \<le> mr_base r" "mr_base r + mr_len r \<le> s \<or> e \<le> mr_base r + mr_len r"
    using assms(1,5) False ge unfolding edges_at_def by blast+
  then have "mr_base r \<le> a \<longleftrightarrow> mr_base r \<le> s" "a < mr_base r + mr_len r \<longleftrightarrow> s < mr_base r + mr_len r"
    using assms(3,4) by auto
  then show ?thesis by (simp add: covers_def)
qed (simp add: covers_def)

lemma strongest_elementary:
  assumes "edges_at input s (e # es)" "sorted (e # es)" "s \<le> a" "a < e"
  shows "strongest_at input a k \<longleftrightarrow> strongest_at input s k"
  using covers_elementary [OF assms] unfolding strongest_at_def by blast

lemma edges_at_step: "edges_at input s (e # es) \<Longrightarrow> s \<le> e \<Longrightarrow> edges_at input e es"
  unfolding edges_at_def by (auto intro: order.trans)

lemma sweep_inv_extend:
  assumes inv: "sweep_inv input s out" and ed: "edges_at input s (e # es)" "sorted (e # es)" and lt: "s < e"
    and ok: "map_ok out'" "out' \<noteq> [] \<longrightarrow> mr_base (last out') + mr_len (last out') \<le> e"
    and cov: "\<And>a k. kind_at out' a k \<longleftrightarrow>
        kind_at out a k \<or> s \<le> a \<and> a < e \<and> strongest_at input s k"
  shows "sweep_inv input e out'"
proof -
  have "kind_at out' a k \<longleftrightarrow> strongest_at input a k" if a: "a < e" for a k
  proof (cases "a < s")
    case True
    with inv cov [of a k] show ?thesis by (auto simp: sweep_inv_def)
  next
    case False
    then have sa: "s \<le> a" by simp
    have "\<not> kind_at out a k" using sweep_inv_above [OF inv sa] by (auto simp: kind_at_def)
    with cov [of a k] sa a strongest_elementary [OF ed sa a] show ?thesis by simp
  qed
  with ok show ?thesis unfolding sweep_inv_def by blast
qed

lemma sweep_inv_hole:
  assumes "sweep_inv input s out" "edges_at input s (e # es)" "sorted (e # es)" "s < e" "strongest input s = None"
  shows "sweep_inv input e out"
  by (rule sweep_inv_extend [OF assms(1-4)])
    (use assms strongest_iff [of input s] in \<open>auto simp: sweep_inv_def\<close>)

lemma sweep_inv_push:
  assumes inv: "sweep_inv input s out" and ed: "edges_at input s (e # es)" "sorted (e # es)" and lt: "s < e"
    and k: "strongest input s = Some kind"
    and new: "\<not> (out \<noteq> [] \<and> mr_kind (last out) = kind \<and> mr_base (last out) + mr_len (last out) = s)"
  shows "sweep_inv input e (out @ [\<lparr>mr_base = s, mr_len = e - s, mr_kind = kind\<rparr>])"
proof (rule sweep_inv_extend [OF inv ed lt])
  let ?r = "\<lparr>mr_base = s, mr_len = e - s, mr_kind = kind\<rparr>"
  show "map_ok (out @ [?r])"
    using inv lt new by (auto simp: map_ok_snoc sweep_inv_def)
  show "out @ [?r] \<noteq> [] \<longrightarrow> mr_base (last (out @ [?r])) + mr_len (last (out @ [?r])) \<le> e" by simp
  have "covers ?r a \<longleftrightarrow> s \<le> a \<and> a < e" for a using lt by (auto simp: covers_def)
  moreover have "strongest_at input s k' \<longleftrightarrow> k' = kind" for k'
    using k by (auto simp flip: strongest_iff)
  ultimately show "kind_at (out @ [?r]) a k' \<longleftrightarrow>
      kind_at out a k' \<or> s \<le> a \<and> a < e \<and> strongest_at input s k'" for a k'
    by auto
qed

lemma sweep_inv_coalesce:
  assumes inv: "sweep_inv input s out" and ed: "edges_at input s (e # es)" "sorted (e # es)" and lt: "s < e"
    and k: "strongest input s = Some kind"
    and old: "out \<noteq> []" "mr_kind (last out) = kind" "mr_base (last out) + mr_len (last out) = s"
  shows "sweep_inv input e (butlast out @ [(last out)\<lparr>mr_len := mr_len (last out) + (e - s)\<rparr>])"
proof (rule sweep_inv_extend [OF inv ed lt])
  let ?l = "last out" and ?b = "butlast out"
  let ?r = "?l\<lparr>mr_len := mr_len ?l + (e - s)\<rparr>"
  have out: "out = ?b @ [?l]" using old(1) by simp
  have ok: "map_ok (?b @ [?l])" using inv out by (simp add: sweep_inv_def)
  have e: "mr_base ?l + (mr_len ?l + (e - s)) = e"
    unfolding add.assoc [symmetric] old(3) by simp
  have bs: "mr_base ?l < s" using ok old(3) unfolding map_ok_snoc by simp
  show "map_ok (?b @ [?r])"
    using ok bs lt unfolding map_ok_snoc by (simp add: e)
  show "?b @ [?r] \<noteq> [] \<longrightarrow> mr_base (last (?b @ [?r])) + mr_len (last (?b @ [?r])) \<le> e" by (simp add: e)
  have "mr_len ?l \<noteq> 0" using bs old(3) by auto
  moreover have "mr_len ?l + (e - s) \<noteq> 0"
  proof
    assume "mr_len ?l + (e - s) = 0"
    then have "mr_base ?l = e" using e by (simp only: add_0_right)
    with bs lt show False by simp
  qed
  ultimately have "covers ?r a \<longleftrightarrow> covers ?l a \<or> s \<le> a \<and> a < e" for a
    using bs lt old(3) by (auto simp: covers_def e)
  moreover have "strongest_at input s k' \<longleftrightarrow> k' = kind" for k'
    using k by (auto simp flip: strongest_iff)
  moreover have "kind_at out a k' \<longleftrightarrow> kind_at ?b a k' \<or> covers ?l a \<and> mr_kind ?l = k'" for a k'
    using arg_cong [OF out, of "\<lambda>rs. kind_at rs a k'"] by simp
  ultimately show "kind_at (?b @ [?r]) a k' \<longleftrightarrow>
      kind_at out a k' \<or> s \<le> a \<and> a < e \<and> strongest_at input s k'" for a k'
    using old(2) by simp blast
qed

lemma sweep_sound:
  assumes "sweep n input (s # es) out = Ok out'" "sorted (s # es)" "edges_at input s es" "sweep_inv input s out"
  shows "map_ok out' \<and> (\<forall>a k. kind_at out' a k \<longleftrightarrow> strongest_at input a k)"
  using assms
proof (induction es arbitrary: s out)
  case Nil
  then have out: "out' = out" by simp
  have "\<not> strongest_at input a k" if "s \<le> a" for a k
    using Nil(3) that by (auto simp: edges_at_def strongest_at_def covers_def)
  moreover have "\<not> kind_at out a k" if "s \<le> a" for a k
    using sweep_inv_above [OF Nil(4) that] by (auto simp: kind_at_def)
  ultimately have "kind_at out a k \<longleftrightarrow> strongest_at input a k" for a k
    using Nil(4) by (cases "a < s") (simp_all add: sweep_inv_def)
  with Nil(4) show ?case by (simp add: out sweep_inv_def)
next
  case (Cons e es)
  have so: "sorted (e # es)" "s \<le> e" using Cons.prems(2) by auto
  note ea = edges_at_step [OF Cons.prems(3) so(2)]
  note I = Cons.prems(4) Cons.prems(3) so(1)
  show ?case
  proof (cases "s = e")
    case True
    with Cons.IH [OF _ so(1) ea, of out] Cons.prems show ?thesis by simp
  next
    case False
    with so(2) have lt: "s < e" by simp
    show ?thesis
    proof (cases "strongest input s")
      case None
      with False Cons.prems(1) have "sweep n input (e # es) out = Ok out'" by simp
      from Cons.IH [OF this so(1) ea sweep_inv_hole [OF I lt None]] show ?thesis .
    next
      case (Some kind)
      show ?thesis
      proof (cases "out \<noteq> [] \<and> mr_kind (last out) = kind \<and> mr_base (last out) + mr_len (last out) = s")
        case True
        with False Some Cons.prems(1) have "sweep n input (e # es)
            (butlast out @ [(last out)\<lparr>mr_len := mr_len (last out) + (e - s)\<rparr>]) = Ok out'" by simp
        from Cons.IH [OF this so(1) ea] sweep_inv_coalesce [OF I lt Some] True show ?thesis by blast
      next
        case new: False
        with False Some Cons.prems(1) have "sweep n input (e # es)
            (out @ [\<lparr>mr_base = s, mr_len = e - s, mr_kind = kind\<rparr>]) = Ok out'" by (auto split: if_splits)
        from Cons.IH [OF this so(1) ea sweep_inv_push [OF I lt Some new]] show ?thesis .
      qed
    qed
  qed
qed

lemma sweep_fits: "length out + length es \<le> Suc n \<Longrightarrow> is_ok (sweep n input es out)"
proof (induction n input es out rule: sweep.induct)
  case (1 n input s e es out)
  then show ?case by (auto split: option.splits)
qed auto

lemma normalize_sound:
  assumes "normalize_memory_map edge_cap out_cap input = Ok out"
  shows "map_ok out \<and> (\<forall>a k. kind_at out a k \<longleftrightarrow> strongest_at input a k)"
proof -
  from assms obtain edges where e: "collect_edges edge_cap input [] = Ok edges"
    and sw: "sweep out_cap input (sort_edges edges) [] = Ok out"
    by (auto simp: normalize_memory_map_def split: res.splits)
  note so = sort_edges_spec [of edges]
  have st: "set (sort_edges edges) = set edges" using so by (metis set_mset_mset)
  note E = collect_edges_Ok [OF e]
  show ?thesis
  proof (cases "sort_edges edges")
    case Nil
    then have "\<forall>r \<in> set input. mr_len r = 0" using st E(1) by auto
    with sw Nil show ?thesis by (auto simp: strongest_at_def covers_def)
  next
    case (Cons s es)
    have le: "s \<le> x" if "x \<in> set edges" for x using that st so Cons by auto
    have "edges_at input s es" using E(1) st Cons by (auto simp: edges_at_def)
    moreover have "\<not> strongest_at input a k" if "a < s" for a k
    proof
      assume "strongest_at input a k"
      then obtain r where r: "r \<in> set input" "covers r a" by (auto simp: strongest_at_def)
      then have "mr_base r \<in> set edges" using E(1) by (auto simp: covers_def)
      from le [OF this] r(2) that show False by (auto simp: covers_def)
    qed
    then have "sweep_inv input s []" by (simp add: sweep_inv_def)
    ultimately show ?thesis using sweep_sound [OF sw [unfolded Cons]] so Cons by simp
  qed
qed

subsection \<open>Properties\<close>

text \<open>C22: The boot memory map is normalized correctly. Whatever overlapping regions the
  firmware reports, a successful \<open>normalize_memory_map\<close> yields nonempty regions in ascending
  order that neither overlap nor wrap, with touching regions of different kinds, and every
  address has in the result exactly the kind of the strongest input region covering it; in
  particular no address is usable unless every region covering it says so.\<close>
theorem normalize_memory_map_correct:
  assumes "normalize_memory_map edge_cap out_cap input = Ok out"
  shows "map_ok out \<and> (\<forall>a k. kind_at out a k \<longleftrightarrow> strongest_at input a k)"
  by (rule normalize_sound [OF assms])

definition sample_map :: "MemoryRegion list" where
  "sample_map = [MemoryRegion_described 0x1000 0x8000 True, MemoryRegion_described 0x3000 0x1000 False,
     \<lparr>mr_base = 0x6000, mr_len = 0x2000, mr_kind = KernelAndModules\<rparr>]"

theorem normalize_memory_map_correct_witness:
  "\<exists>out. normalize_memory_map 6 6 sample_map = Ok out \<and> map_ok out \<and> length out = 5 \<and>
     (\<forall>a k. kind_at out a k \<longleftrightarrow> strongest_at sample_map a k)"
proof -
  have "is_ok (normalize_memory_map 6 6 sample_map)" by code_simp
  then obtain out where out: "normalize_memory_map 6 6 sample_map = Ok out" by (auto simp: is_ok_iff)
  have "(case normalize_memory_map 6 6 sample_map of Ok m \<Rightarrow> length m = 5 | Err _ \<Rightarrow> False)" by code_simp
  then have "length out = 5" unfolding out by simp
  with out normalize_memory_map_correct [OF out] show ?thesis by blast
qed

lemma collect_edges_fits:
  "length acc + 2 * length input \<le> n \<Longrightarrow>
   (if \<exists>r \<in> set input. mr_len r \<noteq> 0 \<and> MemoryRegion_end r = None
    then collect_edges n input acc = Err InvalidMapping
    else \<exists>edges. collect_edges n input acc = Ok edges \<and> length edges \<le> length acc + 2 * length input)"
proof (induction input arbitrary: acc)
  case (Cons r rs)
  show ?case
  proof (cases "mr_len r = 0")
    case True
    with Cons.prems Cons.IH [of acc] show ?thesis by (fastforce split: if_splits)
  next
    case False
    show ?thesis
    proof (cases "MemoryRegion_end r")
      case (Some e)
      with False Cons.prems Cons.IH [of "acc @ [mr_base r, e]"] show ?thesis by (fastforce split: if_splits)
    qed (use False in auto)
  qed
qed simp

text \<open>C23: With the buffers its contract asks for, normalization never fails for lack of room:
  given an edge buffer and an output of twice the number of regions, it succeeds unless a
  nonempty region wraps the address space, which is refused as \<open>InvalidMapping\<close>.\<close>
theorem normalize_memory_map_total:
  assumes "2 * length input \<le> edge_cap" "2 * length input \<le> out_cap"
  shows "if \<exists>r \<in> set input. mr_len r \<noteq> 0 \<and> MemoryRegion_end r = None
     then normalize_memory_map edge_cap out_cap input = Err InvalidMapping
     else is_ok (normalize_memory_map edge_cap out_cap input)"
proof -
  have "is_ok (sweep out_cap input (sort_edges edges) [])" if "length edges \<le> 2 * length input" for edges
  proof -
    have "length (sort_edges edges) = length edges" using sort_edges_spec [of edges] by (metis size_mset)
    with that assms(2) show ?thesis by (intro sweep_fits) simp
  qed
  with collect_edges_fits [of "[]" input edge_cap] assms(1) show ?thesis
    by (auto simp: normalize_memory_map_def split: if_splits)
qed

theorem normalize_memory_map_total_witness:
  "is_ok (normalize_memory_map 6 6 sample_map) \<and>
   normalize_memory_map 2 2 [MemoryRegion_described (- 1) 2 True] = Err InvalidMapping"
proof -
  have "\<not> (\<exists>r \<in> set sample_map. mr_len r \<noteq> 0 \<and> MemoryRegion_end r = None)"
    "\<exists>r \<in> set [MemoryRegion_described (- 1) 2 True]. mr_len r \<noteq> 0 \<and> MemoryRegion_end r = None"
    "2 * length sample_map \<le> 6" by code_simp+
  then show ?thesis
    using normalize_memory_map_total [of sample_map 6 6]
      normalize_memory_map_total [of "[MemoryRegion_described (- 1) 2 True]" 2 2] by simp
qed

end
