(* ===== verification/Paging.thy ===== *)
theory Paging
  imports Addr
begin

text \<open>
  The virtual-memory porting surface, \<^verbatim>\<open>karch/src/vm.rs\<close>: page permissions, and the two
  traits the kernel core is generic over. A trait is a record of operations (its
  dictionary), as the code is generic over a type parameter: \<open>FrameOps\<close> for
  \<^verbatim>\<open>FrameSource\<close> and \<open>ArchOps\<close> for \<^verbatim>\<open>AddressSpaceOps\<close>. The locales state the
  contracts their documentation gives, with the references to frames that are held as a
  multiset; the mock port of \<^verbatim>\<open>karch-mock/src/lib.rs\<close> is an instance of both.
\<close>

subsection \<open>Page permissions\<close>

datatype PageFlags = PageFlags (PageFlags_bits: "16 word")

definition PageFlags_READ :: "16 word" where "PageFlags_READ = push_bit 0 1"
definition PageFlags_WRITE :: "16 word" where "PageFlags_WRITE = push_bit 1 1"
definition PageFlags_EXECUTE :: "16 word" where "PageFlags_EXECUTE = push_bit 2 1"
definition PageFlags_USER :: "16 word" where "PageFlags_USER = push_bit 3 1"
definition PageFlags_GLOBAL :: "16 word" where "PageFlags_GLOBAL = push_bit 4 1"
definition PageFlags_DEVICE :: "16 word" where "PageFlags_DEVICE = push_bit 5 1"

definition PageFlags_none :: PageFlags where "PageFlags_none = PageFlags 0"

definition PageFlags_read :: "PageFlags \<Rightarrow> PageFlags" where
  "PageFlags_read f = PageFlags (PageFlags_bits f OR PageFlags_READ)"

definition PageFlags_write :: "PageFlags \<Rightarrow> PageFlags" where
  "PageFlags_write f = PageFlags (PageFlags_bits f OR PageFlags_WRITE)"

definition PageFlags_execute :: "PageFlags \<Rightarrow> PageFlags" where
  "PageFlags_execute f = PageFlags (PageFlags_bits f OR PageFlags_EXECUTE)"

definition PageFlags_ro :: PageFlags where "PageFlags_ro = PageFlags_read PageFlags_none"
definition PageFlags_rw :: PageFlags where "PageFlags_rw = PageFlags_write (PageFlags_read PageFlags_none)"
definition PageFlags_rx :: PageFlags where "PageFlags_rx = PageFlags_execute (PageFlags_read PageFlags_none)"

definition PageFlags_user :: "PageFlags \<Rightarrow> PageFlags" where
  "PageFlags_user f = PageFlags (PageFlags_bits f OR PageFlags_USER)"

definition PageFlags_global :: "PageFlags \<Rightarrow> PageFlags" where
  "PageFlags_global f = PageFlags (PageFlags_bits f OR PageFlags_GLOBAL)"

definition PageFlags_device :: "PageFlags \<Rightarrow> PageFlags" where
  "PageFlags_device f = PageFlags (PageFlags_bits f OR PageFlags_DEVICE)"

definition PageFlags_readable :: "PageFlags \<Rightarrow> bool" where
  "PageFlags_readable f \<longleftrightarrow> PageFlags_bits f AND PageFlags_READ \<noteq> 0"

definition PageFlags_writable :: "PageFlags \<Rightarrow> bool" where
  "PageFlags_writable f \<longleftrightarrow> PageFlags_bits f AND PageFlags_WRITE \<noteq> 0"

definition PageFlags_executable :: "PageFlags \<Rightarrow> bool" where
  "PageFlags_executable f \<longleftrightarrow> PageFlags_bits f AND PageFlags_EXECUTE \<noteq> 0"

definition PageFlags_is_user :: "PageFlags \<Rightarrow> bool" where
  "PageFlags_is_user f \<longleftrightarrow> PageFlags_bits f AND PageFlags_USER \<noteq> 0"

definition PageFlags_is_global :: "PageFlags \<Rightarrow> bool" where
  "PageFlags_is_global f \<longleftrightarrow> PageFlags_bits f AND PageFlags_GLOBAL \<noteq> 0"

definition PageFlags_is_device :: "PageFlags \<Rightarrow> bool" where
  "PageFlags_is_device f \<longleftrightarrow> PageFlags_bits f AND PageFlags_DEVICE \<noteq> 0"

definition PageFlags_is_wx :: "PageFlags \<Rightarrow> bool" where
  "PageFlags_is_wx f \<longleftrightarrow> PageFlags_writable f \<and> PageFlags_executable f"

subsection \<open>The two traits\<close>

record 'f FrameOps =
  alloc_frame :: "'f \<Rightarrow> PhysFrame option \<times> 'f"
  retain_frame :: "'f \<Rightarrow> PhysFrame \<Rightarrow> 'f"
  free_frame :: "'f \<Rightarrow> PhysFrame \<Rightarrow> 'f"

record ('a, 'f) ArchOps =
  USER_ADDRESS_MAX :: "64 word"
  map_page :: "'a \<Rightarrow> VirtAddr \<Rightarrow> PhysFrame \<Rightarrow> PageFlags \<Rightarrow> 'f \<Rightarrow> unit res \<times> 'a \<times> 'f"
  unmap_page :: "'a \<Rightarrow> VirtAddr \<Rightarrow> PhysFrame res \<times> 'a"
  protect_page :: "'a \<Rightarrow> VirtAddr \<Rightarrow> PageFlags \<Rightarrow> unit res \<times> 'a"
  translate :: "'a \<Rightarrow> VirtAddr \<Rightarrow> (PhysFrame \<times> PageFlags) option"
  free_tables :: "'a \<Rightarrow> 'f \<Rightarrow> 'a \<times> 'f"

text \<open>Frame contents, reached by a port through its direct map: \<^verbatim>\<open>zero_frame\<close>,
  \<^verbatim>\<open>fill_frame\<close>, \<^verbatim>\<open>copy_frame\<close> and \<^verbatim>\<open>write_bytes_to_frame\<close> on physical memory.\<close>

type_synonym PhysMem = "PhysFrame \<Rightarrow> 8 word list"

definition fill_frame :: "PhysMem \<Rightarrow> PhysFrame \<Rightarrow> 8 word \<Rightarrow> PhysMem" where
  "fill_frame mem frame byte = mem(frame := replicate 4096 byte)"

definition zero_frame :: "PhysMem \<Rightarrow> PhysFrame \<Rightarrow> PhysMem" where
  "zero_frame mem frame = mem(frame := replicate 4096 0)"

definition copy_frame :: "PhysMem \<Rightarrow> PhysFrame \<Rightarrow> PhysFrame \<Rightarrow> PhysMem" where
  "copy_frame mem dst src = mem(dst := mem src)"

definition write_bytes_to_frame :: "PhysMem \<Rightarrow> PhysFrame \<Rightarrow> nat \<Rightarrow> 8 word list \<Rightarrow> PhysMem" where
  "write_bytes_to_frame mem frame offset src =
     mem(frame := take offset (mem frame) @ src @ drop (offset + length src) (mem frame))"

subsection \<open>The mock port\<close>

record MockFrameSource =
  mf_next :: "64 word"
  mf_end :: "64 word"
  mf_handed_out :: nat
  mf_free_list :: "64 word list"
  mf_refcounts :: "64 word \<rightharpoonup> nat"

definition MockFrameSource_new :: "64 word \<Rightarrow> 64 word \<Rightarrow> MockFrameSource" where
  "MockFrameSource_new base cnt =
     \<lparr> mf_next = base, mf_end = base + cnt * FRAME_SIZE, mf_handed_out = 0, mf_free_list = [],
       mf_refcounts = Map.empty \<rparr>"

definition MockFrameSource_references :: "MockFrameSource \<Rightarrow> PhysFrame \<Rightarrow> nat" where
  "MockFrameSource_references s frame = (case mf_refcounts s frame of Some c \<Rightarrow> c | None \<Rightarrow> 1)"

definition MockFrameSource_alloc_frame :: "MockFrameSource \<Rightarrow> PhysFrame option \<times> MockFrameSource" where
  "MockFrameSource_alloc_frame s =
     (if mf_free_list s \<noteq> []
      then (PhysFrame_from_base (last (mf_free_list s)), s\<lparr>mf_free_list := butlast (mf_free_list s)\<rparr>)
      else if mf_next s \<ge> mf_end s then (None, s)
      else case PhysFrame_from_base (mf_next s) of
        None \<Rightarrow> (None, s)
      | Some frame \<Rightarrow>
          (Some frame, s\<lparr>mf_next := mf_next s + FRAME_SIZE, mf_handed_out := mf_handed_out s + 1\<rparr>))"

definition MockFrameSource_retain_frame :: "MockFrameSource \<Rightarrow> PhysFrame \<Rightarrow> MockFrameSource" where
  "MockFrameSource_retain_frame s frame =
     s\<lparr>mf_refcounts := (mf_refcounts s)(frame \<mapsto>
        (case mf_refcounts s frame of Some c \<Rightarrow> c | None \<Rightarrow> 1) + 1)\<rparr>"

definition MockFrameSource_free_frame :: "MockFrameSource \<Rightarrow> PhysFrame \<Rightarrow> MockFrameSource" where
  "MockFrameSource_free_frame s frame =
     (case mf_refcounts s frame of
        Some cnt \<Rightarrow>
          if cnt - 1 \<le> 1 then s\<lparr>mf_refcounts := (mf_refcounts s)(frame := None)\<rparr>
          else s\<lparr>mf_refcounts := (mf_refcounts s)(frame \<mapsto> cnt - 1)\<rparr>
      | None \<Rightarrow> s\<lparr>mf_free_list := mf_free_list s @ [frame]\<rparr>)"

definition mock_frames :: "MockFrameSource FrameOps" where
  "mock_frames = \<lparr> alloc_frame = MockFrameSource_alloc_frame, retain_frame = MockFrameSource_retain_frame,
     free_frame = MockFrameSource_free_frame \<rparr>"

record MockAddressSpace =
  ma_mappings :: "VirtAddr \<rightharpoonup> PhysAddr \<times> PageFlags"
  ma_invalidated :: "VirtAddr list"

definition MockAddressSpace_new :: MockAddressSpace where
  "MockAddressSpace_new = \<lparr> ma_mappings = Map.empty, ma_invalidated = [] \<rparr>"

definition MockAddressSpace_invalidate_local :: "MockAddressSpace \<Rightarrow> VirtAddr \<Rightarrow> MockAddressSpace" where
  "MockAddressSpace_invalidate_local a virt = a\<lparr>ma_invalidated := ma_invalidated a @ [virt]\<rparr>"

definition MockAddressSpace_map ::
    "MockAddressSpace \<Rightarrow> VirtAddr \<Rightarrow> PhysFrame \<Rightarrow> PageFlags \<Rightarrow> 'f \<Rightarrow> unit res \<times> MockAddressSpace \<times> 'f" where
  "MockAddressSpace_map a virt frame flags alloc =
     (if \<not> is_aligned virt FRAME_SIZE then (Err Unaligned, a, alloc)
      else if PageFlags_is_wx flags then (Err WXViolation, a, alloc)
      else if ma_mappings a virt \<noteq> None then (Err AlreadyMapped, a, alloc)
      else (Ok (), MockAddressSpace_invalidate_local
                     (a\<lparr>ma_mappings := (ma_mappings a)(virt \<mapsto> (frame, flags))\<rparr>) virt, alloc))"

definition MockAddressSpace_unmap :: "MockAddressSpace \<Rightarrow> VirtAddr \<Rightarrow> PhysFrame res \<times> MockAddressSpace" where
  "MockAddressSpace_unmap a virt =
     (case ma_mappings a virt of
        None \<Rightarrow> (Err NotMapped, a)
      | Some (phys, _) \<Rightarrow>
          (case PhysFrame_from_base phys of Some f \<Rightarrow> Ok f | None \<Rightarrow> Err InvalidMapping,
           MockAddressSpace_invalidate_local (a\<lparr>ma_mappings := (ma_mappings a)(virt := None)\<rparr>) virt))"

definition MockAddressSpace_protect :: "MockAddressSpace \<Rightarrow> VirtAddr \<Rightarrow> PageFlags \<Rightarrow> unit res \<times> MockAddressSpace" where
  "MockAddressSpace_protect a virt flags =
     (if PageFlags_is_wx flags then (Err WXViolation, a)
      else case ma_mappings a virt of
        None \<Rightarrow> (Err NotMapped, a)
      | Some (phys, _) \<Rightarrow>
          (Ok (), MockAddressSpace_invalidate_local
                    (a\<lparr>ma_mappings := (ma_mappings a)(virt \<mapsto> (phys, flags))\<rparr>) virt))"

definition MockAddressSpace_translate :: "MockAddressSpace \<Rightarrow> VirtAddr \<Rightarrow> (PhysFrame \<times> PageFlags) option" where
  "MockAddressSpace_translate a virt =
     (case ma_mappings a virt of
        None \<Rightarrow> None
      | Some (phys, flags) \<Rightarrow> map_option (\<lambda>frame. (frame, flags)) (PhysFrame_from_base phys))"

definition MockAddressSpace_free_tables :: "MockAddressSpace \<Rightarrow> 'f \<Rightarrow> MockAddressSpace \<times> 'f" where
  "MockAddressSpace_free_tables a alloc = (a, alloc)"

definition mock_arch :: "(MockAddressSpace, 'f) ArchOps" where
  "mock_arch = \<lparr> USER_ADDRESS_MAX = 0x0000800000000000, map_page = MockAddressSpace_map,
     unmap_page = MockAddressSpace_unmap, protect_page = MockAddressSpace_protect,
     translate = MockAddressSpace_translate, free_tables = MockAddressSpace_free_tables \<rparr>"

subsection \<open>Lemmas on permissions\<close>

lemma flag_bit: "(w :: 16 word) AND push_bit n 1 \<noteq> 0 \<longleftrightarrow> bit w n"
  by (simp add: and_exp_eq_0_iff_not_bit)

lemmas page_flag_defs = PageFlags_READ_def PageFlags_WRITE_def PageFlags_EXECUTE_def PageFlags_USER_def
  PageFlags_GLOBAL_def PageFlags_DEVICE_def PageFlags_readable_def PageFlags_writable_def
  PageFlags_executable_def PageFlags_is_user_def PageFlags_is_global_def PageFlags_is_device_def
  PageFlags_none_def PageFlags_read_def PageFlags_write_def PageFlags_execute_def PageFlags_user_def
  PageFlags_global_def PageFlags_device_def

lemma page_flags_simps [simp]:
  "\<not> PageFlags_writable PageFlags_none" "\<not> PageFlags_executable PageFlags_none" "\<not> PageFlags_is_user PageFlags_none"
  "PageFlags_writable (PageFlags_read f) = PageFlags_writable f"
  "PageFlags_executable (PageFlags_read f) = PageFlags_executable f"
  "PageFlags_is_user (PageFlags_read f) = PageFlags_is_user f"
  "PageFlags_writable (PageFlags_user f) = PageFlags_writable f"
  "PageFlags_executable (PageFlags_user f) = PageFlags_executable f"
  "PageFlags_is_user (PageFlags_user f)"
  "PageFlags_writable (PageFlags_execute f) = PageFlags_writable f"
  "PageFlags_executable (PageFlags_execute f)"
  "PageFlags_is_user (PageFlags_execute f) = PageFlags_is_user f"
  "PageFlags_writable (PageFlags_write f)"
  "PageFlags_executable (PageFlags_write f) = PageFlags_executable f"
  "PageFlags_is_user (PageFlags_write f) = PageFlags_is_user f"
  "PageFlags_writable (PageFlags_device f) = PageFlags_writable f"
  "PageFlags_executable (PageFlags_device f) = PageFlags_executable f"
  "PageFlags_is_user (PageFlags_device f) = PageFlags_is_user f"
  unfolding page_flag_defs flag_bit PageFlags.sel by (simp_all add: bit_simps)

subsection \<open>The contract of a frame source\<close>

text \<open>\<open>frames_ok s M\<close>: the source is in state \<open>s\<close> while its clients hold exactly the references
  in \<open>M\<close>. A frame handed out is aligned and held by nobody, a reference is recorded while
  the source has room for it (\<open>can_retain\<close>), and a frame is not reused before every
  reference to it has been given back.\<close>

locale frame_source =
  fixes F :: "'f FrameOps"
    and frames_ok :: "'f \<Rightarrow> PhysFrame multiset \<Rightarrow> bool"
    and can_retain :: "'f \<Rightarrow> PhysFrame \<Rightarrow> bool"
  assumes alloc_fresh: "frames_ok s M \<Longrightarrow> alloc_frame F s = (Some f, s') \<Longrightarrow>
      f \<notin># M \<and> is_aligned f FRAME_SIZE \<and> frames_ok s' (add_mset f M)"
    and alloc_exhausted: "frames_ok s M \<Longrightarrow> alloc_frame F s = (None, s') \<Longrightarrow> frames_ok s' M"
    and retain_held: "frames_ok s M \<Longrightarrow> f \<in># M \<Longrightarrow> can_retain s f \<Longrightarrow> frames_ok (retain_frame F s f) (add_mset f M)"
    and free_held: "frames_ok s (add_mset f M) \<Longrightarrow> frames_ok (free_frame F s f) M"
begin

lemma free_all: "frames_ok s (mset fs + M) \<Longrightarrow> frames_ok (foldl (free_frame F) s fs) M"
  by (induction fs arbitrary: s) (auto intro: free_held)

lemma retain_then_free:
  "frames_ok s M \<Longrightarrow> f \<in># M \<Longrightarrow> can_retain s f \<Longrightarrow> frames_ok (free_frame F (retain_frame F s f) f) M"
  using free_held retain_held by blast

end

definition mock_frames_ok :: "MockFrameSource \<Rightarrow> PhysFrame multiset \<Rightarrow> bool" where
  "mock_frames_ok s M \<longleftrightarrow>
     is_aligned (mf_next s) FRAME_SIZE \<and> is_aligned (mf_end s) FRAME_SIZE \<and>
     distinct (mf_free_list s) \<and>
     (\<forall>f \<in> set (mf_free_list s). is_aligned f FRAME_SIZE \<and> f < mf_next s \<and> f \<notin># M) \<and>
     (\<forall>f \<in># M. f < mf_next s \<and> is_aligned f FRAME_SIZE) \<and>
     (\<forall>f c. mf_refcounts s f = Some c \<longrightarrow> 2 \<le> c \<and> count M f = c) \<and>
     (\<forall>f. mf_refcounts s f = None \<longrightarrow> count M f \<le> 1)"

lemma mock_refs:
  assumes "mock_frames_ok s M"
  shows "mf_refcounts s f = Some c \<Longrightarrow> count M f = c \<and> 2 \<le> c" and "mf_refcounts s f = None \<Longrightarrow> count M f \<le> 1"
    and "count M f \<le> 1 \<Longrightarrow> mf_refcounts s f = None"
proof -
  show *: "mf_refcounts s f = Some c \<Longrightarrow> count M f = c \<and> 2 \<le> c" for c
    using assms unfolding mock_frames_ok_def by blast
  show "mf_refcounts s f = None \<Longrightarrow> count M f \<le> 1" using assms unfolding mock_frames_ok_def by blast
  show "count M f \<le> 1 \<Longrightarrow> mf_refcounts s f = None" using * by (cases "mf_refcounts s f") fastforce+
qed

lemma mock_frames_new: "is_aligned base FRAME_SIZE \<Longrightarrow> mock_frames_ok (MockFrameSource_new base n) {#}"
  by (simp add: mock_frames_ok_def MockFrameSource_new_def aligned_add aligned_mult)

lemma aligned_next_le:
  assumes "is_aligned a FRAME_SIZE" "is_aligned b FRAME_SIZE" "a < b"
  shows "a + FRAME_SIZE \<le> b" and "unat (a + FRAME_SIZE) = unat a + 4096" and "a < a + FRAME_SIZE"
proof -
  have ab: "unat a < unat b" "4096 dvd unat a" "4096 dvd unat b"
    using assms by (simp_all add: is_aligned_dvd word_less_nat_alt)
  then have "unat a + 4096 \<le> unat b" by (metis dvd_diff_nat dvd_imp_le le_diff_conv2 less_imp_le zero_less_diff add.commute)
  moreover have "unat b < 2 ^ 64" using unsigned_less [of b] by simp
  ultimately have "unat a + unat FRAME_SIZE < 2 ^ LENGTH(64)" by simp
  then have u: "unat (a + FRAME_SIZE) = unat a + 4096" using unat_add_lem [of a FRAME_SIZE] by simp
  then show "unat (a + FRAME_SIZE) = unat a + 4096" .
  show "a + FRAME_SIZE \<le> b" using u \<open>unat a + 4096 \<le> unat b\<close> by (simp add: word_le_nat_alt)
  show "a < a + FRAME_SIZE" using u by (simp add: word_less_nat_alt)
qed

interpretation mock_fs: frame_source mock_frames mock_frames_ok "\<lambda>_ _. True"
proof (unfold_locales, goal_cases)
  case (1 s M f s')
  show ?case
  proof (cases "mf_free_list s = []")
    case True
    with 1 have f: "f = mf_next s" "mf_next s < mf_end s"
      "s' = s\<lparr>mf_next := mf_next s + FRAME_SIZE, mf_handed_out := mf_handed_out s + 1\<rparr>"
      by (auto simp: mock_frames_def MockFrameSource_alloc_frame_def from_base_iff split: if_splits option.splits)
    have a: "is_aligned (mf_next s) FRAME_SIZE" "is_aligned (mf_end s) FRAME_SIZE" using 1(1) by (simp_all add: mock_frames_ok_def)
    have lt: "mf_next s < mf_next s + FRAME_SIZE" using aligned_next_le(3) [OF a f(2)] .
    have n: "mf_next s \<notin># M" using 1(1) by (auto simp: mock_frames_ok_def)
    then have c: "count M (mf_next s) = 0" by (simp add: not_in_iff)
    then have "mf_refcounts s (mf_next s) = None" using mock_refs(3) [OF 1(1)] by simp
    with 1(1) c n a lt True show ?thesis
      unfolding f mock_frames_ok_def
      by (auto simp: aligned_add intro: order.strict_trans split: option.splits)
  next
    case False
    then obtain fs x where fs: "mf_free_list s = fs @ [x]" by (metis append_butlast_last_id)
    with 1 have f: "f = x" "s' = s\<lparr>mf_free_list := fs\<rparr>" "is_aligned x FRAME_SIZE"
      by (auto simp: mock_frames_def MockFrameSource_alloc_frame_def from_base_iff)
    have n: "x \<notin># M" "x < mf_next s" using 1(1) fs by (auto simp: mock_frames_ok_def)
    then have c: "count M x = 0" by (simp add: not_in_iff)
    then have "mf_refcounts s x = None" using mock_refs(3) [OF 1(1)] by simp
    with 1(1) fs n c f(3) show ?thesis unfolding f mock_frames_ok_def by (auto split: option.splits)
  qed
next
  case (2 s M s')
  then have "mf_free_list s = []"
    by (auto simp: mock_frames_def MockFrameSource_alloc_frame_def mock_frames_ok_def PhysFrame_from_base_def
        split: if_splits)
  with 2 have "s' = s"
    by (auto simp: mock_frames_def MockFrameSource_alloc_frame_def split: if_splits option.splits)
  with 2 show ?case by simp
next
  case (3 s M f)
  then have ge: "count M f \<ge> 1" by (simp add: Suc_leI)
  have "(case mf_refcounts s f of Some c \<Rightarrow> c | None \<Rightarrow> 1) = count M f"
    using mock_refs(1,2) [OF 3(1), of f] ge by (cases "mf_refcounts s f") (auto intro: le_antisym)
  then have r: "retain_frame mock_frames s f = s\<lparr>mf_refcounts := (mf_refcounts s)(f \<mapsto> Suc (count M f))\<rparr>"
    by (simp add: mock_frames_def MockFrameSource_retain_frame_def)
  have "f < mf_next s" "is_aligned f FRAME_SIZE" "f \<notin> set (mf_free_list s)"
    using 3(1,2) unfolding mock_frames_ok_def by blast+
  with 3(1) ge show ?case unfolding r mock_frames_ok_def by auto
next
  case (4 s f M)
  have al: "is_aligned f FRAME_SIZE" using 4 by (simp add: mock_frames_ok_def)
  show ?case
  proof (cases "mf_refcounts s f")
    case None
    then have "count (add_mset f M) f \<le> 1" by (rule mock_refs(2) [OF 4])
    then have "f \<notin># M" by (simp add: not_in_iff)
    moreover have "free_frame mock_frames s f = s\<lparr>mf_free_list := mf_free_list s @ [f]\<rparr>"
      using None by (simp add: mock_frames_def MockFrameSource_free_frame_def)
    moreover have "f < mf_next s" "f \<notin> set (mf_free_list s)"
      using 4 unfolding mock_frames_ok_def by (simp, blast intro: union_single_eq_member)
    moreover have "2 \<le> c \<and> count M g = c" if "mf_refcounts s g = Some c" for g c
      using mock_refs(1) [OF 4 that] that None by (cases "g = f") auto
    moreover have "count M g \<le> 1" if "mf_refcounts s g = None" for g
      using mock_refs(2) [OF 4 that] by (auto split: if_splits)
    moreover have "\<forall>g \<in> set (mf_free_list s). is_aligned g FRAME_SIZE \<and> g < mf_next s \<and> g \<notin># M"
      "\<forall>g \<in># M. g < mf_next s \<and> is_aligned g FRAME_SIZE" "distinct (mf_free_list s)"
      "is_aligned (mf_next s) FRAME_SIZE" "is_aligned (mf_end s) FRAME_SIZE"
      using 4 by (simp_all add: mock_frames_ok_def)
    ultimately show ?thesis using al by (simp add: mock_frames_ok_def)
  next
    case (Some c)
    then have "Suc (count M f) = c" "2 \<le> c" using mock_refs(1) [OF 4] by fastforce+
    moreover have "free_frame mock_frames s f =
        s\<lparr>mf_refcounts := (mf_refcounts s)(f := if c \<le> 2 then None else Some (c - 1))\<rparr>"
      using Some by (auto simp: mock_frames_def MockFrameSource_free_frame_def)
    moreover have "2 \<le> d \<and> count M g = d" if "mf_refcounts s g = Some d" "g \<noteq> f" for g d
      using mock_refs(1) [OF 4 that(1)] that by auto
    moreover have "count M g \<le> 1" if "mf_refcounts s g = None" for g
      using mock_refs(2) [OF 4 that] by (auto split: if_splits)
    moreover have "\<forall>g \<in> set (mf_free_list s). is_aligned g FRAME_SIZE \<and> g < mf_next s \<and> g \<notin># M"
      "\<forall>g \<in># M. g < mf_next s \<and> is_aligned g FRAME_SIZE" "distinct (mf_free_list s)"
      "is_aligned (mf_next s) FRAME_SIZE" "is_aligned (mf_end s) FRAME_SIZE"
      using 4 by (simp_all add: mock_frames_ok_def)
    ultimately show ?thesis by (simp add: mock_frames_ok_def) linarith
  qed
qed

subsection \<open>The contract of an address space\<close>

text \<open>\<open>pages a\<close> is what the port's tables translate, page by page, and \<open>tables a\<close> the frames
  the tables themselves occupy, which \<^verbatim>\<open>map\<close> may draw from the source and only
  \<^verbatim>\<open>free_tables\<close> returns.\<close>

locale arch_space = frame_source F frames_ok can_retain
  for F :: "'f FrameOps" and frames_ok and can_retain +
  fixes A :: "('a, 'f) ArchOps"
    and pages :: "'a \<Rightarrow> VirtAddr \<Rightarrow> (PhysFrame \<times> PageFlags) option"
    and tables :: "'a \<Rightarrow> PhysFrame multiset"
    and arch_ok :: "'a \<Rightarrow> bool"
  assumes translate_pages: "arch_ok a \<Longrightarrow> is_aligned va FRAME_SIZE \<Longrightarrow> translate A a va = pages a va"
    and pages_wf: "arch_ok a \<Longrightarrow> pages a va = Some (f, fl) \<Longrightarrow>
        is_aligned va FRAME_SIZE \<and> is_aligned f FRAME_SIZE \<and> \<not> PageFlags_is_wx fl"
    and map_law: "arch_ok a \<Longrightarrow> is_aligned f FRAME_SIZE \<Longrightarrow> frames_ok s (M + tables a) \<Longrightarrow>
        map_page A a va f fl s = (r, a', s') \<Longrightarrow>
        arch_ok a' \<and> frames_ok s' (M + tables a') \<and>
        (case r of
           Ok _ \<Rightarrow> is_aligned va FRAME_SIZE \<and> \<not> PageFlags_is_wx fl \<and> pages a va = None \<and>
             pages a' = (pages a)(va \<mapsto> (f, fl))
         | Err _ \<Rightarrow> pages a' = pages a)"
    and unmap_law: "arch_ok a \<Longrightarrow> is_aligned va FRAME_SIZE \<Longrightarrow> unmap_page A a va = (u, a') \<Longrightarrow>
        arch_ok a' \<and> tables a' = tables a \<and>
        (case u of
           Ok f \<Rightarrow> (\<exists>fl. pages a va = Some (f, fl)) \<and> pages a' = (pages a)(va := None)
         | Err _ \<Rightarrow> pages a va = None \<and> pages a' = pages a)"
    and protect_law: "arch_ok a \<Longrightarrow> is_aligned va FRAME_SIZE \<Longrightarrow> protect_page A a va fl = (r, a') \<Longrightarrow>
        arch_ok a' \<and> tables a' = tables a \<and>
        (case r of
           Ok _ \<Rightarrow> \<not> PageFlags_is_wx fl \<and> (\<exists>f fl0. pages a va = Some (f, fl0) \<and> pages a' = (pages a)(va \<mapsto> (f, fl)))
         | Err _ \<Rightarrow> (PageFlags_is_wx fl \<or> pages a va = None) \<and> pages a' = pages a)"
    and free_tables_law: "arch_ok a \<Longrightarrow> frames_ok s (M + tables a) \<Longrightarrow> free_tables A a s = (a', s') \<Longrightarrow>
        frames_ok s' M"

definition mock_arch_ok :: "MockAddressSpace \<Rightarrow> bool" where
  "mock_arch_ok a \<longleftrightarrow>
     (\<forall>va f fl. ma_mappings a va = Some (f, fl) \<longrightarrow>
        is_aligned va FRAME_SIZE \<and> is_aligned f FRAME_SIZE \<and> \<not> PageFlags_is_wx fl)"

lemma mock_arch_new: "mock_arch_ok MockAddressSpace_new"
  by (simp add: mock_arch_ok_def MockAddressSpace_new_def)

lemmas mock_arch_defs = mock_arch_def mock_arch_ok_def MockAddressSpace_map_def MockAddressSpace_unmap_def
  MockAddressSpace_protect_def MockAddressSpace_translate_def MockAddressSpace_invalidate_local_def
  MockAddressSpace_free_tables_def

lemma mock_arch_space:
  assumes "frame_source F ok cr"
  shows "arch_space F ok cr mock_arch ma_mappings (\<lambda>_. {#}) mock_arch_ok"
proof (rule arch_space.intro [OF assms], unfold_locales, goal_cases)
  case (1 a va)
  then show ?case by (auto simp: mock_arch_defs from_base_iff PhysFrame_from_base_def split: option.splits)
next
  case (2 a va f fl)
  then show ?case by (simp add: mock_arch_ok_def)
next
  case (3 a f s M va fl r a' s')
  then show ?case by (cases "ma_mappings a va") (auto simp: mock_arch_defs split: if_splits)
next
  case (4 a va r a')
  then show ?case by (auto simp: mock_arch_defs PhysFrame_from_base_def split: option.splits if_splits)
next
  case (5 a va fl r a')
  then show ?case by (auto simp: mock_arch_defs split: if_splits option.splits)
next
  case (6 a s M a' s')
  then show ?case by (simp add: mock_arch_defs)
qed

interpretation mock_as: arch_space mock_frames mock_frames_ok "\<lambda>_ _. True" mock_arch ma_mappings "\<lambda>_. {#}" mock_arch_ok
  by (rule mock_arch_space) (rule mock_fs.frame_source_axioms)

end
