(* ===== verification/Frames.thy ===== *)
theory Frames
  imports BootMap Paging
begin

text \<open>
  Physical frames, \<^verbatim>\<open>kcore/src/pmem.rs\<close>: the bump allocator over the boot memory map with its
  bounded free list and its bounded table of shared frames, and the pre-filled frame pool.
  The capacities \<^verbatim>\<open>MAX_FREE_FRAMES\<close> and \<^verbatim>\<open>MAX_SHARED_FRAMES\<close> are the lengths of the two
  arrays. Both are frame sources: the allocator while its shared table has room.
\<close>

definition RECLAIM_OVERFLOW_FREE_LIST_FULL :: "64 word" where "RECLAIM_OVERFLOW_FREE_LIST_FULL = 1"
definition RECLAIM_OVERFLOW_SHARED_TABLE_FULL :: "64 word" where "RECLAIM_OVERFLOW_SHARED_TABLE_FULL = 2"
definition RECLAIM_REFUSED_STILL_ATTACHED :: "64 word" where "RECLAIM_REFUSED_STILL_ATTACHED = 3"

record BumpFrameAllocator =
  fa_map :: "MemoryRegion list"
  fa_region :: nat
  fa_cursor :: "64 word"
  fa_handed_out :: nat
  fa_free_list :: "64 word list"
  fa_free_count :: nat
  fa_shared :: "(64 word \<times> 32 word) list"
  fa_shared_count :: nat
  fa_reclaim_overflows :: nat

definition usable_bounds :: "MemoryRegion list \<Rightarrow> nat \<Rightarrow> (64 word \<times> 64 word) option" where
  "usable_bounds m index =
     (case get_opt m index of
        None \<Rightarrow> None
      | Some region \<Rightarrow>
          if mr_kind region \<noteq> Usable then None
          else (case align_up (mr_base region) FRAME_SIZE of
             None \<Rightarrow> None
           | Some start \<Rightarrow>
               (case MemoryRegion_end region of
                  None \<Rightarrow> None
                | Some e \<Rightarrow>
                    let stop = align_down e FRAME_SIZE in
                    if stop \<le> start then None else Some (start, stop))))"

function skip_unusable :: "MemoryRegion list \<Rightarrow> nat \<Rightarrow> nat" where
  "skip_unusable m i = (if i < length m \<and> usable_bounds m i = None then skip_unusable m (Suc i) else i)"
  by pat_completeness auto
termination
  by (relation "measure (\<lambda>(m, i). length m - i)") auto

declare skip_unusable.simps [simp del]

definition BumpFrameAllocator_advance_to_usable_region :: "BumpFrameAllocator \<Rightarrow> nat \<Rightarrow> BumpFrameAllocator" where
  "BumpFrameAllocator_advance_to_usable_region a start_at =
     (let r = skip_unusable (fa_map a) start_at;
          a1 = a\<lparr>fa_region := r\<rparr>
      in case usable_bounds (fa_map a) r of
           Some (start, _) \<Rightarrow> a1\<lparr>fa_cursor := start\<rparr>
         | None \<Rightarrow> a1)"

definition BumpFrameAllocator_new :: "nat \<Rightarrow> nat \<Rightarrow> MemoryRegion list \<Rightarrow> BumpFrameAllocator" where
  "BumpFrameAllocator_new max_free max_shared m =
     BumpFrameAllocator_advance_to_usable_region
       \<lparr> fa_map = m, fa_region = 0, fa_cursor = 0, fa_handed_out = 0,
         fa_free_list = replicate max_free 0, fa_free_count = 0,
         fa_shared = replicate max_shared (0, 0), fa_shared_count = 0, fa_reclaim_overflows = 0 \<rparr> 0"

lemma skip_unusable_ge: "i \<le> skip_unusable m i"
proof (induction m i rule: skip_unusable.induct)
  case (1 m i)
  then show ?case by (subst skip_unusable.simps) (auto intro: Suc_leD)
qed

lemma advance_simps [simp]:
  "fa_map (BumpFrameAllocator_advance_to_usable_region a i) = fa_map a"
  "fa_region (BumpFrameAllocator_advance_to_usable_region a i) = skip_unusable (fa_map a) i"
  "fa_free_list (BumpFrameAllocator_advance_to_usable_region a i) = fa_free_list a"
  "fa_free_count (BumpFrameAllocator_advance_to_usable_region a i) = fa_free_count a"
  "fa_shared (BumpFrameAllocator_advance_to_usable_region a i) = fa_shared a"
  "fa_shared_count (BumpFrameAllocator_advance_to_usable_region a i) = fa_shared_count a"
  by (auto simp: BumpFrameAllocator_advance_to_usable_region_def Let_def split: option.splits)

lemma usable_bounds_index: "usable_bounds m i = Some b \<Longrightarrow> i < length m"
  by (auto simp: usable_bounds_def get_opt_def split: if_splits)

function bump_loop :: "BumpFrameAllocator \<Rightarrow> PhysFrame option \<times> BumpFrameAllocator" where
  "bump_loop a =
     (case usable_bounds (fa_map a) (fa_region a) of
        None \<Rightarrow> (None, a)
      | Some (start, stop) \<Rightarrow>
          let a1 = (if fa_cursor a < start then a\<lparr>fa_cursor := start\<rparr> else a) in
          (case checked_add (fa_cursor a1) FRAME_SIZE of
             None \<Rightarrow> (None, a1)
           | Some nxt \<Rightarrow>
               if nxt \<le> stop
               then (case PhysFrame_from_base (fa_cursor a1) of
                       None \<Rightarrow> (None, a1)
                     | Some frame \<Rightarrow>
                         (Some frame, a1\<lparr>fa_cursor := fa_cursor a1 + FRAME_SIZE, fa_handed_out := fa_handed_out a1 + 1\<rparr>))
               else let a2 = BumpFrameAllocator_advance_to_usable_region a1 (fa_region a1 + 1) in
                    if fa_region a2 \<ge> length (fa_map a2) then (None, a2) else bump_loop a2))"
  by pat_completeness auto
termination
proof (relation "measure (\<lambda>a. length (fa_map a) - fa_region a)", goal_cases)
  case (2 a x2 start stop a1 nxt a2)
  then have "fa_map a1 = fa_map a" "fa_region a1 = fa_region a" by (auto split: if_splits)
  with 2 skip_unusable_ge [of "Suc (fa_region a)" "fa_map a"] usable_bounds_index [of "fa_map a" "fa_region a"]
  show ?case by auto
qed simp

declare bump_loop.simps [simp del]

definition BumpFrameAllocator_alloc :: "BumpFrameAllocator \<Rightarrow> PhysFrame option \<times> BumpFrameAllocator" where
  "BumpFrameAllocator_alloc a =
     (if fa_free_count a > 0
      then let a1 = a\<lparr>fa_free_count := fa_free_count a - 1\<rparr>
           in (PhysFrame_from_base (fa_free_list a1 ! fa_free_count a1), a1)
      else bump_loop a)"

lemma bump_loop_progress:
  "bump_loop a = (Some f, a') \<Longrightarrow>
   fa_map a' = fa_map a \<and> fa_free_count a' = fa_free_count a \<and> fa_region a < length (fa_map a) \<and>
   (fa_region a < fa_region a' \<or> fa_region a' = fa_region a \<and> fa_cursor a < fa_cursor a')"
proof (induction a rule: bump_loop.induct)
  case (1 a)
  from 1(2) obtain s e where b: "usable_bounds (fa_map a) (fa_region a) = Some (s, e)"
    by (cases "usable_bounds (fa_map a) (fa_region a)") (auto simp: bump_loop.simps [of a])
  define a1 where "a1 = (if fa_cursor a < s then a\<lparr>fa_cursor := s\<rparr> else a)"
  have a1: "fa_map a1 = fa_map a" "fa_region a1 = fa_region a" "fa_free_count a1 = fa_free_count a" "fa_cursor a \<le> fa_cursor a1"
    by (auto simp: a1_def)
  note eq = bump_loop.simps [of a, unfolded b, simplified, folded a1_def, unfolded Let_def]
  from 1(2) obtain n where n: "checked_add (fa_cursor a1) FRAME_SIZE = Some n" unfolding eq by (auto split: option.splits)
  show ?case
  proof (cases "n \<le> e")
    case True
    have "fa_cursor a1 < fa_cursor a1 + FRAME_SIZE"
    proof -
      have "FRAME_SIZE \<noteq> 0" by (simp add: FRAME_SIZE_def)
      with n show ?thesis by (auto simp: checked_add_def not_less order_less_le split: if_splits)
    qed
    with a1(4) have "fa_cursor a < fa_cursor a1 + FRAME_SIZE" by order
    with True 1(2) n a1 usable_bounds_index [OF b] show ?thesis unfolding eq by (auto split: option.splits)
  next
    case False
    let ?a2 = "BumpFrameAllocator_advance_to_usable_region a1 (Suc (fa_region a1))"
    have l: "bump_loop ?a2 = (Some f, a')" "\<not> length (fa_map ?a2) \<le> fa_region ?a2"
      using 1(2) n False unfolding eq by (auto split: if_splits)
    have "fa_map a' = fa_map ?a2 \<and> fa_free_count a' = fa_free_count ?a2 \<and> fa_region ?a2 < length (fa_map ?a2) \<and>
        (fa_region ?a2 < fa_region a' \<or> fa_region a' = fa_region ?a2 \<and> fa_cursor ?a2 < fa_cursor a')"
      by (rule 1(1) [of "(s, e)" s e a1 n ?a2]) (use b n False l in \<open>simp_all add: a1_def\<close>)
    with a1 skip_unusable_ge [of "Suc (fa_region a)" "fa_map a"] usable_bounds_index [OF b] show ?thesis by auto
  qed
qed

definition bump_order :: "(BumpFrameAllocator \<times> BumpFrameAllocator) set" where
  "bump_order = measures [fa_free_count, \<lambda>a. length (fa_map a) - fa_region a, \<lambda>a. 2 ^ 64 - unat (fa_cursor a)]"

lemma wf_bump_order: "wf bump_order"
  by (simp add: bump_order_def)

lemma alloc_progress:
  assumes "BumpFrameAllocator_alloc a = (Some f, a')"
  shows "(a', a) \<in> bump_order"
proof (cases "fa_free_count a = 0")
  case True
  with assms have "bump_loop a = (Some f, a')" by (simp add: BumpFrameAllocator_alloc_def)
  note p = bump_loop_progress [OF this]
  have "unat (fa_cursor a') < 2 ^ 64" using unsigned_less [of "fa_cursor a'"] by simp
  with p show ?thesis by (auto simp: bump_order_def word_less_nat_alt)
next
  case False
  with assms have "fa_free_count a' < fa_free_count a" by (auto simp: BumpFrameAllocator_alloc_def Let_def)
  then show ?thesis by (simp add: bump_order_def)
qed

function contiguous_loop ::
    "BumpFrameAllocator \<Rightarrow> 64 word \<Rightarrow> PhysFrame \<Rightarrow> 64 word \<Rightarrow> PhysFrame \<Rightarrow> PhysAddr option \<times> BumpFrameAllocator" where
  "contiguous_loop a cnt run_start run_len prev =
     (if run_len < cnt
      then case BumpFrameAllocator_alloc a of
        (None, a') \<Rightarrow> (None, a')
      | (Some frame, a') \<Rightarrow>
          if frame = prev + FRAME_SIZE then contiguous_loop a' cnt run_start (run_len + 1) frame
          else contiguous_loop a' cnt frame 1 frame
      else (Some run_start, a))"
  by pat_completeness auto
termination
  by (relation "inv_image bump_order fst") (auto simp: wf_bump_order dest: alloc_progress [OF sym])

declare contiguous_loop.simps [simp del]

definition BumpFrameAllocator_alloc_contiguous :: "BumpFrameAllocator \<Rightarrow> 64 word \<Rightarrow> PhysAddr option \<times> BumpFrameAllocator" where
  "BumpFrameAllocator_alloc_contiguous a cnt =
     (if cnt = 0 then (None, a)
      else case BumpFrameAllocator_alloc a of
        (None, a') \<Rightarrow> (None, a')
      | (Some frame, a') \<Rightarrow> contiguous_loop a' cnt frame 1 frame)"

definition BumpFrameAllocator_retain :: "BumpFrameAllocator \<Rightarrow> 64 word \<Rightarrow> BumpFrameAllocator" where
  "BumpFrameAllocator_retain a base =
     (case position (\<lambda>e. fst e = base) (take (fa_shared_count a) (fa_shared a)) of
        Some i \<Rightarrow> a\<lparr>fa_shared := (fa_shared a)[i := (base, snd (fa_shared a ! i) + 1)]\<rparr>
      | None \<Rightarrow>
          if fa_shared_count a < length (fa_shared a)
          then a\<lparr>fa_shared := (fa_shared a)[fa_shared_count a := (base, 2)],
                 fa_shared_count := fa_shared_count a + 1\<rparr>
          else a\<lparr>fa_reclaim_overflows := fa_reclaim_overflows a + 1\<rparr>)"

definition BumpFrameAllocator_release :: "BumpFrameAllocator \<Rightarrow> 64 word \<Rightarrow> BumpFrameAllocator" where
  "BumpFrameAllocator_release a base =
     (case position (\<lambda>e. fst e = base) (take (fa_shared_count a) (fa_shared a)) of
        Some i \<Rightarrow>
          let cnt = snd (fa_shared a ! i) - 1;
              sh = (fa_shared a)[i := (base, cnt)]
          in if cnt \<le> 1
             then a\<lparr>fa_shared := sh[i := sh ! (fa_shared_count a - 1)], fa_shared_count := fa_shared_count a - 1\<rparr>
             else a\<lparr>fa_shared := sh\<rparr>
      | None \<Rightarrow>
          if fa_free_count a < length (fa_free_list a)
          then a\<lparr>fa_free_list := (fa_free_list a)[fa_free_count a := base], fa_free_count := fa_free_count a + 1\<rparr>
          else a\<lparr>fa_reclaim_overflows := fa_reclaim_overflows a + 1\<rparr>)"

definition BumpFrameAllocator_total_usable_frames :: "BumpFrameAllocator \<Rightarrow> 64 word" where
  "BumpFrameAllocator_total_usable_frames a =
     sum_list (map (\<lambda>(start, stop). (stop - start) div FRAME_SIZE)
       (List.map_filter (usable_bounds (fa_map a)) [0..<length (fa_map a)]))"

definition BumpFrameAllocator_frames_available :: "BumpFrameAllocator \<Rightarrow> 64 word option" where
  "BumpFrameAllocator_frames_available a =
     (let total = BumpFrameAllocator_total_usable_frames a;
          out = of_nat (fa_handed_out a);
          untouched = (if total < out then 0 else total - out)
      in Some (untouched + of_nat (fa_free_count a)))"

definition bump_frames :: "BumpFrameAllocator FrameOps" where
  "bump_frames = \<lparr> alloc_frame = BumpFrameAllocator_alloc, retain_frame = BumpFrameAllocator_retain,
     free_frame = BumpFrameAllocator_release \<rparr>"

subsection \<open>The frame pool\<close>

record FramePool =
  fp_frames :: "64 word list"
  fp_len :: nat
  fp_next :: nat

definition FramePool_new :: "nat \<Rightarrow> FramePool" where
  "FramePool_new n = \<lparr> fp_frames = replicate n 0, fp_len = 0, fp_next = 0 \<rparr>"

fun FramePool_fill :: "'f FrameOps \<Rightarrow> FramePool \<Rightarrow> 'f \<Rightarrow> nat \<Rightarrow> nat \<times> FramePool \<times> 'f" where
  "FramePool_fill F p source 0 = (0, p, source)"
| "FramePool_fill F p source (Suc cnt) =
     (if fp_len p < length (fp_frames p)
      then case alloc_frame F source of
        (None, source') \<Rightarrow> (0, p, source')
      | (Some frame, source') \<Rightarrow>
          (case FramePool_fill F (p\<lparr>fp_frames := (fp_frames p)[fp_len p := frame], fp_len := fp_len p + 1\<rparr>) source' cnt of
             (filled, p', source'') \<Rightarrow> (Suc filled, p', source''))
      else (0, p, source))"

definition FramePool_remaining :: "FramePool \<Rightarrow> nat" where
  "FramePool_remaining p = fp_len p - fp_next p"

definition FramePool_alloc_frame :: "FramePool \<Rightarrow> PhysFrame option \<times> FramePool" where
  "FramePool_alloc_frame p =
     (if fp_next p \<ge> fp_len p then (None, p)
      else (PhysFrame_from_base (fp_frames p ! fp_next p), p\<lparr>fp_next := fp_next p + 1\<rparr>))"

definition pool_frames :: "FramePool FrameOps" where
  "pool_frames = \<lparr> alloc_frame = FramePool_alloc_frame, retain_frame = (\<lambda>p _. p), free_frame = (\<lambda>p _. p) \<rparr>"

subsection \<open>Bounds of the usable regions\<close>

lemma usable_bounds_SomeD:
  assumes "usable_bounds m i = Some (s, e)"
  shows "i < length m" and "mr_kind (m ! i) = Usable" and "is_aligned s FRAME_SIZE" and "is_aligned e FRAME_SIZE"
    and "s < e" and "mr_base (m ! i) \<le> s" and "e \<le> mr_base (m ! i) + mr_len (m ! i)"
proof -
  from assms obtain e0 where r: "i < length m" "mr_kind (m ! i) = Usable"
      "align_up (mr_base (m ! i)) FRAME_SIZE = Some s" "MemoryRegion_end (m ! i) = Some e0"
      "e = align_down e0 FRAME_SIZE" "\<not> e \<le> s"
    by (auto simp: usable_bounds_def get_opt_def Let_def split: option.splits if_splits)
  then show "i < length m" "mr_kind (m ! i) = Usable" "s < e" by auto
  show "is_aligned s FRAME_SIZE" "mr_base (m ! i) \<le> s"
    using unat_align_up [OF r(3)] by (simp_all add: word_le_nat_alt)
  show "is_aligned e FRAME_SIZE" unfolding r(5) by (rule align_down_aligned)
  have "e0 = mr_base (m ! i) + mr_len (m ! i)"
    using r(4) by (auto simp: MemoryRegion_end_def checked_add_def split: if_splits)
  then show "e \<le> mr_base (m ! i) + mr_len (m ! i)" using align_down_le [of e0] r(5) by simp
qed

definition bounds_sorted :: "MemoryRegion list \<Rightarrow> bool" where
  "bounds_sorted m \<longleftrightarrow>
     (\<forall>i j s e s' e'. i < j \<longrightarrow> usable_bounds m i = Some (s, e) \<longrightarrow> usable_bounds m j = Some (s', e') \<longrightarrow> e \<le> s')"

lemma map_ok_before:
  "map_ok m \<Longrightarrow> i < j \<Longrightarrow> j < length m \<Longrightarrow> mr_base (m ! i) + mr_len (m ! i) \<le> mr_base (m ! j)"
proof (induction m arbitrary: i j rule: map_ok.induct)
  case (3 r r' rs)
  then obtain k where j: "j = Suc k" by (cases j) auto
  have tl: "map_ok (r' # rs)" and rr: "mr_base r + mr_len r \<le> mr_base r'" using 3(2) by auto
  show ?case
  proof (cases i)
    case (Suc l)
    with 3(1) [OF tl, of l k] 3(3,4) j show ?thesis by simp
  next
    case 0
    show ?thesis
    proof (cases k)
      case 0
      with rr j \<open>i = 0\<close> show ?thesis by simp
    next
      case (Suc l)
      then have "mr_base r' + mr_len r' \<le> mr_base ((r' # rs) ! k)"
        using 3(1) [OF tl, of 0 k] 3(4) j by simp
      moreover have "mr_base r' < mr_base r' + mr_len r'" using map_ok_Cons [OF tl] .
      ultimately have "mr_base r + mr_len r \<le> mr_base ((r' # rs) ! k)" using rr by order
      with j \<open>i = 0\<close> show ?thesis by simp
    qed
  qed
qed auto

text \<open>A normalized boot map meets the allocator's contract.\<close>

lemma map_ok_bounds_sorted: "map_ok m \<Longrightarrow> bounds_sorted m"
  unfolding bounds_sorted_def
proof (intro allI impI)
  fix i j s e s' e'
  assume m: "map_ok m" "i < j" and b: "usable_bounds m i = Some (s, e)" "usable_bounds m j = Some (s', e')"
  note u = usable_bounds_SomeD [OF b(1)] and v = usable_bounds_SomeD [OF b(2)]
  have "e \<le> mr_base (m ! i) + mr_len (m ! i)" using u(7) .
  also have "\<dots> \<le> mr_base (m ! j)" using map_ok_before [OF m v(1)] .
  also have "\<dots> \<le> s'" using v(6) .
  finally show "e \<le> s'" .
qed

subsection \<open>What the cursor has passed\<close>

definition drawn :: "BumpFrameAllocator \<Rightarrow> PhysFrame \<Rightarrow> bool" where
  "drawn a f \<longleftrightarrow> is_aligned f FRAME_SIZE \<and>
     (\<exists>i s e. usable_bounds (fa_map a) i = Some (s, e) \<and> s \<le> f \<and> f < e \<and>
        (i < fa_region a \<or> i = fa_region a \<and> f < fa_cursor a))"

definition cursor_ok :: "BumpFrameAllocator \<Rightarrow> bool" where
  "cursor_ok a \<longleftrightarrow> bounds_sorted (fa_map a) \<and>
     (\<forall>s e. usable_bounds (fa_map a) (fa_region a) = Some (s, e) \<longrightarrow>
        is_aligned (fa_cursor a) FRAME_SIZE \<and> s \<le> fa_cursor a \<and> fa_cursor a \<le> e)"

definition same_lists :: "BumpFrameAllocator \<Rightarrow> BumpFrameAllocator \<Rightarrow> bool" where
  "same_lists a a' \<longleftrightarrow> fa_map a' = fa_map a \<and> fa_free_list a' = fa_free_list a \<and> fa_free_count a' = fa_free_count a \<and>
     fa_shared a' = fa_shared a \<and> fa_shared_count a' = fa_shared_count a"

lemma cursor_ok_advance:
  "bounds_sorted (fa_map a) \<Longrightarrow> cursor_ok (BumpFrameAllocator_advance_to_usable_region a i)"
  using usable_bounds_SomeD
  by (fastforce simp: cursor_ok_def BumpFrameAllocator_advance_to_usable_region_def Let_def split: option.splits)

lemma drawn_advance:
  assumes "drawn a f" "fa_region a < i"
  shows "drawn (BumpFrameAllocator_advance_to_usable_region a i) f"
proof -
  from assms(1) obtain j s e where j: "is_aligned f FRAME_SIZE" "usable_bounds (fa_map a) j = Some (s, e)" "s \<le> f" "f < e"
    "j < fa_region a \<or> j = fa_region a \<and> f < fa_cursor a" unfolding drawn_def by blast
  have "j < skip_unusable (fa_map a) i" using j(5) assms(2) skip_unusable_ge [of i "fa_map a"] by auto
  with j show ?thesis unfolding drawn_def by auto
qed

lemma bump_loop_spec:
  "cursor_ok a \<Longrightarrow> bump_loop a = (r, a') \<Longrightarrow>
   cursor_ok a' \<and> same_lists a a' \<and> (\<forall>g. drawn a g \<longrightarrow> drawn a' g) \<and>
   (\<forall>f. r = Some f \<longrightarrow> \<not> drawn a f \<and> drawn a' f)"
proof (induction a rule: bump_loop.induct)
  case (1 a)
  show ?case
  proof (cases "usable_bounds (fa_map a) (fa_region a)")
    case None
    with 1(2,3) show ?thesis by (simp add: bump_loop.simps [of a] same_lists_def)
  next
    case (Some b)
    then obtain s e where b: "usable_bounds (fa_map a) (fa_region a) = Some (s, e)" by (cases b) auto
    note u = usable_bounds_SomeD [OF b]
    have c: "is_aligned (fa_cursor a) FRAME_SIZE" "s \<le> fa_cursor a" "fa_cursor a \<le> e" "bounds_sorted (fa_map a)"
      using 1(2) b by (auto simp: cursor_ok_def)
    have a1: "(if fa_cursor a < s then a\<lparr>fa_cursor := s\<rparr> else a) = a" using c(2) by simp
    note eq = bump_loop.simps [of a, unfolded b, simplified, unfolded a1 Let_def]
    show ?thesis
    proof (cases "fa_cursor a < e")
      case True
      note n = aligned_next_le [OF c(1) u(4) True]
      have ca: "checked_add (fa_cursor a) FRAME_SIZE = Some (fa_cursor a + FRAME_SIZE)"
        using n(3) by (simp add: checked_add_def)
      have fb: "PhysFrame_from_base (fa_cursor a) = Some (fa_cursor a)" using c(1) by (simp add: from_base_iff)
      have r: "r = Some (fa_cursor a)"
        "a' = a\<lparr>fa_cursor := fa_cursor a + FRAME_SIZE, fa_handed_out := fa_handed_out a + 1\<rparr>"
        using 1(3) n(1) unfolding eq ca fb by simp_all
      have "\<not> drawn a (fa_cursor a)"
      proof
        assume "drawn a (fa_cursor a)"
        then obtain j s' e' where j: "usable_bounds (fa_map a) j = Some (s', e')" "fa_cursor a < e'" "j < fa_region a"
          by (auto simp: drawn_def)
        with c(4) b have "e' \<le> s" unfolding bounds_sorted_def by blast
        with j(2) c(2) show False by simp
      qed
      moreover have "drawn a' (fa_cursor a)"
        using b c True n(3) by (auto simp: drawn_def r)
      moreover have "drawn a' g" if "drawn a g" for g
        using that n(3) unfolding drawn_def r by (auto intro: order.strict_trans)
      moreover have "cursor_ok a'"
        using b c n(1,3) by (auto simp: cursor_ok_def r aligned_add)
      ultimately show ?thesis by (simp add: r same_lists_def)
    next
      case False
      then have ce: "fa_cursor a = e" using c(3) by simp
      show ?thesis
      proof (cases "checked_add (fa_cursor a) FRAME_SIZE")
        case None
        then show ?thesis using 1(2,3) unfolding eq by (simp add: same_lists_def)
      next
        case (Some n)
        have n: "\<not> n \<le> e"
        proof -
          from Some have "\<not> fa_cursor a + FRAME_SIZE < fa_cursor a" "n = fa_cursor a + FRAME_SIZE"
            by (auto simp: checked_add_def split: if_splits)
          moreover have "FRAME_SIZE \<noteq> 0" by (simp add: FRAME_SIZE_def)
          ultimately show ?thesis using ce by auto
        qed
        let ?a2 = "BumpFrameAllocator_advance_to_usable_region a (Suc (fa_region a))"
        have c2: "cursor_ok ?a2" using c(4) by (rule cursor_ok_advance)
        have d2: "drawn a g \<longrightarrow> drawn ?a2 g" for g using drawn_advance [of a g "Suc (fa_region a)"] by simp
        have s2: "same_lists a ?a2" by (simp add: same_lists_def)
        show ?thesis
        proof (cases "length (fa_map a) \<le> fa_region ?a2")
          case True
          then show ?thesis using 1(3) Some n c2 d2 s2 unfolding eq by simp
        next
          case no: False
          have l: "bump_loop ?a2 = (r, a')" using 1(3) Some n no unfolding eq by simp
          have IH: "cursor_ok a' \<and> same_lists ?a2 a' \<and> (\<forall>g. drawn ?a2 g \<longrightarrow> drawn a' g) \<and>
              (\<forall>f. r = Some f \<longrightarrow> \<not> drawn ?a2 f \<and> drawn a' f)"
            by (rule 1(1) [of "(s, e)" s e a n ?a2]) (use b a1 Some n no c2 l in simp_all)
          with d2 s2 show ?thesis by (simp add: same_lists_def) blast
        qed
      qed
    qed
  qed
qed

subsection \<open>The free list and the shared table\<close>

definition free_of :: "BumpFrameAllocator \<Rightarrow> PhysFrame list" where
  "free_of a = take (fa_free_count a) (fa_free_list a)"

definition shared_of :: "BumpFrameAllocator \<Rightarrow> (PhysFrame \<times> 32 word) list" where
  "shared_of a = take (fa_shared_count a) (fa_shared a)"

definition bump_frames_ok :: "BumpFrameAllocator \<Rightarrow> PhysFrame multiset \<Rightarrow> bool" where
  "bump_frames_ok a M \<longleftrightarrow>
     cursor_ok a \<and> fa_free_count a \<le> length (fa_free_list a) \<and> fa_shared_count a \<le> length (fa_shared a) \<and>
     distinct (free_of a) \<and> (\<forall>f \<in> set (free_of a). drawn a f \<and> f \<notin># M) \<and> (\<forall>f \<in># M. drawn a f) \<and>
     distinct (map fst (shared_of a)) \<and>
     (\<forall>(f, c) \<in> set (shared_of a). 2 \<le> unat c \<and> count M f = unat c) \<and>
     (\<forall>f. f \<notin> fst ` set (shared_of a) \<longrightarrow> count M f \<le> 1)"

definition bump_can_retain :: "BumpFrameAllocator \<Rightarrow> PhysFrame \<Rightarrow> bool" where
  "bump_can_retain a f \<longleftrightarrow>
     (case position (\<lambda>e. fst e = f) (shared_of a) of
        Some i \<Rightarrow> snd (shared_of a ! i) \<noteq> - 1
      | None \<Rightarrow> fa_shared_count a < length (fa_shared a))"

lemma bump_frames_okI:
  assumes "cursor_ok a" "fa_free_count a \<le> length (fa_free_list a)" "fa_shared_count a \<le> length (fa_shared a)"
    "distinct (free_of a)" "\<And>f. f \<in> set (free_of a) \<Longrightarrow> drawn a f \<and> f \<notin># M" "\<And>f. f \<in># M \<Longrightarrow> drawn a f"
    "distinct (map fst (shared_of a))"
    "\<And>f c. (f, c) \<in> set (shared_of a) \<Longrightarrow> 2 \<le> unat c \<and> count M f = unat c"
    "\<And>f. f \<notin> fst ` set (shared_of a) \<Longrightarrow> count M f \<le> 1"
  shows "bump_frames_ok a M"
  using assms unfolding bump_frames_ok_def by blast

lemma bump_frames_okD:
  assumes "bump_frames_ok a M"
  shows "cursor_ok a" "fa_free_count a \<le> length (fa_free_list a)" "fa_shared_count a \<le> length (fa_shared a)"
    "distinct (free_of a)" "\<And>f. f \<in> set (free_of a) \<Longrightarrow> drawn a f \<and> f \<notin># M" "\<And>f. f \<in># M \<Longrightarrow> drawn a f"
    "distinct (map fst (shared_of a))"
    "\<And>f c. (f, c) \<in> set (shared_of a) \<Longrightarrow> 2 \<le> unat c \<and> count M f = unat c"
    "\<And>f. f \<notin> fst ` set (shared_of a) \<Longrightarrow> count M f \<le> 1"
  using assms unfolding bump_frames_ok_def by blast+

lemma drawn_cong:
  "fa_map a' = fa_map a \<Longrightarrow> fa_region a' = fa_region a \<Longrightarrow> fa_cursor a' = fa_cursor a \<Longrightarrow>
   drawn a' = drawn a \<and> cursor_ok a' = cursor_ok a"
  by (simp add: drawn_def cursor_ok_def fun_eq_iff)

lemma swap_remove_mset:
  assumes "i < length xs"
  shows "mset (take (length xs - 1) (xs[i := y, i := xs[i := y] ! (length xs - 1)])) = mset xs - {#xs ! i#}"
proof -
  from assms obtain ys z where xs: "xs = ys @ [z]" by (metis append_butlast_last_id list.size(3) not_less_zero)
  show ?thesis
  proof (cases "i < length ys")
    case True
    then have "ys ! i \<in> set ys" by simp
    with True show ?thesis
      by (simp add: xs list_update_append nth_append mset_update)
  next
    case False
    with assms xs have "i = length ys" by simp
    then show ?thesis by (simp add: xs list_update_append)
  qed
qed

lemma swap_remove_keys:
  assumes "i < length xs" "distinct (map fst xs)"
  shows "distinct (map fst (take (length xs - 1) (xs[i := y, i := xs[i := y] ! (length xs - 1)])))"
    and "set (take (length xs - 1) (xs[i := y, i := xs[i := y] ! (length xs - 1)])) = set xs - {xs ! i}"
proof -
  let ?ys = "take (length xs - 1) (xs[i := y, i := xs[i := y] ! (length xs - 1)])"
  have m: "mset ?ys = mset (remove1 (xs ! i) xs)" using swap_remove_mset [OF assms(1)] by simp
  have d: "distinct xs" using assms(2) by (simp add: distinct_map)
  have st: "set ?ys = set (remove1 (xs ! i) xs)" using m by (rule mset_eq_setD)
  then show "set ?ys = set xs - {xs ! i}" using d by simp
  have "inj_on fst (set ?ys)" using assms(2) st d by (auto simp: distinct_map intro: inj_on_subset)
  moreover have "distinct ?ys" using mset_eq_imp_distinct_iff [OF m] d by simp
  ultimately show "distinct (map fst ?ys)" by (simp add: distinct_map)
qed

lemma position_shared:
  assumes "bump_frames_ok a M" "position (\<lambda>e. fst e = f) (shared_of a) = Some i"
  shows "i < fa_shared_count a" "shared_of a ! i = fa_shared a ! i" "fst (fa_shared a ! i) = f"
    "count M f = unat (snd (fa_shared a ! i))" "2 \<le> unat (snd (fa_shared a ! i))"
proof -
  note p = position_SomeD [OF assms(2)] and ok = bump_frames_okD [OF assms(1)]
  show i: "i < fa_shared_count a" using p(1) by (simp add: shared_of_def)
  then show e: "shared_of a ! i = fa_shared a ! i" by (simp add: shared_of_def)
  show f: "fst (fa_shared a ! i) = f" using p(2) e by simp
  have "(f, snd (fa_shared a ! i)) \<in> set (shared_of a)"
    using p(1) e f by (metis nth_mem prod.collapse)
  from ok(8) [OF this] show "count M f = unat (snd (fa_shared a ! i))" "2 \<le> unat (snd (fa_shared a ! i))" by auto
qed

lemma position_unshared:
  assumes "bump_frames_ok a M" "position (\<lambda>e. fst e = f) (shared_of a) = None"
  shows "f \<notin> fst ` set (shared_of a)" "count M f \<le> 1"
proof -
  show "f \<notin> fst ` set (shared_of a)" using assms(2) by (auto simp: position_None_iff)
  then show "count M f \<le> 1" by (rule bump_frames_okD(9) [OF assms(1)])
qed

lemma key_unique:
  "distinct (map fst xs) \<Longrightarrow> i < length xs \<Longrightarrow> (fst (xs ! i), c) \<in> set xs \<Longrightarrow> c = snd (xs ! i)"
  by (metis eq_key_imp_eq_value nth_mem prod.collapse)

lemma bump_alloc_ok:
  assumes ok: "bump_frames_ok a M" and al: "BumpFrameAllocator_alloc a = (r, a')"
  shows "case r of Some f \<Rightarrow> f \<notin># M \<and> is_aligned f FRAME_SIZE \<and> bump_frames_ok a' (add_mset f M)
    | None \<Rightarrow> bump_frames_ok a' M"
proof (cases "fa_free_count a = 0")
  case True
  note D = bump_frames_okD [OF ok]
  have l: "bump_loop a = (r, a')" using al True by (simp add: BumpFrameAllocator_alloc_def)
  have B: "cursor_ok a'" "same_lists a a'" "\<And>g. drawn a g \<Longrightarrow> drawn a' g" "\<And>f. r = Some f \<Longrightarrow> \<not> drawn a f \<and> drawn a' f"
    using bump_loop_spec [OF D(1) l] by blast+
  have fr: "free_of a = []" "free_of a' = []" "shared_of a' = shared_of a"
    "fa_free_count a' \<le> length (fa_free_list a')" "fa_shared_count a' \<le> length (fa_shared a')"
    using True B(2) D(3) by (simp_all add: free_of_def shared_of_def same_lists_def)
  show ?thesis
  proof (cases r)
    case None
    have "bump_frames_ok a' M"
      by (rule bump_frames_okI) (use fr B D in auto)
    with None show ?thesis by simp
  next
    case (Some f)
    have f: "\<not> drawn a f" "drawn a' f" using B(4) [OF Some] by auto
    then have n: "f \<notin># M" using D(6) by blast
    then have c0: "count M f = 0" by (simp add: not_in_iff)
    have ns: "f \<notin> fst ` set (shared_of a)"
    proof
      assume "f \<in> fst ` set (shared_of a)"
      then obtain c where "(f, c) \<in> set (shared_of a)" by auto
      from D(8) [OF this] c0 show False by linarith
    qed
    have "bump_frames_ok a' (add_mset f M)"
    proof (rule bump_frames_okI)
      fix g c assume g: "(g, c) \<in> set (shared_of a')"
      with ns fr have "g \<noteq> f" by force
      with D(8) [of g c] g fr show "2 \<le> unat c \<and> count (add_mset f M) g = unat c" by simp
    next
      fix g assume "g \<notin> fst ` set (shared_of a')"
      with D(9) [of g] fr c0 show "count (add_mset f M) g \<le> 1" by auto
    qed (use fr B D f in auto)
    with Some n f(2) show ?thesis by (simp add: drawn_def)
  qed
next
  case False
  note D = bump_frames_okD [OF ok]
  let ?n = "fa_free_count a - 1"
  let ?f = "fa_free_list a ! ?n"
  have a': "a' = a\<lparr>fa_free_count := ?n\<rparr>" "r = PhysFrame_from_base ?f"
    using al False by (auto simp: BumpFrameAllocator_alloc_def Let_def)
  have n: "?n < length (fa_free_list a)" "Suc ?n = fa_free_count a" using False D(2) by auto
  then have fo: "free_of a = free_of a' @ [?f]" by (simp add: free_of_def a' take_Suc_conv_app_nth [symmetric])
  have dr: "drawn a' = drawn a" "cursor_ok a'" using drawn_cong [of a' a] D(1) by (simp_all add: a')
  have so: "shared_of a' = shared_of a" by (simp add: shared_of_def a')
  have f: "drawn a ?f" "?f \<notin># M" "?f \<notin> set (free_of a')" using D(4) D(5) [of ?f] fo by auto
  then have c0: "count M ?f = 0" by (simp add: not_in_iff)
  have ns: "?f \<notin> fst ` set (shared_of a)"
  proof
    assume "?f \<in> fst ` set (shared_of a)"
    then obtain c where "(?f, c) \<in> set (shared_of a)" by auto
    from D(8) [OF this] c0 show False by linarith
  qed
  have "r = Some ?f" using f(1) by (simp add: a'(2) drawn_def from_base_iff)
  moreover have "bump_frames_ok a' (add_mset ?f M)"
  proof (rule bump_frames_okI)
    show "fa_free_count a' \<le> length (fa_free_list a')" "fa_shared_count a' \<le> length (fa_shared a')"
      using n(1) D(3) by (simp_all add: a'(1))
  next
    fix g c assume g: "(g, c) \<in> set (shared_of a')"
    with ns so have "g \<noteq> ?f" by force
    with D(8) [of g c] g so show "2 \<le> unat c \<and> count (add_mset ?f M) g = unat c" by simp
  next
    fix g assume "g \<notin> fst ` set (shared_of a')"
    with D(9) [of g] so c0 show "count (add_mset ?f M) g \<le> 1" by auto
  next
    fix g assume "g \<in> set (free_of a')"
    with D(5) [of g] fo f(3) dr show "drawn a' g \<and> g \<notin># add_mset ?f M" by auto
  qed (use so D f fo dr in auto)
  ultimately show ?thesis using f by (simp add: drawn_def)
qed

lemma bump_retain_ok:
  assumes ok: "bump_frames_ok a M" and f: "f \<in># M" and room: "bump_can_retain a f"
  shows "bump_frames_ok (BumpFrameAllocator_retain a f) (add_mset f M)"
proof (cases "position (\<lambda>e. fst e = f) (shared_of a)")
  case (Some i)
  note D = bump_frames_okD [OF ok] and p = position_shared [OF ok Some]
  let ?c = "snd (fa_shared a ! i)"
  let ?a = "a\<lparr>fa_shared := (fa_shared a)[i := (f, ?c + 1)]\<rparr>"
  have r: "BumpFrameAllocator_retain a f = ?a"
    using Some by (simp add: BumpFrameAllocator_retain_def shared_of_def)
  have so: "shared_of ?a = (shared_of a)[i := (f, ?c + 1)]" by (simp add: shared_of_def take_update_swap)
  have li: "i < length (shared_of a)" "shared_of a ! i = (f, ?c)" using position_SomeD(1) [OF Some] p(2,3) by (auto simp: prod_eq_iff)
  have keys: "map fst (shared_of ?a) = map fst (shared_of a)"
    unfolding so map_update using li by (simp add: list_update_same_conv)
  have "?c \<noteq> - 1" using room Some p(2) by (simp add: bump_can_retain_def)
  then have uc: "unat (?c + 1) = unat ?c + 1" by (metis Suc_eq_plus1 add.commute eq_neg_iff_add_eq_0 unatSuc)
  have dr: "drawn ?a = drawn a" "cursor_ok ?a" using drawn_cong [of ?a a] D(1) by simp_all
  have fo: "free_of ?a = free_of a" by (simp add: free_of_def)
  show ?thesis unfolding r
  proof (rule bump_frames_okI)
    show "distinct (map fst (shared_of ?a))" unfolding keys by (rule D(7))
  next
    fix g d assume g: "(g, d) \<in> set (shared_of ?a)"
    show "2 \<le> unat d \<and> count (add_mset f M) g = unat d"
    proof (cases "g = f")
      case True
      have "d = ?c + 1"
        using key_unique [of "shared_of ?a" i d] g True D(7) li keys by (simp add: so)
      with uc p(4,5) True show ?thesis by simp
    next
      case False
      then have "(g, d) \<in> set (shared_of a)"
        using g set_update_subset_insert [of "shared_of a" i] unfolding so by auto
      with D(8) False show ?thesis by simp
    qed
  next
    fix g assume g: "g \<notin> fst ` set (shared_of ?a)"
    then have "g \<notin> set (map fst (shared_of ?a))" by simp
    then have "g \<notin> set (map fst (shared_of a))" unfolding keys .
    moreover have "f \<in> set (map fst (shared_of a))" using li by (metis fst_conv in_set_conv_nth length_map nth_map)
    ultimately show "count (add_mset f M) g \<le> 1" using D(9) [of g] by auto
  next
    fix g assume "g \<in> set (free_of ?a)"
    with D(5) [of g] f fo dr show "drawn ?a g \<and> g \<notin># add_mset f M" by auto
  next
    fix g assume "g \<in># add_mset f M"
    with f have "g \<in># M" by auto
    with D(6) dr show "drawn ?a g" by simp
  qed (use D fo dr in auto)
next
  case None
  note D = bump_frames_okD [OF ok] and p = position_unshared [OF ok None]
  let ?a = "a\<lparr>fa_shared := (fa_shared a)[fa_shared_count a := (f, 2)], fa_shared_count := fa_shared_count a + 1\<rparr>"
  have lt: "fa_shared_count a < length (fa_shared a)" using room None by (simp add: bump_can_retain_def)
  have r: "BumpFrameAllocator_retain a f = ?a"
    using None lt by (simp add: BumpFrameAllocator_retain_def shared_of_def)
  have so: "shared_of ?a = shared_of a @ [(f, 2)]"
    using lt by (simp add: shared_of_def take_Suc_conv_app_nth)
  have dr: "drawn ?a = drawn a" "cursor_ok ?a" using drawn_cong [of ?a a] D(1) by simp_all
  have fo: "free_of ?a = free_of a" by (simp add: free_of_def)
  have c1: "count M f = 1" using p(2) f by (simp add: le_antisym Suc_leI)
  show ?thesis unfolding r
  proof (rule bump_frames_okI)
    show "fa_free_count ?a \<le> length (fa_free_list ?a)" "fa_shared_count ?a \<le> length (fa_shared ?a)"
      using D(2) lt by simp_all
    show "distinct (map fst (shared_of ?a))" unfolding so using D(7) p(1) by simp
  next
    fix g d assume g: "(g, d) \<in> set (shared_of ?a)"
    then consider "(g, d) \<in> set (shared_of a)" | "g = f" "d = 2" unfolding so by auto
    then show "2 \<le> unat d \<and> count (add_mset f M) g = unat d"
    proof cases
      case 1
      with p(1) have "g \<noteq> f" by force
      with D(8) [OF 1] show ?thesis by simp
    qed (use c1 in simp)
  next
    fix g assume "g \<notin> fst ` set (shared_of ?a)"
    then have "g \<notin> fst ` set (shared_of a)" "g \<noteq> f" unfolding so by auto
    with D(9) [of g] show "count (add_mset f M) g \<le> 1" by simp
  next
    fix g assume "g \<in> set (free_of ?a)"
    with D(5) [of g] f fo dr show "drawn ?a g \<and> g \<notin># add_mset f M" by auto
  next
    fix g assume "g \<in># add_mset f M"
    with f have "g \<in># M" by auto
    with D(6) dr show "drawn ?a g" by simp
  qed (use D fo dr in auto)
qed

lemma bump_release_shared:
  assumes ok: "bump_frames_ok a (add_mset f M)" and i: "position (\<lambda>e. fst e = f) (shared_of a) = Some i"
  shows "bump_frames_ok (BumpFrameAllocator_release a f) M"
proof -
  note D = bump_frames_okD [OF ok] and p = position_shared [OF ok i]
  let ?c = "snd (fa_shared a ! i)"
  let ?a = "BumpFrameAllocator_release a f" and ?xs = "shared_of a"
  have li: "i < length ?xs" "?xs ! i = (f, ?c)" using position_SomeD(1) [OF i] p(2,3) by (auto simp: prod_eq_iff)
  have len: "length ?xs = fa_shared_count a" using D(3) by (simp add: shared_of_def)
  have cM: "count M f = unat ?c - 1" "2 \<le> unat ?c" using p(4,5) by auto
  then have "?c \<noteq> 0" by auto
  then have uc: "unat (?c - 1) = unat ?c - 1" by (rule unat_minus_one)
  have eq: "?a = (if ?c - 1 \<le> 1
      then a\<lparr>fa_shared := (fa_shared a)[i := (f, ?c - 1), i := (fa_shared a)[i := (f, ?c - 1)] ! (fa_shared_count a - 1)],
             fa_shared_count := fa_shared_count a - 1\<rparr>
      else a\<lparr>fa_shared := (fa_shared a)[i := (f, ?c - 1)]\<rparr>)"
    using i by (simp add: BumpFrameAllocator_release_def shared_of_def Let_def)
  have keep: "drawn ?a = drawn a" "cursor_ok ?a" "free_of ?a = free_of a"
      "fa_free_count ?a \<le> length (fa_free_list ?a)" "fa_shared_count ?a \<le> length (fa_shared ?a)"
    using drawn_cong [of ?a a] D(1-3) by (auto simp: eq free_of_def)
  have other: "2 \<le> unat d \<and> count M g = unat d" if "(g, d) \<in> set ?xs" "g \<noteq> f" for g d
    using D(8) [OF that(1)] that(2) by simp
  have rest: "count M g \<le> 1" if "g \<notin> fst ` set ?xs" for g
    using D(9) [OF that] by (auto split: if_splits)
  have sh: "distinct (map fst (shared_of ?a)) \<and> (\<forall>g d. (g, d) \<in> set (shared_of ?a) \<longrightarrow> 2 \<le> unat d \<and> count M g = unat d) \<and>
    (\<forall>g. g \<notin> fst ` set (shared_of ?a) \<longrightarrow> count M g \<le> 1)"
  proof (cases "?c - 1 \<le> 1")
    case True
    then have "unat (?c - 1) \<le> 1" by (simp add: word_le_nat_alt)
    then have c1: "count M f = 1" using uc cM by linarith
    have "(fa_shared a)[i := (f, ?c - 1)] ! (fa_shared_count a - 1) = ?xs[i := (f, ?c - 1)] ! (length ?xs - 1)"
      using p(1) D(3) len by (cases "i = fa_shared_count a - 1") (simp_all add: shared_of_def)
    then have so: "shared_of ?a = take (length ?xs - 1) (?xs[i := (f, ?c - 1), i := ?xs[i := (f, ?c - 1)] ! (length ?xs - 1)])"
      using True p(1) unfolding eq len by (simp add: shared_of_def take_update_swap min_def)
    note sr = swap_remove_keys [OF li(1) D(7), of "(f, ?c - 1)", folded so]
    have ne: "g \<noteq> f" if "(g, d) \<in> set (shared_of ?a)" for g d
      using that sr(2) key_unique [OF D(7) li(1), of d] li(2) by auto
    have "count M g \<le> 1" if "g \<notin> fst ` set (shared_of ?a)" for g
    proof (cases "g = f")
      case False
      with that sr(2) li(2) have "g \<notin> fst ` set ?xs" by (force simp: image_iff)
      then show ?thesis by (rule rest)
    qed (use c1 in simp)
    with sr(1,2) ne other show ?thesis by auto
  next
    case False
    then have "\<not> unat (?c - 1) \<le> 1" by (simp add: word_le_nat_alt)
    then have c2: "2 \<le> unat (?c - 1)" by simp
    have so: "shared_of ?a = ?xs[i := (f, ?c - 1)]" using False by (simp add: eq shared_of_def take_update_swap)
    have keys: "map fst (shared_of ?a) = map fst ?xs"
      unfolding so map_update using li by (simp add: list_update_same_conv)
    have "2 \<le> unat d \<and> count M g = unat d" if g: "(g, d) \<in> set (shared_of ?a)" for g d
    proof (cases "g = f")
      case True
      have "d = ?c - 1" using key_unique [of "shared_of ?a" i d] g True D(7) li keys by (simp add: so)
      with c2 uc cM True show ?thesis by simp
    next
      case False
      then have "(g, d) \<in> set ?xs" using g set_update_subset_insert [of ?xs i] unfolding so by auto
      with other False show ?thesis by blast
    qed
    moreover have "fst ` set (shared_of ?a) = fst ` set ?xs" using keys by (metis set_map)
    ultimately show ?thesis using D(7) rest keys by auto
  qed
  show ?thesis
  proof (rule bump_frames_okI)
    fix g assume "g \<in> set (free_of ?a)"
    with D(5) [of g] keep show "drawn ?a g \<and> g \<notin># M" by auto
  next
    fix g assume "g \<in># M"
    with D(6) [of g] keep show "drawn ?a g" by simp
  qed (use sh keep D(4) in auto)
qed

lemma bump_release_last:
  assumes ok: "bump_frames_ok a (add_mset f M)" and i: "position (\<lambda>e. fst e = f) (shared_of a) = None"
  shows "bump_frames_ok (BumpFrameAllocator_release a f) M"
proof -
  note D = bump_frames_okD [OF ok] and p = position_unshared [OF ok i]
  let ?a = "BumpFrameAllocator_release a f"
  have nM: "f \<notin># M" using p(2) by (simp add: not_in_iff)
  have dr: "drawn a f" using D(6) by simp
  have eq: "?a = (if fa_free_count a < length (fa_free_list a)
      then a\<lparr>fa_free_list := (fa_free_list a)[fa_free_count a := f], fa_free_count := fa_free_count a + 1\<rparr>
      else a\<lparr>fa_reclaim_overflows := fa_reclaim_overflows a + 1\<rparr>)"
    using i by (simp add: BumpFrameAllocator_release_def shared_of_def)
  have keep: "drawn ?a = drawn a" "cursor_ok ?a" "shared_of ?a = shared_of a"
      "fa_free_count ?a \<le> length (fa_free_list ?a)" "fa_shared_count ?a \<le> length (fa_shared ?a)"
    using drawn_cong [of ?a a] D(1-3) by (auto simp: eq shared_of_def)
  have fo: "free_of ?a = free_of a @ (if fa_free_count a < length (fa_free_list a) then [f] else [])"
    by (simp add: eq free_of_def take_Suc_conv_app_nth)
  have nf: "f \<notin> set (free_of a)" using D(5) [of f] by auto
  show ?thesis
  proof (rule bump_frames_okI)
    fix g d assume "(g, d) \<in> set (shared_of ?a)"
    then have g: "(g, d) \<in> set (shared_of a)" using keep(3) by simp
    with p(1) have "g \<noteq> f" by force
    with D(8) [OF g] show "2 \<le> unat d \<and> count M g = unat d" by simp
  next
    fix g assume "g \<notin> fst ` set (shared_of ?a)"
    with D(9) [of g] keep(3) show "count M g \<le> 1" by (auto split: if_splits)
  next
    fix g assume "g \<in> set (free_of ?a)"
    with D(5) [of g] keep(1) dr nM fo show "drawn ?a g \<and> g \<notin># M" by (auto split: if_splits)
  next
    fix g assume "g \<in># M"
    with D(6) [of g] keep(1) show "drawn ?a g" by simp
  qed (use keep D fo nf in auto)
qed

text \<open>The bump allocator is a frame source, for as long as the shared table can record the
  references taken.\<close>

interpretation bump_fs: frame_source bump_frames bump_frames_ok bump_can_retain
proof (unfold_locales, goal_cases)
  case (1 s M f s')
  then show ?case using bump_alloc_ok [OF 1(1), of "Some f" s'] by (simp add: bump_frames_def)
next
  case (2 s M s')
  then show ?case using bump_alloc_ok [OF 2(1), of None s'] by (simp add: bump_frames_def)
next
  case (3 s M f)
  then show ?case using bump_retain_ok by (simp add: bump_frames_def)
next
  case (4 s f M)
  then show ?case
    using bump_release_shared [OF 4] bump_release_last [OF 4]
    by (cases "position (\<lambda>e. fst e = f) (shared_of s)") (simp_all add: bump_frames_def)
qed

lemma BumpFrameAllocator_new_ok: "map_ok m \<Longrightarrow> bump_frames_ok (BumpFrameAllocator_new nf ns m) {#}"
  unfolding BumpFrameAllocator_new_def
  by (rule bump_frames_okI) (auto simp: free_of_def shared_of_def map_ok_bounds_sorted intro: cursor_ok_advance)

subsection \<open>No frame is lost silently\<close>

text \<open>Every frame drawn from the map is held by somebody, back on the free list, or counted as a
  reclaim overflow.\<close>

definition bump_accounted :: "BumpFrameAllocator \<Rightarrow> PhysFrame multiset \<Rightarrow> bool" where
  "bump_accounted a M \<longleftrightarrow> bump_frames_ok a M \<and>
     fa_handed_out a \<le> card (set_mset M) + fa_free_count a + fa_reclaim_overflows a"

lemma advance_counts [simp]:
  "fa_handed_out (BumpFrameAllocator_advance_to_usable_region a i) = fa_handed_out a"
  "fa_free_count (BumpFrameAllocator_advance_to_usable_region a i) = fa_free_count a"
  "fa_reclaim_overflows (BumpFrameAllocator_advance_to_usable_region a i) = fa_reclaim_overflows a"
  by (simp_all add: BumpFrameAllocator_advance_to_usable_region_def Let_def split: option.splits)

lemma bump_loop_counts:
  "bump_loop a = (r, a') \<Longrightarrow>
   fa_handed_out a' = fa_handed_out a + (if r = None then 0 else 1) \<and>
   fa_free_count a' = fa_free_count a \<and> fa_reclaim_overflows a' = fa_reclaim_overflows a"
proof (induction a rule: bump_loop.induct)
  case (1 a)
  show ?case
  proof (cases "usable_bounds (fa_map a) (fa_region a)")
    case None
    with 1(2) show ?thesis by (simp add: bump_loop.simps [of a])
  next
    case (Some b)
    obtain s e where b: "b = (s, e)" by (cases b)
    define a1 where "a1 = (if fa_cursor a < s then a\<lparr>fa_cursor := s\<rparr> else a)"
    have a1: "fa_handed_out a1 = fa_handed_out a" "fa_free_count a1 = fa_free_count a"
        "fa_reclaim_overflows a1 = fa_reclaim_overflows a"
      by (simp_all add: a1_def)
    note eq = bump_loop.simps [of a, unfolded Some b, simplified, folded a1_def, unfolded Let_def]
    show ?thesis
    proof (cases "checked_add (fa_cursor a1) FRAME_SIZE")
      case None
      with 1(2) a1 show ?thesis unfolding eq by simp
    next
      case n: (Some n)
      let ?a2 = "BumpFrameAllocator_advance_to_usable_region a1 (fa_region a1 + 1)"
      consider "n \<le> e" | "\<not> n \<le> e" "length (fa_map ?a2) \<le> fa_region ?a2" | "\<not> n \<le> e" "\<not> length (fa_map ?a2) \<le> fa_region ?a2"
        by blast
      then show ?thesis
      proof cases
        case 1
        with \<open>bump_loop a = (r, a')\<close> n a1 show ?thesis unfolding eq by (auto split: option.splits)
      next
        case 2
        with \<open>bump_loop a = (r, a')\<close> n a1 show ?thesis unfolding eq by auto
      next
        case 3
        with \<open>bump_loop a = (r, a')\<close> n have l: "bump_loop ?a2 = (r, a')" unfolding eq by simp
        have "fa_handed_out a' = fa_handed_out ?a2 + (if r = None then 0 else 1) \<and>
            fa_free_count a' = fa_free_count ?a2 \<and> fa_reclaim_overflows a' = fa_reclaim_overflows ?a2"
          by (rule "1.IH" [OF Some b [symmetric] a1_def n 3(1) refl 3(2) l])
        with a1 show ?thesis by simp
      qed
    qed
  qed
qed

lemma alloc_counts:
  assumes "BumpFrameAllocator_alloc a = (r, a')"
  shows "fa_reclaim_overflows a' = fa_reclaim_overflows a"
    and "fa_handed_out a' + fa_free_count a \<le> fa_handed_out a + fa_free_count a' + (if r = None \<and> fa_free_count a = 0 then 0 else 1)"
  using assms bump_loop_counts [of a r a']
  by (auto simp: BumpFrameAllocator_alloc_def Let_def split: if_splits)

lemma card_add_mset: "card (set_mset (add_mset f M)) = (if f \<in># M then card (set_mset M) else Suc (card (set_mset M)))"
  by (simp add: card_insert_if)

lemma release_counts:
  "fa_handed_out (BumpFrameAllocator_release a f) = fa_handed_out a \<and>
   fa_free_count (BumpFrameAllocator_release a f) + fa_reclaim_overflows (BumpFrameAllocator_release a f) =
     fa_free_count a + fa_reclaim_overflows a + (if position (\<lambda>e. fst e = f) (shared_of a) = None then 1 else 0)"
  by (auto simp: BumpFrameAllocator_release_def shared_of_def Let_def split: option.splits)

lemma retain_counts:
  "fa_handed_out (BumpFrameAllocator_retain a f) = fa_handed_out a \<and>
   fa_free_count (BumpFrameAllocator_retain a f) = fa_free_count a \<and>
   fa_reclaim_overflows a \<le> fa_reclaim_overflows (BumpFrameAllocator_retain a f)"
  by (auto simp: BumpFrameAllocator_retain_def split: option.splits)

interpretation bump_acc: frame_source bump_frames bump_accounted bump_can_retain
proof (unfold_locales, goal_cases)
  case (1 s M f s')
  then have ok: "bump_frames_ok s M" and al: "BumpFrameAllocator_alloc s = (Some f, s')"
    by (simp_all add: bump_accounted_def bump_frames_def)
  note A = bump_fs.alloc_fresh [OF ok 1(2)]
  with alloc_counts [OF al] 1(1) show ?case by (auto simp: bump_accounted_def card_add_mset split: if_splits)
next
  case (2 s M s')
  then have ok: "bump_frames_ok s M" and al: "BumpFrameAllocator_alloc s = (None, s')"
    by (simp_all add: bump_accounted_def bump_frames_def)
  have "fa_free_count s = 0"
  proof (rule ccontr)
    assume n: "fa_free_count s \<noteq> 0"
    let ?f = "fa_free_list s ! (fa_free_count s - 1)"
    note D = bump_frames_okD [OF ok]
    have "?f \<in> set (free_of s)" using n D(2) by (auto simp: free_of_def in_set_conv_nth intro!: exI [of _ "fa_free_count s - 1"])
    then have "PhysFrame_from_base ?f = Some ?f" using D(5) [of ?f] by (simp add: drawn_def from_base_iff)
    with n al show False by (simp add: BumpFrameAllocator_alloc_def Let_def)
  qed
  with bump_fs.alloc_exhausted [OF ok 2(2)] alloc_counts [OF al] 2(1) show ?case by (simp add: bump_accounted_def)
next
  case (3 s M f)
  with bump_fs.retain_held [of s M f] retain_counts [of s f] show ?case
    by (auto simp: bump_accounted_def insert_absorb bump_frames_def)
next
  case (4 s f M)
  then have ok: "bump_frames_ok s (add_mset f M)" by (simp add: bump_accounted_def)
  have keep: "f \<in># M" if "position (\<lambda>e. fst e = f) (shared_of s) = Some i" for i
  proof -
    have "2 \<le> count (add_mset f M) f" using position_shared(4,5) [OF ok that] by simp
    then show ?thesis by (simp add: Suc_le_eq)
  qed
  have c: "card (insert f (set_mset M)) \<le> Suc (card (set_mset M))" by (simp add: card_insert_if)
  show ?case
    using bump_fs.free_held [OF ok] release_counts [of s f] 4 keep c
    by (cases "position (\<lambda>e. fst e = f) (shared_of s)")
      (auto simp: bump_accounted_def insert_absorb bump_frames_def)
qed

lemma BumpFrameAllocator_new_accounted: "map_ok m \<Longrightarrow> bump_accounted (BumpFrameAllocator_new nf ns m) {#}"
  unfolding bump_accounted_def
  by (rule conjI, rule BumpFrameAllocator_new_ok)
    (simp_all add: BumpFrameAllocator_new_def BumpFrameAllocator_advance_to_usable_region_def Let_def split: option.splits)

subsection \<open>Contiguous runs\<close>

text \<open>\<open>frame_run f n\<close> is the \<open>n\<close> adjacent frames from \<open>f\<close> on; \<open>bump_draws a fs\<close> is the allocator
  after single allocations that returned exactly \<open>fs\<close>, in that order.\<close>

definition frame_run :: "PhysFrame \<Rightarrow> nat \<Rightarrow> PhysFrame list" where
  "frame_run f n = map (\<lambda>i. f + of_nat i * FRAME_SIZE) [0..<n]"

fun bump_draws :: "BumpFrameAllocator \<Rightarrow> PhysFrame list \<Rightarrow> BumpFrameAllocator option" where
  "bump_draws a [] = Some a"
| "bump_draws a (f # fs) =
     (case BumpFrameAllocator_alloc a of
        (Some g, a1) \<Rightarrow> if g = f then bump_draws a1 fs else None
      | (None, a1) \<Rightarrow> None)"

lemma frame_run_1 [simp]: "frame_run f (Suc 0) = [f]"
  by (simp add: frame_run_def)

lemma frame_run_snoc: "frame_run f (Suc n) = frame_run f n @ [f + of_nat n * FRAME_SIZE]"
  by (simp add: frame_run_def)

lemma bump_draws_held:
  assumes "bump_draws a fs = Some a'" "bump_frames_ok a M"
  shows "bump_frames_ok a' (mset fs + M) \<and> distinct fs \<and> set fs \<inter> set_mset M = {}"
  using assms
proof (induction fs arbitrary: a M)
  case (Cons f fs)
  then obtain a1 where a1: "BumpFrameAllocator_alloc a = (Some f, a1)" "bump_draws a1 fs = Some a'"
    by (auto split: prod.splits option.splits if_splits)
  have "f \<notin># M" and ok: "bump_frames_ok a1 (add_mset f M)" using bump_alloc_ok [OF Cons.prems(2) a1(1)] by auto
  with Cons.IH [OF a1(2) ok] show ?case by auto
qed simp

text \<open>What the search loop has done when it ends, with \<open>len\<close> frames of a run drawn on entry.\<close>

lemma contiguous_loop_spec:
  assumes "contiguous_loop a cnt start len prev = (r, a')" "unat len = Suc n" "len \<le> cnt"
    "prev = start + of_nat n * FRAME_SIZE"
  shows "\<exists>fs a1. bump_draws a fs = Some a1 \<and>
    (case r of
       None \<Rightarrow> BumpFrameAllocator_alloc a1 = (None, a')
     | Some b \<Rightarrow> a1 = a' \<and> (\<exists>pre. frame_run start (Suc n) @ fs = pre @ frame_run b (unat cnt)))"
  using assms
proof (induction a cnt start len prev arbitrary: n rule: contiguous_loop.induct)
  case (1 a cnt start len prev)
  show ?case
  proof (cases "len < cnt")
    case False
    then have "len = cnt" using 1(5) by simp
    with False 1(3,4) show ?thesis by (intro exI [of _ "[]"]) (auto simp: contiguous_loop.simps [of a])
  next
    case True
    obtain q a1 where al: "BumpFrameAllocator_alloc a = (q, a1)" by fastforce
    show ?thesis
    proof (cases q)
      case None
      with True al 1(3) show ?thesis by (intro exI [of _ "[]"]) (auto simp: contiguous_loop.simps [of a])
    next
      case (Some f)
      have "unat len < unat cnt" using True by (simp add: word_less_nat_alt)
      moreover have "unat cnt < 2 ^ LENGTH(64)" by (rule unsigned_less)
      ultimately have u1: "unat (len + 1) = Suc (Suc n)" using unat_add_lem [of len 1] 1(4) by simp
      have le: "len + 1 \<le> cnt" "1 \<le> cnt" using True u1 1(4) by (auto simp: word_le_nat_alt word_less_nat_alt)
      show ?thesis
      proof (cases "f = prev + FRAME_SIZE")
        case step: True
        have "contiguous_loop a1 cnt start (len + 1) f = (r, a')"
          using 1(3) True al Some step by (simp add: contiguous_loop.simps [of a])
        moreover have f: "f = start + of_nat (Suc n) * FRAME_SIZE" using step 1(6) by (simp add: algebra_simps)
        ultimately obtain fs a2 where "bump_draws a1 fs = Some a2" "case r of None \<Rightarrow> BumpFrameAllocator_alloc a2 = (None, a')
            | Some b \<Rightarrow> a2 = a' \<and> (\<exists>pre. frame_run start (Suc (Suc n)) @ fs = pre @ frame_run b (unat cnt))"
          using 1(1) [OF True al [symmetric] Some step _ u1 le(1)] by blast
        then show ?thesis using al Some f
          by (intro exI [of _ "f # fs"] exI [of _ a2]) (auto simp: frame_run_snoc [of start "Suc n"] split: option.splits)
      next
        case restart: False
        have l: "contiguous_loop a1 cnt f 1 f = (r, a')"
          using 1(3) True al Some restart by (simp add: contiguous_loop.simps [of a])
        obtain fs a2 where "bump_draws a1 fs = Some a2" "case r of None \<Rightarrow> BumpFrameAllocator_alloc a2 = (None, a')
            | Some b \<Rightarrow> a2 = a' \<and> (\<exists>pre. frame_run f (Suc 0) @ fs = pre @ frame_run b (unat cnt))"
          using 1(2) [OF True al [symmetric] Some restart l, of 0] le(2) by auto
        then show ?thesis using al Some
          by (intro exI [of _ "f # fs"] exI [of _ a2]) (auto split: option.splits intro: exI [of _ "frame_run start (Suc n) @ pre" for pre])
      qed
    qed
  qed
qed

subsection \<open>The pool\<close>

definition pool_frames_ok :: "FramePool \<Rightarrow> PhysFrame multiset \<Rightarrow> bool" where
  "pool_frames_ok p M \<longleftrightarrow>
     fp_len p \<le> length (fp_frames p) \<and>
     distinct (drop (fp_next p) (take (fp_len p) (fp_frames p))) \<and>
     (\<forall>f \<in> set (drop (fp_next p) (take (fp_len p) (fp_frames p))). is_aligned f FRAME_SIZE \<and> f \<notin># M)"

interpretation pool_fs: frame_source pool_frames pool_frames_ok "\<lambda>_ _. True"
proof (unfold_locales, goal_cases)
  case (1 s M f s')
  let ?xs = "take (fp_len s) (fp_frames s)"
  have n: "fp_next s < length ?xs" "f = ?xs ! fp_next s" "s' = s\<lparr>fp_next := fp_next s + 1\<rparr>" "is_aligned f FRAME_SIZE"
    using 1 by (auto simp: pool_frames_def FramePool_alloc_frame_def from_base_iff pool_frames_ok_def split: if_splits)
  then have "drop (fp_next s) ?xs = f # drop (fp_next s') (take (fp_len s') (fp_frames s'))"
    using Cons_nth_drop_Suc [OF n(1)] by simp
  with 1(1) n show ?case by (auto simp: pool_frames_ok_def)
next
  case (2 s M s')
  let ?xs = "take (fp_len s) (fp_frames s)"
  have "s' = s"
  proof (rule ccontr)
    assume "s' \<noteq> s"
    with 2 have "fp_next s < length ?xs" "\<not> is_aligned (?xs ! fp_next s) FRAME_SIZE"
      by (auto simp: pool_frames_def FramePool_alloc_frame_def PhysFrame_from_base_def pool_frames_ok_def split: if_splits)
    with 2(1) Cons_nth_drop_Suc [of "fp_next s" ?xs] show False
      unfolding pool_frames_ok_def by (metis list.set_intros(1))
  qed
  with 2 show ?case by simp
next
  case (3 s M f)
  then show ?case by (auto simp: pool_frames_def pool_frames_ok_def)
next
  case (4 s f M)
  then show ?case by (auto simp: pool_frames_def pool_frames_ok_def)
qed

definition pool_rest :: "FramePool \<Rightarrow> PhysFrame list" where
  "pool_rest p = drop (fp_next p) (take (fp_len p) (fp_frames p))"

context frame_source
begin

text \<open>Filling a pool moves references from the source into the pool, none lost.\<close>

lemma fill_held:
  "frames_ok s (mset (pool_rest p) + M) \<Longrightarrow> fp_next p \<le> fp_len p \<Longrightarrow> fp_len p \<le> length (fp_frames p) \<Longrightarrow>
   FramePool_fill F p s cnt = (n, p', s') \<Longrightarrow>
   frames_ok s' (mset (pool_rest p') + M) \<and> length (pool_rest p') = length (pool_rest p) + n \<and> n \<le> cnt"
proof (induction cnt arbitrary: p s n)
  case (Suc cnt)
  show ?case
  proof (cases "fp_len p < length (fp_frames p)")
    case True
    obtain q s1 where al: "alloc_frame F s = (q, s1)" by (cases "alloc_frame F s")
    show ?thesis
    proof (cases q)
      case None
      with Suc.prems True al alloc_exhausted [OF Suc.prems(1), of s1] show ?thesis by auto
    next
      case (Some f)
      let ?p = "p\<lparr>fp_frames := (fp_frames p)[fp_len p := f], fp_len := fp_len p + 1\<rparr>"
      have r: "pool_rest ?p = pool_rest p @ [f]"
        using True Suc.prems(2) by (simp add: pool_rest_def take_Suc_conv_app_nth)
      have ok: "frames_ok s1 (mset (pool_rest ?p) + M)"
        using alloc_fresh [OF Suc.prems(1), of f s1] al Some r by simp
      obtain m where m: "FramePool_fill F ?p s1 cnt = (m, p', s')" "n = Suc m"
        using Suc.prems(4) True al Some by (auto split: prod.splits)
      have "frames_ok s' (mset (pool_rest p') + M) \<and> length (pool_rest p') = length (pool_rest ?p) + m \<and> m \<le> cnt"
        using Suc.IH [OF ok _ _ m(1)] Suc.prems(2,3) True by simp
      with m(2) r show ?thesis by simp
    qed
  qed (use Suc.prems in auto)
qed auto

end

subsection \<open>Properties\<close>

inductive bump_step ::
    "BumpFrameAllocator \<times> PhysFrame multiset \<Rightarrow> BumpFrameAllocator \<times> PhysFrame multiset \<Rightarrow> bool" where
  bump_alloc: "BumpFrameAllocator_alloc a = (Some f, a') \<Longrightarrow> bump_step (a, M) (a', add_mset f M)"
| bump_exhausted: "BumpFrameAllocator_alloc a = (None, a') \<Longrightarrow> bump_step (a, M) (a', M)"
| bump_retain: "f \<in># M \<Longrightarrow> bump_can_retain a f \<Longrightarrow> bump_step (a, M) (BumpFrameAllocator_retain a f, add_mset f M)"
| bump_release: "bump_step (a, add_mset f M) (BumpFrameAllocator_release a f, M)"

inductive_cases bump_stepE: "bump_step (a, M) (a', M')"

lemma bump_map_const [simp]:
  "fa_map (BumpFrameAllocator_retain a f) = fa_map a" "fa_map (BumpFrameAllocator_release a f) = fa_map a"
  by (simp_all add: BumpFrameAllocator_retain_def BumpFrameAllocator_release_def Let_def split: option.splits)

lemma alloc_map_const:
  "cursor_ok a \<Longrightarrow> BumpFrameAllocator_alloc a = (r, a') \<Longrightarrow> fa_map a' = fa_map a"
  using bump_loop_spec [of a r a'] by (auto simp: BumpFrameAllocator_alloc_def Let_def same_lists_def split: if_splits)

lemma bump_step_ok:
  "bump_step (a, M) (a', M') \<Longrightarrow> bump_frames_ok a M \<Longrightarrow> bump_frames_ok a' M' \<and> fa_map a' = fa_map a"
proof (elim bump_stepE, goal_cases)
  case (1 f)
  with bump_alloc_ok [of a M "Some f" a'] alloc_map_const [of a "Some f" a'] bump_frames_okD(1) [of a M] show ?case by simp
next
  case 2
  with bump_alloc_ok [of a M None a'] alloc_map_const [of a None a'] bump_frames_okD(1) [of a M] show ?case by simp
next
  case (3 f)
  with bump_retain_ok show ?case by simp
next
  case (4 f)
  with bump_fs.free_held [of a f M'] show ?case by (simp add: bump_frames_def)
qed

lemma bump_reachable_ok:
  "bump_step\<^sup>*\<^sup>* (a, M) (a', M') \<Longrightarrow> bump_frames_ok a M \<Longrightarrow> bump_frames_ok a' M' \<and> fa_map a' = fa_map a"
proof (induction "(a', M')" arbitrary: a' M' rule: rtranclp_induct)
  case (step y)
  obtain b N where y: "y = (b, N)" by (cases y)
  with step(3) [of b N] step(4) have "bump_frames_ok b N" "fa_map b = fa_map a" by simp_all
  with bump_step_ok [of b N a' M'] step(2) y show ?case by simp
qed simp

text \<open>The addresses of a drawn frame lie in the usable region it was drawn from.\<close>

lemma drawn_covers:
  assumes "drawn a f" "unat f \<le> unat x" "unat x < unat f + 4096"
  shows "kind_at (fa_map a) x Usable"
proof -
  from assms(1) obtain i s e where b: "usable_bounds (fa_map a) i = Some (s, e)" "s \<le> f" "f < e"
    and f: "is_aligned f FRAME_SIZE" unfolding drawn_def by blast
  note u = usable_bounds_SomeD [OF b(1)]
  note n = aligned_next_le [OF f u(4) b(3)]
  have "unat f + 4096 \<le> unat e" using n(1,2) by (simp add: word_le_nat_alt)
  then have "x < e" using assms(3) by (simp add: word_less_nat_alt)
  moreover have "s \<le> x" using assms(2) b(2) by (simp add: word_le_nat_alt)
  moreover have "mr_len (fa_map a ! i) \<noteq> 0" using u(5-7) by auto
  ultimately have "covers (fa_map a ! i) x" using u(6,7) by (auto simp: covers_def)
  with u(1,2) show ?thesis unfolding kind_at_def by (metis nth_mem)
qed

text \<open>C6: Memory safety of the frame allocator. Boot on any firmware map that normalizes, then
  allocate, share and release frames in any order, releasing only references that are held
  and sharing while the shared table has room: every frame handed out is aligned, is held by
  nobody at that moment, and lies entirely in memory that every firmware region covering it
  reports as usable.\<close>
theorem allocated_frames_exclusive:
  assumes m: "normalize_memory_map edge_cap out_cap input = Ok m"
    and reach: "bump_step\<^sup>*\<^sup>* (BumpFrameAllocator_new nf ns m, {#}) (a, M)"
    and al: "BumpFrameAllocator_alloc a = (Some f, a')"
  shows "f \<notin># M \<and> is_aligned f FRAME_SIZE \<and>
    (\<forall>x. unat f \<le> unat x \<and> unat x < unat f + 4096 \<longrightarrow>
       (\<exists>r \<in> set input. covers r x) \<and> (\<forall>r \<in> set input. covers r x \<longrightarrow> mr_kind r = Usable))"
proof -
  have ok: "map_ok m" and norm: "\<And>x k. kind_at m x k = strongest_at input x k"
    using normalize_sound [OF m] by simp_all
  have "fa_map (BumpFrameAllocator_new nf ns m) = m" by (simp add: BumpFrameAllocator_new_def)
  then have a: "bump_frames_ok a M" "fa_map a = m"
    using bump_reachable_ok [OF reach] BumpFrameAllocator_new_ok [OF ok] by simp_all
  note A = bump_alloc_ok [OF a(1) al, simplified]
  have "drawn a' f" using A bump_frames_okD(6) [of a' "add_mset f M" f] by simp
  moreover have "fa_map a' = m" using alloc_map_const [OF bump_frames_okD(1) [OF a(1)] al] a(2) by simp
  ultimately have k: "strongest_at input x Usable" if "unat f \<le> unat x" "unat x < unat f + 4096" for x
    using drawn_covers [of a' f x] that norm by simp
  have "(\<exists>r \<in> set input. covers r x) \<and> (\<forall>r \<in> set input. covers r x \<longrightarrow> mr_kind r = Usable)"
    if "unat f \<le> unat x" "unat x < unat f + 4096" for x
    using k [OF that] precedence_inj [of _ Usable] unfolding strongest_at_def by (auto simp: le_zero_eq)
  with A show ?thesis by blast
qed

definition sample_boot_map :: "MemoryRegion list" where
  "sample_boot_map = (case normalize_memory_map 6 6 sample_map of Ok m \<Rightarrow> m | Err _ \<Rightarrow> [])"

definition sample_alloc :: BumpFrameAllocator where
  "sample_alloc = snd (BumpFrameAllocator_alloc (BumpFrameAllocator_new 2 1 sample_boot_map))"

lemma sample_alloc_reachable:
  "bump_step\<^sup>*\<^sup>* (BumpFrameAllocator_new 2 1 sample_boot_map, {#}) (sample_alloc, {#0x1000#})"
proof -
  have "fst (BumpFrameAllocator_alloc (BumpFrameAllocator_new 2 1 sample_boot_map)) = Some 0x1000" by code_simp
  then have "BumpFrameAllocator_alloc (BumpFrameAllocator_new 2 1 sample_boot_map) = (Some 0x1000, sample_alloc)"
    by (simp add: sample_alloc_def prod_eq_iff)
  from bump_alloc [OF this, of "{#}"] show ?thesis by (rule r_into_rtranclp)
qed

theorem allocated_frames_exclusive_witness:
  "\<exists>a'. BumpFrameAllocator_alloc sample_alloc = (Some 0x2000, a') \<and> (0x2000 :: PhysFrame) \<notin># {#0x1000#} \<and>
     (\<forall>r \<in> set sample_map. covers r 0x2fff \<longrightarrow> mr_kind r = Usable)"
proof -
  have "is_ok (normalize_memory_map 6 6 sample_map)" by code_simp
  then have m: "normalize_memory_map 6 6 sample_map = Ok sample_boot_map"
    by (auto simp: sample_boot_map_def is_ok_iff)
  have "fst (BumpFrameAllocator_alloc sample_alloc) = Some 0x2000" by code_simp
  then obtain a' where al: "BumpFrameAllocator_alloc sample_alloc = (Some 0x2000, a')" by (metis prod.collapse)
  note t = allocated_frames_exclusive [OF m sample_alloc_reachable al]
  have "\<forall>r \<in> set sample_map. covers r 0x2fff \<longrightarrow> mr_kind r = Usable"
    using spec [OF t [THEN conjunct2, THEN conjunct2], of "0x2fff"] by simp
  with t al show ?thesis by simp
qed

text \<open>C33: A contiguous allocation is a sequence of single allocations that keeps everything it
  draws. Whatever it answers, the frames it drew were held by nobody, are distinct and are all
  out of the allocator afterwards. If it answers with a base, the last frames drawn are the
  run asked for, adjacent from that base on; the ones drawn before it, while looking, are not
  given back. It answers with nothing only for a length of zero, having drawn nothing, or
  because the allocator ran out. The search always ends.\<close>
theorem alloc_contiguous_run:
  assumes "bump_frames_ok a M" "BumpFrameAllocator_alloc_contiguous a cnt = (r, a')"
  shows "\<exists>fs a1. bump_draws a fs = Some a1 \<and> bump_frames_ok a' (mset fs + M) \<and> distinct fs \<and> set fs \<inter> set_mset M = {} \<and>
    (case r of
       Some b \<Rightarrow> a' = a1 \<and> (\<exists>searched. fs = searched @ frame_run b (unat cnt)) \<and> cnt \<noteq> 0
     | None \<Rightarrow> cnt = 0 \<and> fs = [] \<and> a' = a \<or> cnt \<noteq> 0 \<and> BumpFrameAllocator_alloc a1 = (None, a'))"
proof -
  have "\<exists>fs a1. bump_draws a fs = Some a1 \<and>
    (case r of
       Some b \<Rightarrow> a' = a1 \<and> (\<exists>searched. fs = searched @ frame_run b (unat cnt)) \<and> cnt \<noteq> 0
     | None \<Rightarrow> cnt = 0 \<and> fs = [] \<and> a' = a \<or> cnt \<noteq> 0 \<and> BumpFrameAllocator_alloc a1 = (None, a'))"
  proof (cases "cnt = 0 \<or> fst (BumpFrameAllocator_alloc a) = None")
    case True
    with assms(2) show ?thesis
      by (intro exI [of _ "[]"]) (auto simp: BumpFrameAllocator_alloc_contiguous_def prod_eq_iff split: prod.splits)
  next
    case False
    then obtain f a1 where f: "BumpFrameAllocator_alloc a = (Some f, a1)" "cnt \<noteq> 0" by (auto simp: prod_eq_iff)
    then have l: "contiguous_loop a1 cnt f 1 f = (r, a')" "1 \<le> cnt"
      using assms(2) by (auto simp: BumpFrameAllocator_alloc_contiguous_def word_le_nat_alt Suc_le_eq unat_gt_0)
    from contiguous_loop_spec [OF l(1) _ l(2), of 0] obtain fs a2 where "bump_draws a1 fs = Some a2"
      "case r of None \<Rightarrow> BumpFrameAllocator_alloc a2 = (None, a')
       | Some b \<Rightarrow> a2 = a' \<and> (\<exists>pre. frame_run f (Suc 0) @ fs = pre @ frame_run b (unat cnt))" by auto
    then show ?thesis using f by (intro exI [of _ "f # fs"] exI [of _ a2]) (auto split: option.splits)
  qed
  then obtain fs a1 where d: "bump_draws a fs = Some a1"
    "case r of Some b \<Rightarrow> a' = a1 \<and> (\<exists>searched. fs = searched @ frame_run b (unat cnt)) \<and> cnt \<noteq> 0
     | None \<Rightarrow> cnt = 0 \<and> fs = [] \<and> a' = a \<or> cnt \<noteq> 0 \<and> BumpFrameAllocator_alloc a1 = (None, a')" by blast
  note h = bump_draws_held [OF d(1) assms(1)]
  have "bump_frames_ok a' (mset fs + M)"
    using h d assms(1) bump_alloc_ok [of a1 "mset fs + M" None a'] by (cases r) auto
  with d h show ?thesis by blast
qed

theorem alloc_contiguous_run_witness:
  "\<exists>a' fs. BumpFrameAllocator_alloc_contiguous (BumpFrameAllocator_new 2 1 sample_boot_map) 2 = (Some 0x1000, a') \<and>
     bump_frames_ok a' (mset fs) \<and> {0x1000, 0x2000} \<subseteq> set fs"
proof -
  let ?a = "BumpFrameAllocator_new 2 1 sample_boot_map"
  have "is_ok (normalize_memory_map 6 6 sample_map)" by code_simp
  then have "normalize_memory_map 6 6 sample_map = Ok sample_boot_map"
    by (auto simp: sample_boot_map_def is_ok_iff)
  then have ok: "bump_frames_ok ?a {#}" using normalize_sound BumpFrameAllocator_new_ok by blast
  have "fst (BumpFrameAllocator_alloc_contiguous ?a 2) = Some 0x1000" by code_simp
  then obtain a' where al: "BumpFrameAllocator_alloc_contiguous ?a 2 = (Some 0x1000, a')" by (metis prod.collapse)
  have run: "set (frame_run 0x1000 (unat (2 :: 64 word))) = {0x1000, 0x2000}" by code_simp
  from alloc_contiguous_run [OF ok al] obtain fs searched where "bump_frames_ok a' (mset fs)"
    "fs = searched @ frame_run 0x1000 (unat (2 :: 64 word))" by auto
  with al run show ?thesis by (intro exI [of _ a'] exI [of _ fs]) simp
qed

text \<open>C37: When the shared table is full, sharing a frame is not recorded, and the frame is then
  reclaimed too early, although the code means it to stay allocated for good: after one of
  its two holders releases it, with room on the free list, the next allocation hands the same frame out again while the
  other holder still has it.\<close>
theorem unrecorded_share_reclaimed_early:
  assumes full: "fa_shared_count a = length (fa_shared a)" and f: "f \<notin> fst ` set (shared_of a)" "is_aligned f FRAME_SIZE"
    and room: "fa_free_count a < length (fa_free_list a)"
  shows "fst (BumpFrameAllocator_alloc (BumpFrameAllocator_release (BumpFrameAllocator_retain a f) f)) = Some f"
proof -
  have p: "position (\<lambda>e. fst e = f) (shared_of a) = None" using f(1) by (auto simp: position_None_iff)
  then have r: "BumpFrameAllocator_retain a f = a\<lparr>fa_reclaim_overflows := fa_reclaim_overflows a + 1\<rparr>" (is "_ = ?a")
    using full by (simp add: BumpFrameAllocator_retain_def shared_of_def)
  have "BumpFrameAllocator_release ?a f =
      ?a\<lparr>fa_free_list := (fa_free_list a)[fa_free_count a := f], fa_free_count := fa_free_count a + 1\<rparr>"
    using p room by (simp add: BumpFrameAllocator_release_def shared_of_def)
  then show ?thesis using f(2) room by (simp add: r BumpFrameAllocator_alloc_def from_base_iff)
qed

theorem unrecorded_share_reclaimed_early_witness:
  "fst (BumpFrameAllocator_alloc (BumpFrameAllocator_release (BumpFrameAllocator_retain
     (BumpFrameAllocator_retain (snd (BumpFrameAllocator_alloc sample_alloc)) 0x1000) 0x2000) 0x2000)) = Some 0x2000"
proof (rule unrecorded_share_reclaimed_early)
  let ?a = "BumpFrameAllocator_retain (snd (BumpFrameAllocator_alloc sample_alloc)) 0x1000"
  show "fa_shared_count ?a = length (fa_shared ?a)" by code_simp
  show "0x2000 \<notin> fst ` set (shared_of ?a)" by code_simp
  show "is_aligned 0x2000 FRAME_SIZE" by code_simp
  show "fa_free_count ?a < length (fa_free_list ?a)" by code_simp
qed

end
