(* ===== verification/Spaces.thy ===== *)
theory Spaces
  imports Objects Frames
begin

text \<open>
  Address spaces, \<^verbatim>\<open>kcore/src/vm.rs\<close>: the mapping table over a port's page tables, the four
  ways of serving memory, fault resolution, and reclaim. The operations take the two trait
  dictionaries (\<open>A\<close> for the port, \<open>F\<close> for the frame source); \<open>Phys\<close> is the frame source
  together with the contents of physical memory. \<^verbatim>\<open>MAX_MAPPINGS\<close> is the length of the mapping
  table. \<open>as_log\<close> records the operations whose order matters to other processors: a page
  taken out of the tables, a shootdown, a frame given back.
\<close>

datatype Backing =
    Anonymous | AnonymousDemand | Cow
  | Object ObjectId "64 word" | Shared ObjectId "64 word"

datatype DeviceReach = ReachUser | ReachKernel

definition DeviceReach_flags :: "DeviceReach \<Rightarrow> PageFlags" where
  "DeviceReach_flags r =
     (let flags = PageFlags_device PageFlags_rw
      in case r of ReachUser \<Rightarrow> PageFlags_user flags | ReachKernel \<Rightarrow> flags)"

datatype FaultOutcome =
    Filled | Copied | NeedsPageIn ObjectId "64 word" | WriteToClean ObjectId "64 word" | Unresolvable

record Mapping =
  mp_base :: "64 word"
  mp_len :: "64 word"
  mp_rights :: PageFlags
  mp_backing :: Backing

definition RECLAIM_BATCH :: nat where "RECLAIM_BATCH = 32"

definition remote_invalidations :: "bool \<Rightarrow> 64 word \<Rightarrow> nat \<Rightarrow> 64 word" where
  "remote_invalidations is_broadcast active self_index =
     (if is_broadcast then 0
      else if self_index \<ge> 64 then active
      else active AND NOT (push_bit self_index 1))"

definition read_only :: "PageFlags \<Rightarrow> PageFlags" where
  "read_only rights =
     (let ro = PageFlags_read PageFlags_none;
          ro1 = (if PageFlags_is_user rights then PageFlags_user ro else ro)
      in if PageFlags_executable rights then PageFlags_execute ro1 else ro1)"

datatype TlbEvent = TlbUnmap PhysFrame | TlbShootdown | TlbFree PhysFrame

record 'a AddressSpace =
  as_arch :: 'a
  as_asid :: "16 word"
  as_active_core_mask :: "64 word"
  as_active_everywhere :: bool
  as_mappings :: "Mapping option list"
  as_mapping_count :: nat
  as_mapped_bytes :: "64 word"
  as_log :: "TlbEvent list"

record 'f Phys =
  ph_alloc :: 'f
  ph_mem :: PhysMem

definition AddressSpace_from_arch :: "nat \<Rightarrow> 'a \<Rightarrow> 16 word \<Rightarrow> 64 word \<Rightarrow> 'a AddressSpace" where
  "AddressSpace_from_arch max_mappings arch asid cores =
     \<lparr> as_arch = arch, as_asid = asid, as_active_core_mask = cores, as_active_everywhere = False,
       as_mappings = replicate max_mappings None, as_mapping_count = 0, as_mapped_bytes = 0, as_log = [] \<rparr>"

definition AddressSpace_activate :: "'a AddressSpace \<Rightarrow> nat \<Rightarrow> 'a AddressSpace" where
  "AddressSpace_activate sp core_id =
     sp\<lparr>as_active_core_mask := as_active_core_mask sp OR push_bit core_id 1\<rparr>"

definition AddressSpace_mark_active_everywhere :: "'a AddressSpace \<Rightarrow> 'a AddressSpace" where
  "AddressSpace_mark_active_everywhere sp = sp\<lparr>as_active_everywhere := True\<rparr>"

definition AddressSpace_remote_holders :: "bool \<Rightarrow> 64 word \<Rightarrow> nat \<Rightarrow> 'a AddressSpace \<Rightarrow> 64 word" where
  "AddressSpace_remote_holders is_broadcast online_mask current_index sp =
     remote_invalidations is_broadcast
       (if as_active_everywhere sp then online_mask else as_active_core_mask sp) current_index"

subsection \<open>Calls to the port and the frame source\<close>

definition vm_alloc :: "'f FrameOps \<Rightarrow> 'f Phys \<Rightarrow> PhysFrame option \<times> 'f Phys" where
  "vm_alloc F ph = (case alloc_frame F (ph_alloc ph) of (r, s) \<Rightarrow> (r, ph\<lparr>ph_alloc := s\<rparr>))"

definition vm_retain :: "'f FrameOps \<Rightarrow> 'f Phys \<Rightarrow> PhysFrame \<Rightarrow> 'f Phys" where
  "vm_retain F ph f = ph\<lparr>ph_alloc := retain_frame F (ph_alloc ph) f\<rparr>"

definition vm_free :: "'f FrameOps \<Rightarrow> 'a AddressSpace \<Rightarrow> 'f Phys \<Rightarrow> PhysFrame \<Rightarrow> 'a AddressSpace \<times> 'f Phys" where
  "vm_free F sp ph f = (sp\<lparr>as_log := as_log sp @ [TlbFree f]\<rparr>, ph\<lparr>ph_alloc := free_frame F (ph_alloc ph) f\<rparr>)"

definition vm_map ::
    "('a, 'f) ArchOps \<Rightarrow> 'a AddressSpace \<Rightarrow> VirtAddr \<Rightarrow> PhysFrame \<Rightarrow> PageFlags \<Rightarrow> 'f Phys \<Rightarrow>
     unit res \<times> 'a AddressSpace \<times> 'f Phys" where
  "vm_map A sp va f fl ph =
     (case map_page A (as_arch sp) va f fl (ph_alloc ph) of
        (r, a, s) \<Rightarrow> (r, sp\<lparr>as_arch := a\<rparr>, ph\<lparr>ph_alloc := s\<rparr>))"

definition vm_unmap :: "('a, 'f) ArchOps \<Rightarrow> 'a AddressSpace \<Rightarrow> VirtAddr \<Rightarrow> PhysFrame res \<times> 'a AddressSpace" where
  "vm_unmap A sp va =
     (case unmap_page A (as_arch sp) va of
        (r, a) \<Rightarrow> (r, sp\<lparr>as_arch := a,
          as_log := as_log sp @ (case r of Ok f \<Rightarrow> [TlbUnmap f] | Err _ \<Rightarrow> [])\<rparr>))"

definition vm_protect :: "('a, 'f) ArchOps \<Rightarrow> 'a AddressSpace \<Rightarrow> VirtAddr \<Rightarrow> PageFlags \<Rightarrow> unit res \<times> 'a AddressSpace" where
  "vm_protect A sp va fl =
     (case protect_page A (as_arch sp) va fl of (r, a) \<Rightarrow> (r, sp\<lparr>as_arch := a\<rparr>))"

definition AddressSpace_shoot_down :: "'a AddressSpace \<Rightarrow> 'a AddressSpace" where
  "AddressSpace_shoot_down sp = sp\<lparr>as_log := as_log sp @ [TlbShootdown]\<rparr>"

subsection \<open>The mapping table\<close>

definition AddressSpace_mapping_covering :: "'a AddressSpace \<Rightarrow> VirtAddr \<Rightarrow> Mapping option" where
  "AddressSpace_mapping_covering sp v =
     find (\<lambda>m. v \<ge> mp_base m \<and> v < mp_base m + mp_len m) (flatten (as_mappings sp))"

definition AddressSpace_rights_at :: "'a AddressSpace \<Rightarrow> VirtAddr \<Rightarrow> PageFlags option" where
  "AddressSpace_rights_at sp v = map_option mp_rights (AddressSpace_mapping_covering sp v)"

definition AddressSpace_backing_at :: "'a AddressSpace \<Rightarrow> VirtAddr \<Rightarrow> Backing option" where
  "AddressSpace_backing_at sp v = map_option mp_backing (AddressSpace_mapping_covering sp v)"

definition AddressSpace_check_user_bound :: "('a, 'f) ArchOps \<Rightarrow> VirtAddr \<Rightarrow> 64 word \<Rightarrow> PageFlags \<Rightarrow> unit res" where
  "AddressSpace_check_user_bound A base len rights =
     (if \<not> PageFlags_is_user rights then Ok ()
      else case checked_add base len of
        None \<Rightarrow> Err InvalidMapping
      | Some e \<Rightarrow> if e > USER_ADDRESS_MAX A then Err InvalidMapping else Ok ())"

definition AddressSpace_overlaps :: "'a AddressSpace \<Rightarrow> 64 word \<Rightarrow> 64 word \<Rightarrow> bool" where
  "AddressSpace_overlaps sp base len \<longleftrightarrow>
     list_ex (\<lambda>m. base < mp_base m + mp_len m \<and> mp_base m < base + len) (flatten (as_mappings sp))"

definition AddressSpace_find_exact :: "'a AddressSpace \<Rightarrow> 64 word \<Rightarrow> 64 word \<Rightarrow> nat option" where
  "AddressSpace_find_exact sp base len =
     position (\<lambda>slot. case slot of Some m \<Rightarrow> mp_base m = base \<and> mp_len m = len | None \<Rightarrow> False) (as_mappings sp)"

definition AddressSpace_record :: "'a AddressSpace \<Rightarrow> 64 word \<Rightarrow> 64 word \<Rightarrow> PageFlags \<Rightarrow> Backing \<Rightarrow> 'a AddressSpace" where
  "AddressSpace_record sp base len rights backing =
     (case free_slot (as_mappings sp) of
        None \<Rightarrow> sp
      | Some i \<Rightarrow>
          sp\<lparr>as_mappings := (as_mappings sp)[i := Some \<lparr>mp_base = base, mp_len = len, mp_rights = rights, mp_backing = backing\<rparr>],
             as_mapping_count := as_mapping_count sp + 1\<rparr>)"

subsection \<open>Reclaim\<close>

definition page_at :: "VirtAddr \<Rightarrow> nat \<Rightarrow> VirtAddr" where
  "page_at base i = base + of_nat i * FRAME_SIZE"

fun free_batch :: "'f FrameOps \<Rightarrow> 'a AddressSpace \<Rightarrow> 'f Phys \<Rightarrow> PhysFrame list \<Rightarrow> 'a AddressSpace \<times> 'f Phys" where
  "free_batch F sp ph [] = (sp, ph)"
| "free_batch F sp ph (f # fs) = (case vm_free F sp ph f of (sp', ph') \<Rightarrow> free_batch F sp' ph' fs)"

definition AddressSpace_release_batch ::
    "'f FrameOps \<Rightarrow> 'a AddressSpace \<Rightarrow> 'f Phys \<Rightarrow> PhysFrame list \<Rightarrow> 'a AddressSpace \<times> 'f Phys" where
  "AddressSpace_release_batch F sp ph batch =
     (if batch = [] then (sp, ph) else free_batch F (AddressSpace_shoot_down sp) ph batch)"

fun unmap_free_loop ::
    "('a, 'f) ArchOps \<Rightarrow> 'f FrameOps \<Rightarrow> 'a AddressSpace \<Rightarrow> 'f Phys \<Rightarrow> VirtAddr list \<Rightarrow> PhysFrame list \<Rightarrow> 64 word \<Rightarrow>
     64 word \<times> 'a AddressSpace \<times> 'f Phys" where
  "unmap_free_loop A F sp ph [] batch reclaimed =
     (case AddressSpace_release_batch F sp ph batch of (sp', ph') \<Rightarrow> (reclaimed, sp', ph'))"
| "unmap_free_loop A F sp ph (va # vas) batch reclaimed =
     (case vm_unmap A sp va of
        (Err _, sp1) \<Rightarrow> unmap_free_loop A F sp1 ph vas batch reclaimed
      | (Ok frame, sp1) \<Rightarrow>
          let batch' = batch @ [frame] in
          if length batch' = RECLAIM_BATCH
          then (case AddressSpace_release_batch F sp1 ph batch' of
                  (sp2, ph2) \<Rightarrow> unmap_free_loop A F sp2 ph2 vas [] (reclaimed + FRAME_SIZE))
          else unmap_free_loop A F sp1 ph vas batch' (reclaimed + FRAME_SIZE))"

definition AddressSpace_unmap_and_free ::
    "('a, 'f) ArchOps \<Rightarrow> 'f FrameOps \<Rightarrow> 'a AddressSpace \<Rightarrow> VirtAddr \<Rightarrow> nat \<Rightarrow> 'f Phys \<Rightarrow>
     64 word \<times> 'a AddressSpace \<times> 'f Phys" where
  "AddressSpace_unmap_and_free A F sp base pages ph =
     unmap_free_loop A F sp ph (map (page_at base) [0..<pages]) [] 0"

definition AddressSpace_rollback ::
    "('a, 'f) ArchOps \<Rightarrow> 'f FrameOps \<Rightarrow> 'a AddressSpace \<Rightarrow> VirtAddr \<Rightarrow> nat \<Rightarrow> 'f Phys \<Rightarrow> 'a AddressSpace \<times> 'f Phys" where
  "AddressSpace_rollback A F sp base pages_done ph = snd (AddressSpace_unmap_and_free A F sp base pages_done ph)"

definition sat_sub :: "64 word \<Rightarrow> 64 word \<Rightarrow> 64 word" where
  "sat_sub a b = (if a < b then 0 else a - b)"

definition page_count :: "64 word \<Rightarrow> nat" where
  "page_count len = unat (len div FRAME_SIZE)"

fun teardown_loop ::
    "('a, 'f) ArchOps \<Rightarrow> 'f FrameOps \<Rightarrow> 'a AddressSpace \<Rightarrow> 'f Phys \<Rightarrow> nat list \<Rightarrow> 'a AddressSpace \<times> 'f Phys" where
  "teardown_loop A F sp ph [] = (sp, ph)"
| "teardown_loop A F sp ph (idx # idxs) =
     (case as_mappings sp ! idx of
        None \<Rightarrow> teardown_loop A F sp ph idxs
      | Some m \<Rightarrow>
          (case AddressSpace_unmap_and_free A F (sp\<lparr>as_mappings := (as_mappings sp)[idx := None]\<rparr>)
                  (mp_base m) (page_count (mp_len m)) ph of
             (reclaimed, sp1, ph1) \<Rightarrow>
               teardown_loop A F
                 (sp1\<lparr>as_mapped_bytes := sat_sub (as_mapped_bytes sp1) reclaimed,
                      as_mapping_count := as_mapping_count sp1 - 1\<rparr>) ph1 idxs))"

definition AddressSpace_teardown ::
    "('a, 'f) ArchOps \<Rightarrow> 'f FrameOps \<Rightarrow> 'a AddressSpace \<Rightarrow> 'f Phys \<Rightarrow> 'a AddressSpace \<times> 'f Phys" where
  "AddressSpace_teardown A F sp ph =
     (case teardown_loop A F sp ph [0..<length (as_mappings sp)] of
        (sp1, ph1) \<Rightarrow>
          (case free_tables A (as_arch sp1) (ph_alloc ph1) of
             (a, s) \<Rightarrow> (sp1\<lparr>as_arch := a\<rparr>, ph1\<lparr>ph_alloc := s\<rparr>)))"

definition AddressSpace_reclaim_range ::
    "('a, 'f) ArchOps \<Rightarrow> 'f FrameOps \<Rightarrow> 'a AddressSpace \<Rightarrow> VirtAddr \<Rightarrow> 64 word \<Rightarrow> 'f Phys \<Rightarrow>
     unit res \<times> 'a AddressSpace \<times> 'f Phys" where
  "AddressSpace_reclaim_range A F sp base len ph =
     (case AddressSpace_find_exact sp base len of
        None \<Rightarrow> (Err NotMapped, sp, ph)
      | Some idx \<Rightarrow>
          (case AddressSpace_unmap_and_free A F sp base (page_count len) ph of
             (reclaimed, sp1, ph1) \<Rightarrow>
               (Ok (), sp1\<lparr>as_mapped_bytes := sat_sub (as_mapped_bytes sp1) reclaimed,
                           as_mappings := (as_mappings sp1)[idx := None],
                           as_mapping_count := as_mapping_count sp1 - 1\<rparr>, ph1)))"

subsection \<open>Mapping\<close>

text \<open>The checks \<open>map_anonymous\<close>, \<open>map_anonymous_demand\<close> and \<open>map_object\<close> open with.\<close>

definition map_checks :: "('a, 'f) ArchOps \<Rightarrow> 'a AddressSpace \<Rightarrow> VirtAddr \<Rightarrow> 64 word \<Rightarrow> PageFlags \<Rightarrow> unit res" where
  "map_checks A sp base len rights =
     (if \<not> is_aligned base FRAME_SIZE then Err Unaligned
      else if len = 0 \<or> len mod FRAME_SIZE \<noteq> 0 then Err InvalidMapping
      else if PageFlags_is_wx rights then Err WXViolation
      else case AddressSpace_check_user_bound A base len rights of
        Err e \<Rightarrow> Err e
      | Ok _ \<Rightarrow>
          if AddressSpace_overlaps sp base len then Err AlreadyMapped
          else if as_mapping_count sp \<ge> length (as_mappings sp) then Err OutOfMemory
          else Ok ())"

fun anonymous_loop ::
    "('a, 'f) ArchOps \<Rightarrow> 'f FrameOps \<Rightarrow> 'a AddressSpace \<Rightarrow> VirtAddr \<Rightarrow> PageFlags \<Rightarrow> 'f Phys \<Rightarrow> nat \<Rightarrow> nat \<Rightarrow>
     unit res \<times> 'a AddressSpace \<times> 'f Phys" where
  "anonymous_loop A F sp base rights ph pages_done 0 = (Ok (), sp, ph)"
| "anonymous_loop A F sp base rights ph pages_done (Suc left) =
     (case vm_alloc F ph of
        (None, ph1) \<Rightarrow> (Err OutOfMemory, AddressSpace_rollback A F sp base pages_done ph1)
      | (Some frame, ph1) \<Rightarrow>
          (case vm_map A sp (page_at base pages_done) frame rights
                  (ph1\<lparr>ph_mem := zero_frame (ph_mem ph1) frame\<rparr>) of
             (Err e, sp2, ph2) \<Rightarrow>
               (case vm_free F sp2 ph2 frame of
                  (sp3, ph3) \<Rightarrow> (Err e, AddressSpace_rollback A F sp3 base pages_done ph3))
           | (Ok _, sp2, ph2) \<Rightarrow> anonymous_loop A F sp2 base rights ph2 (Suc pages_done) left))"

definition AddressSpace_map_anonymous ::
    "('a, 'f) ArchOps \<Rightarrow> 'f FrameOps \<Rightarrow> 'a AddressSpace \<Rightarrow> VirtAddr \<Rightarrow> 64 word \<Rightarrow> PageFlags \<Rightarrow> 'f Phys \<Rightarrow>
     unit res \<times> 'a AddressSpace \<times> 'f Phys" where
  "AddressSpace_map_anonymous A F sp base len rights ph =
     (case map_checks A sp base len rights of
        Err e \<Rightarrow> (Err e, sp, ph)
      | Ok _ \<Rightarrow>
          (case anonymous_loop A F sp base rights ph 0 (page_count len) of
             (Err e, sp1, ph1) \<Rightarrow> (Err e, sp1, ph1)
           | (Ok _, sp1, ph1) \<Rightarrow>
               let sp2 = AddressSpace_record sp1 base len rights Anonymous
               in (Ok (), sp2\<lparr>as_mapped_bytes := as_mapped_bytes sp2 + len\<rparr>, ph1)))"

definition AddressSpace_map_anonymous_demand ::
    "('a, 'f) ArchOps \<Rightarrow> 'a AddressSpace \<Rightarrow> VirtAddr \<Rightarrow> 64 word \<Rightarrow> PageFlags \<Rightarrow> unit res \<times> 'a AddressSpace" where
  "AddressSpace_map_anonymous_demand A sp base len rights =
     (case map_checks A sp base len rights of
        Err e \<Rightarrow> (Err e, sp)
      | Ok _ \<Rightarrow> (Ok (), AddressSpace_record sp base len rights AnonymousDemand))"

definition AddressSpace_map_object ::
    "('a, 'f) ArchOps \<Rightarrow> 'a AddressSpace \<Rightarrow> VirtAddr \<Rightarrow> 64 word \<Rightarrow> PageFlags \<Rightarrow> ObjectId \<Rightarrow> 64 word \<Rightarrow>
     unit res \<times> 'a AddressSpace" where
  "AddressSpace_map_object A sp base len rights object base_offset =
     (case map_checks A sp base len rights of
        Err e \<Rightarrow> (Err e, sp)
      | Ok _ \<Rightarrow> (Ok (), AddressSpace_record sp base len rights (Object object base_offset)))"

fun release_loop ::
    "('a, 'f) ArchOps \<Rightarrow> 'f FrameOps \<Rightarrow> 'a AddressSpace \<Rightarrow> VirtAddr \<Rightarrow> PhysFrame list \<Rightarrow> 'f Phys \<Rightarrow> nat list \<Rightarrow>
     'a AddressSpace \<times> 'f Phys" where
  "release_loop A F sp base frames ph [] = (sp, ph)"
| "release_loop A F sp base frames ph (page # ps) =
     (let sp1 = snd (vm_unmap A sp (page_at base page)) in
      case get_opt frames page of
        None \<Rightarrow> release_loop A F sp1 base frames ph ps
      | Some frame \<Rightarrow>
          (case vm_free F sp1 ph frame of (sp2, ph2) \<Rightarrow> release_loop A F sp2 base frames ph2 ps))"

definition AddressSpace_unmap_and_release ::
    "('a, 'f) ArchOps \<Rightarrow> 'f FrameOps \<Rightarrow> 'a AddressSpace \<Rightarrow> VirtAddr \<Rightarrow> nat \<Rightarrow> PhysFrame list \<Rightarrow> 'f Phys \<Rightarrow>
     'a AddressSpace \<times> 'f Phys" where
  "AddressSpace_unmap_and_release A F sp base pages frames ph = release_loop A F sp base frames ph [0..<pages]"

fun shared_loop ::
    "('a, 'f) ArchOps \<Rightarrow> 'f FrameOps \<Rightarrow> 'a AddressSpace \<Rightarrow> VirtAddr \<Rightarrow> PageFlags \<Rightarrow> PhysFrame list \<Rightarrow> 'f Phys \<Rightarrow>
     nat \<Rightarrow> PhysFrame list \<Rightarrow> unit res \<times> 'a AddressSpace \<times> 'f Phys" where
  "shared_loop A F sp base rights frames ph page [] = (Ok (), sp, ph)"
| "shared_loop A F sp base rights frames ph page (frame # fs) =
     (case vm_map A sp (page_at base page) frame rights (vm_retain F ph frame) of
        (Err e, sp1, ph1) \<Rightarrow>
          (case vm_free F sp1 ph1 frame of
             (sp2, ph2) \<Rightarrow> (Err e, AddressSpace_unmap_and_release A F sp2 base page frames ph2))
      | (Ok _, sp1, ph1) \<Rightarrow> shared_loop A F sp1 base rights frames ph1 (Suc page) fs)"

definition AddressSpace_map_shared ::
    "('a, 'f) ArchOps \<Rightarrow> 'f FrameOps \<Rightarrow> 'a AddressSpace \<Rightarrow> VirtAddr \<Rightarrow> PageFlags \<Rightarrow> ObjectId \<Rightarrow> 64 word \<Rightarrow>
     PhysFrame list \<Rightarrow> 'f Phys \<Rightarrow> unit res \<times> 'a AddressSpace \<times> 'f Phys" where
  "AddressSpace_map_shared A F sp base rights object base_offset frames ph =
     (if \<not> is_aligned base FRAME_SIZE then (Err Unaligned, sp, ph)
      else if frames = [] then (Err InvalidMapping, sp, ph)
      else if PageFlags_is_wx rights then (Err WXViolation, sp, ph)
      else
        let len = of_nat (length frames) * FRAME_SIZE in
        (case AddressSpace_check_user_bound A base len rights of
           Err e \<Rightarrow> (Err e, sp, ph)
         | Ok _ \<Rightarrow>
             if AddressSpace_overlaps sp base len then (Err AlreadyMapped, sp, ph)
             else if as_mapping_count sp \<ge> length (as_mappings sp) then (Err OutOfMemory, sp, ph)
             else (case shared_loop A F sp base rights frames ph 0 frames of
                     (Err e, sp1, ph1) \<Rightarrow> (Err e, sp1, ph1)
                   | (Ok _, sp1, ph1) \<Rightarrow>
                       let sp2 = AddressSpace_record sp1 base len rights (Shared object base_offset)
                       in (Ok (), sp2\<lparr>as_mapped_bytes := as_mapped_bytes sp2 + len\<rparr>, ph1))))"

definition AddressSpace_map_device_page ::
    "('a, 'f) ArchOps \<Rightarrow> 'a AddressSpace \<Rightarrow> VirtAddr \<Rightarrow> PhysFrame \<Rightarrow> DeviceReach \<Rightarrow> 'f Phys \<Rightarrow>
     unit res \<times> 'a AddressSpace \<times> 'f Phys" where
  "AddressSpace_map_device_page A sp va frame reach ph = vm_map A sp va frame (DeviceReach_flags reach) ph"

fun unmap_pages_loop :: "('a, 'f) ArchOps \<Rightarrow> 'a AddressSpace \<Rightarrow> VirtAddr list \<Rightarrow> 'a AddressSpace" where
  "unmap_pages_loop A sp [] = sp"
| "unmap_pages_loop A sp (va # vas) = unmap_pages_loop A (snd (vm_unmap A sp va)) vas"

definition AddressSpace_unmap_device_pages :: "('a, 'f) ArchOps \<Rightarrow> 'a AddressSpace \<Rightarrow> VirtAddr \<Rightarrow> nat \<Rightarrow> 'a AddressSpace" where
  "AddressSpace_unmap_device_pages A sp va pages =
     AddressSpace_shoot_down (unmap_pages_loop A sp (map (page_at va) [0..<pages]))"

definition AddressSpace_unmap_device_page :: "('a, 'f) ArchOps \<Rightarrow> 'a AddressSpace \<Rightarrow> VirtAddr \<Rightarrow> unit res \<times> 'a AddressSpace" where
  "AddressSpace_unmap_device_page A sp va =
     (case vm_unmap A sp va of
        (Err e, sp1) \<Rightarrow> (Err e, sp1)
      | (Ok _, sp1) \<Rightarrow> (Ok (), AddressSpace_shoot_down sp1))"

fun device_loop ::
    "('a, 'f) ArchOps \<Rightarrow> 'a AddressSpace \<Rightarrow> VirtAddr \<Rightarrow> PhysFrame \<Rightarrow> DeviceReach \<Rightarrow> 'f Phys \<Rightarrow> nat \<Rightarrow> nat \<Rightarrow>
     unit res \<times> 'a AddressSpace \<times> 'f Phys" where
  "device_loop A sp va first reach ph page 0 = (Ok (), sp, ph)"
| "device_loop A sp va first reach ph page (Suc left) =
     (case PhysFrame_from_base (page_at first page) of
        None \<Rightarrow> (Err Unaligned, AddressSpace_unmap_device_pages A sp va page, ph)
      | Some frame \<Rightarrow>
          (case AddressSpace_map_device_page A sp (page_at va page) frame reach ph of
             (Err e, sp1, ph1) \<Rightarrow> (Err e, AddressSpace_unmap_device_pages A sp1 va page, ph1)
           | (Ok _, sp1, ph1) \<Rightarrow> device_loop A sp1 va first reach ph1 (Suc page) left))"

definition AddressSpace_map_device_range ::
    "('a, 'f) ArchOps \<Rightarrow> 'a AddressSpace \<Rightarrow> VirtAddr \<Rightarrow> PhysFrame \<Rightarrow> nat \<Rightarrow> DeviceReach \<Rightarrow> 'f Phys \<Rightarrow>
     unit res \<times> 'a AddressSpace \<times> 'f Phys" where
  "AddressSpace_map_device_range A sp va first pages reach ph = device_loop A sp va first reach ph 0 pages"

subsection \<open>Pager-backed pages\<close>

definition page_of :: "VirtAddr \<Rightarrow> VirtAddr" where
  "page_of va = va AND NOT (FRAME_SIZE - 1)"

definition AddressSpace_supply_page ::
    "('a, 'f) ArchOps \<Rightarrow> 'a AddressSpace \<Rightarrow> VirtAddr \<Rightarrow> PhysFrame \<Rightarrow> 'f Phys \<Rightarrow> unit res \<times> 'a AddressSpace \<times> 'f Phys" where
  "AddressSpace_supply_page A sp va frame ph =
     (case AddressSpace_mapping_covering sp va of
        None \<Rightarrow> (Err NotMapped, sp, ph)
      | Some m \<Rightarrow>
          (case vm_map A sp (page_of va) frame (read_only (mp_rights m)) ph of
             (Err e, sp1, ph1) \<Rightarrow> (Err e, sp1, ph1)
           | (Ok _, sp1, ph1) \<Rightarrow> (Ok (), sp1\<lparr>as_mapped_bytes := as_mapped_bytes sp1 + FRAME_SIZE\<rparr>, ph1)))"

definition AddressSpace_install_object_page ::
    "('a, 'f) ArchOps \<Rightarrow> 'f FrameOps \<Rightarrow> 'a AddressSpace \<Rightarrow> VirtAddr \<Rightarrow> PhysFrame \<Rightarrow> 'f Phys \<Rightarrow>
     unit res \<times> 'a AddressSpace \<times> 'f Phys" where
  "AddressSpace_install_object_page A F sp va frame ph =
     (case AddressSpace_supply_page A sp va frame (vm_retain F ph frame) of
        (Ok _, sp1, ph1) \<Rightarrow> (Ok (), sp1, ph1)
      | (Err e, sp1, ph1) \<Rightarrow> (Err e, vm_free F sp1 ph1 frame))"

definition AddressSpace_grant_write :: "('a, 'f) ArchOps \<Rightarrow> 'a AddressSpace \<Rightarrow> VirtAddr \<Rightarrow> unit res \<times> 'a AddressSpace" where
  "AddressSpace_grant_write A sp va =
     (case AddressSpace_mapping_covering sp va of
        None \<Rightarrow> (Err NotMapped, sp)
      | Some m \<Rightarrow> vm_protect A sp (page_of va) (mp_rights m))"

definition AddressSpace_reprotect_ro :: "('a, 'f) ArchOps \<Rightarrow> 'a AddressSpace \<Rightarrow> VirtAddr \<Rightarrow> unit res \<times> 'a AddressSpace" where
  "AddressSpace_reprotect_ro A sp va =
     (case AddressSpace_mapping_covering sp va of
        None \<Rightarrow> (Err NotMapped, sp)
      | Some m \<Rightarrow> vm_protect A sp (page_of va) (read_only (mp_rights m)))"

definition AddressSpace_evict_page ::
    "('a, 'f) ArchOps \<Rightarrow> 'f FrameOps \<Rightarrow> 'a AddressSpace \<Rightarrow> VirtAddr \<Rightarrow> 'f Phys \<Rightarrow> unit res \<times> 'a AddressSpace \<times> 'f Phys" where
  "AddressSpace_evict_page A F sp va ph =
     (case translate A (as_arch sp) (page_of va) of
        None \<Rightarrow> (Err NotMapped, sp, ph)
      | Some (frame, _) \<Rightarrow>
          (case vm_unmap A sp (page_of va) of
             (Err e, sp1) \<Rightarrow> (Err e, sp1, ph)
           | (Ok _, sp1) \<Rightarrow>
               (case vm_free F (AddressSpace_shoot_down sp1) ph frame of
                  (sp2, ph2) \<Rightarrow> (Ok (), sp2\<lparr>as_mapped_bytes := sat_sub (as_mapped_bytes sp2) FRAME_SIZE\<rparr>, ph2))))"

subsection \<open>Fault resolution\<close>

definition AddressSpace_demand_fill ::
    "('a, 'f) ArchOps \<Rightarrow> 'f FrameOps \<Rightarrow> 'a AddressSpace \<Rightarrow> VirtAddr \<Rightarrow> PageFlags \<Rightarrow> 'f Phys \<Rightarrow>
     FaultOutcome \<times> 'a AddressSpace \<times> 'f Phys" where
  "AddressSpace_demand_fill A F sp page rights ph =
     (case vm_alloc F ph of
        (None, ph1) \<Rightarrow> (Unresolvable, sp, ph1)
      | (Some frame, ph1) \<Rightarrow>
          (case vm_map A sp page frame rights (ph1\<lparr>ph_mem := zero_frame (ph_mem ph1) frame\<rparr>) of
             (Err _, sp2, ph2) \<Rightarrow> (Unresolvable, vm_free F sp2 ph2 frame)
           | (Ok _, sp2, ph2) \<Rightarrow> (Filled, sp2\<lparr>as_mapped_bytes := as_mapped_bytes sp2 + FRAME_SIZE\<rparr>, ph2)))"

definition AddressSpace_cow_copy ::
    "('a, 'f) ArchOps \<Rightarrow> 'f FrameOps \<Rightarrow> 'a AddressSpace \<Rightarrow> VirtAddr \<Rightarrow> PageFlags \<Rightarrow> 'f Phys \<Rightarrow>
     FaultOutcome \<times> 'a AddressSpace \<times> 'f Phys" where
  "AddressSpace_cow_copy A F sp page rights ph =
     (case translate A (as_arch sp) page of
        None \<Rightarrow> (Unresolvable, sp, ph)
      | Some (shared, flags) \<Rightarrow>
          if PageFlags_writable flags then (Unresolvable, sp, ph)
          else (case vm_alloc F ph of
             (None, ph1) \<Rightarrow> (Unresolvable, sp, ph1)
           | (Some private, ph1) \<Rightarrow>
               let ph2 = ph1\<lparr>ph_mem := copy_frame (ph_mem ph1) private shared\<rparr> in
               (case vm_unmap A sp page of
                  (Err _, sp2) \<Rightarrow> (Unresolvable, vm_free F sp2 ph2 private)
                | (Ok _, sp2) \<Rightarrow>
                    (case vm_map A sp2 page private rights ph2 of
                       (Err _, sp3, ph3) \<Rightarrow> (Unresolvable, vm_free F sp3 ph3 private)
                     | (Ok _, sp3, ph3) \<Rightarrow> (Copied, vm_free F sp3 ph3 shared)))))"

definition AddressSpace_resolve_fault ::
    "('a, 'f) ArchOps \<Rightarrow> 'f FrameOps \<Rightarrow> 'a AddressSpace \<Rightarrow> VirtAddr \<Rightarrow> bool \<Rightarrow> 'f Phys \<Rightarrow>
     FaultOutcome \<times> 'a AddressSpace \<times> 'f Phys" where
  "AddressSpace_resolve_fault A F sp virt write ph =
     (case AddressSpace_mapping_covering sp virt of
        None \<Rightarrow> (Unresolvable, sp, ph)
      | Some m \<Rightarrow>
          let page = page_of virt; rights = mp_rights m in
          (case mp_backing m of
             AnonymousDemand \<Rightarrow>
               if translate A (as_arch sp) page \<noteq> None then (Unresolvable, sp, ph)
               else AddressSpace_demand_fill A F sp page rights ph
           | Cow \<Rightarrow> if write then AddressSpace_cow_copy A F sp page rights ph else (Unresolvable, sp, ph)
           | Object object base_offset \<Rightarrow>
               let offset = (page - mp_base m) + base_offset in
               (case translate A (as_arch sp) page of
                  None \<Rightarrow> (NeedsPageIn object offset, sp, ph)
                | Some (_, flags) \<Rightarrow>
                    if write \<and> \<not> PageFlags_writable flags \<and> PageFlags_writable rights
                    then (WriteToClean object offset, sp, ph)
                    else (Unresolvable, sp, ph))
           | Anonymous \<Rightarrow> (Unresolvable, sp, ph)
           | Shared _ _ \<Rightarrow> (Unresolvable, sp, ph)))"

subsection \<open>Snapshots, unmapping, protection and loading\<close>

fun snapshot_loop ::
    "('a, 'f) ArchOps \<Rightarrow> 'f FrameOps \<Rightarrow> 'a AddressSpace \<Rightarrow> VirtAddr \<Rightarrow> VirtAddr \<Rightarrow> PageFlags \<Rightarrow> 'f Phys \<Rightarrow> nat list \<Rightarrow>
     unit res \<times> 'a AddressSpace \<times> 'f Phys" where
  "snapshot_loop A F sp src_base dst_base ro ph [] = (Ok (), sp, ph)"
| "snapshot_loop A F sp src_base dst_base ro ph (i # is) =
     (case translate A (as_arch sp) (page_at src_base i) of
        None \<Rightarrow> (Err NotMapped, sp, ph)
      | Some (frame, _) \<Rightarrow>
          let ph1 = vm_retain F ph frame in
          (case vm_protect A sp (page_at src_base i) ro of
             (Err e, sp1) \<Rightarrow> (Err e, sp1, ph1)
           | (Ok _, sp1) \<Rightarrow>
               (case vm_map A sp1 (page_at dst_base i) frame ro ph1 of
                  (Err e, sp2, ph2) \<Rightarrow> (Err e, sp2, ph2)
                | (Ok _, sp2, ph2) \<Rightarrow> snapshot_loop A F sp2 src_base dst_base ro ph2 is)))"

definition AddressSpace_snapshot_cow ::
    "('a, 'f) ArchOps \<Rightarrow> 'f FrameOps \<Rightarrow> 'a AddressSpace \<Rightarrow> VirtAddr \<Rightarrow> VirtAddr \<Rightarrow> 64 word \<Rightarrow> 'f Phys \<Rightarrow>
     unit res \<times> 'a AddressSpace \<times> 'f Phys" where
  "AddressSpace_snapshot_cow A F sp src_base dst_base len ph =
     (if \<not> is_aligned src_base FRAME_SIZE \<or> \<not> is_aligned dst_base FRAME_SIZE then (Err Unaligned, sp, ph)
      else if len = 0 \<or> len mod FRAME_SIZE \<noteq> 0 then (Err InvalidMapping, sp, ph)
      else case AddressSpace_find_exact sp src_base len of
        None \<Rightarrow> (Err NotMapped, sp, ph)
      | Some src_idx \<Rightarrow>
          if AddressSpace_overlaps sp dst_base len then (Err AlreadyMapped, sp, ph)
          else if as_mapping_count sp \<ge> length (as_mappings sp) then (Err OutOfMemory, sp, ph)
          else case as_mappings sp ! src_idx of
            None \<Rightarrow> (Err NotMapped, sp, ph)
          | Some mapping \<Rightarrow>
              let rights = mp_rights mapping in
              (case snapshot_loop A F sp src_base dst_base (read_only rights) ph [0..<page_count len] of
                 (Err e, sp1, ph1) \<Rightarrow> (Err e, sp1, ph1)
               | (Ok _, sp1, ph1) \<Rightarrow>
                   let sp2 = sp1\<lparr>as_mappings := (as_mappings sp1)[src_idx :=
                               map_option (\<lambda>m. m\<lparr>mp_backing := Cow\<rparr>) (as_mappings sp1 ! src_idx)]\<rparr>;
                       sp3 = AddressSpace_record sp2 dst_base len rights Cow
                   in (Ok (), sp3\<lparr>as_mapped_bytes := as_mapped_bytes sp3 + len\<rparr>, ph1)))"

fun unmap_range_loop :: "('a, 'f) ArchOps \<Rightarrow> 'a AddressSpace \<Rightarrow> VirtAddr list \<Rightarrow> unit res \<times> 'a AddressSpace" where
  "unmap_range_loop A sp [] = (Ok (), sp)"
| "unmap_range_loop A sp (va # vas) =
     (case vm_unmap A sp va of
        (Err e, sp1) \<Rightarrow> (Err e, sp1)
      | (Ok _, sp1) \<Rightarrow> unmap_range_loop A sp1 vas)"

definition AddressSpace_unmap_range :: "('a, 'f) ArchOps \<Rightarrow> 'a AddressSpace \<Rightarrow> VirtAddr \<Rightarrow> 64 word \<Rightarrow> unit res \<times> 'a AddressSpace" where
  "AddressSpace_unmap_range A sp base len =
     (case AddressSpace_find_exact sp base len of
        None \<Rightarrow> (Err NotMapped, sp)
      | Some idx \<Rightarrow>
          if (case as_mappings sp ! idx of Some m \<Rightarrow> (case mp_backing m of Shared _ _ \<Rightarrow> True | _ \<Rightarrow> False) | None \<Rightarrow> False)
          then (Err WrongType, sp)
          else (case unmap_range_loop A sp (map (page_at base) [0..<page_count len]) of
                  (Err e, sp1) \<Rightarrow> (Err e, sp1)
                | (Ok _, sp1) \<Rightarrow>
                    let sp2 = AddressSpace_shoot_down sp1
                    in (Ok (), sp2\<lparr>as_mappings := (as_mappings sp2)[idx := None],
                                  as_mapping_count := as_mapping_count sp2 - 1,
                                  as_mapped_bytes := as_mapped_bytes sp2 - len\<rparr>)))"

fun protect_loop :: "('a, 'f) ArchOps \<Rightarrow> 'a AddressSpace \<Rightarrow> PageFlags \<Rightarrow> VirtAddr list \<Rightarrow> unit res \<times> 'a AddressSpace" where
  "protect_loop A sp rights [] = (Ok (), sp)"
| "protect_loop A sp rights (va # vas) =
     (case vm_protect A sp va rights of
        (Err e, sp1) \<Rightarrow> (Err e, sp1)
      | (Ok _, sp1) \<Rightarrow> protect_loop A sp1 rights vas)"

definition AddressSpace_protect_range ::
    "('a, 'f) ArchOps \<Rightarrow> 'a AddressSpace \<Rightarrow> VirtAddr \<Rightarrow> 64 word \<Rightarrow> PageFlags \<Rightarrow> unit res \<times> 'a AddressSpace" where
  "AddressSpace_protect_range A sp base len rights =
     (if PageFlags_is_wx rights then (Err WXViolation, sp)
      else case AddressSpace_find_exact sp base len of
        None \<Rightarrow> (Err NotMapped, sp)
      | Some idx \<Rightarrow>
          (case protect_loop A sp rights (map (page_at base) [0..<page_count len]) of
             (Err e, sp1) \<Rightarrow> (Err e, sp1)
           | (Ok _, sp1) \<Rightarrow>
               let sp2 = AddressSpace_shoot_down sp1
               in (Ok (), sp2\<lparr>as_mappings := (as_mappings sp2)[idx :=
                     map_option (\<lambda>m. m\<lparr>mp_rights := rights\<rparr>) (as_mappings sp2 ! idx)]\<rparr>)))"

function copy_in_loop ::
    "('a, 'f) ArchOps \<Rightarrow> 'a AddressSpace \<Rightarrow> VirtAddr \<Rightarrow> 8 word list \<Rightarrow> nat \<Rightarrow> 'f Phys \<Rightarrow> unit res \<times> 'f Phys" where
  "copy_in_loop A sp dst src written ph =
     (if written < length src
      then case translate A (as_arch sp) (dst + of_nat written) of
        None \<Rightarrow> (Err NotMapped, ph)
      | Some (frame, _) \<Rightarrow>
          let chunk = min (length src - written) 4096 in
          copy_in_loop A sp dst src (written + chunk)
            (ph\<lparr>ph_mem := write_bytes_to_frame (ph_mem ph) frame 0 (take chunk (drop written src))\<rparr>)
      else (Ok (), ph))"
  by pat_completeness auto
termination
  by (relation "measure (\<lambda>(A, sp, dst, src, written, ph). length src - written)") (auto simp: min_def)

declare copy_in_loop.simps [simp del]

definition AddressSpace_copy_in ::
    "('a, 'f) ArchOps \<Rightarrow> 'a AddressSpace \<Rightarrow> VirtAddr \<Rightarrow> 8 word list \<Rightarrow> 'f Phys \<Rightarrow> unit res \<times> 'f Phys" where
  "AddressSpace_copy_in A sp dst src ph =
     (if \<not> is_aligned dst FRAME_SIZE then (Err Unaligned, ph) else copy_in_loop A sp dst src 0 ph)"

subsection \<open>Pages of a range\<close>

lemma mod_FRAME_SIZE: "len mod FRAME_SIZE = 0 \<longleftrightarrow> is_aligned len FRAME_SIZE"
proof -
  have "len mod FRAME_SIZE = 0 \<longleftrightarrow> unat (len mod FRAME_SIZE) = 0" by (simp add: unat_eq_zero)
  then show ?thesis by (simp add: unat_mod is_aligned_dvd dvd_eq_mod_eq_0)
qed

lemma page_at_aligned: "is_aligned base FRAME_SIZE \<Longrightarrow> is_aligned (page_at base i) FRAME_SIZE"
  unfolding page_at_def by (intro aligned_add aligned_mult)

lemma page_of_aligned [simp]: "is_aligned (page_of va) FRAME_SIZE"
  using align_down_aligned [of va] by (simp add: align_down_def page_of_def)

lemma page_at_inj:
  assumes "i < 2 ^ 52" "j < 2 ^ 52" "page_at base i = page_at base j"
  shows "i = j"
proof -
  have u: "unat (of_nat k * FRAME_SIZE :: 64 word) = k * 4096" if "k < 2 ^ 52" for k :: nat
    using that by (simp add: unat_word_ariths unat_of_nat)
  from assms(3) have "(of_nat i * FRAME_SIZE :: 64 word) = of_nat j * FRAME_SIZE" by (simp add: page_at_def)
  then have "i * 4096 = j * 4096" using u [OF assms(1)] u [OF assms(2)] by metis
  then show ?thesis by simp
qed

lemma distinct_pages: "n \<le> 2 ^ 52 \<Longrightarrow> distinct (map (page_at base) [0..<n])"
  by (auto simp: distinct_map inj_on_def intro: page_at_inj)

lemma page_count_le: "page_count len \<le> 2 ^ 52"
proof -
  have "unat len < 2 ^ 64" using unsigned_less [of len] by simp
  then show ?thesis by (simp add: page_count_def unat_div)
qed

lemma distinct_range [simp]: "distinct (map (page_at base) [0..<page_count len])"
  using page_count_le by (rule distinct_pages)

definition page_frames :: "(VirtAddr \<Rightarrow> (PhysFrame \<times> PageFlags) option) \<Rightarrow> VirtAddr list \<Rightarrow> PhysFrame list" where
  "page_frames P vas = concat (map (\<lambda>va. case P va of Some (f, _) \<Rightarrow> [f] | None \<Rightarrow> []) vas)"

lemma page_frames_simps [simp]:
  "page_frames P [] = []"
  "page_frames P (va # vas) = (case P va of Some (f, _) \<Rightarrow> [f] | None \<Rightarrow> []) @ page_frames P vas"
  "page_frames P (vas @ vas') = page_frames P vas @ page_frames P vas'"
  by (simp_all add: page_frames_def)

lemma page_frames_cong: "(\<And>va. va \<in> set vas \<Longrightarrow> P va = Q va) \<Longrightarrow> page_frames P vas = page_frames Q vas"
  by (induction vas) auto

lemma page_frames_upd [simp]: "va \<notin> set vas \<Longrightarrow> page_frames (P(va := x)) vas = page_frames P vas"
  by (rule page_frames_cong) auto

definition same_table :: "'a AddressSpace \<Rightarrow> 'a AddressSpace \<Rightarrow> bool" where
  "same_table sp sp' \<longleftrightarrow> as_mappings sp' = as_mappings sp \<and> as_mapping_count sp' = as_mapping_count sp \<and>
     as_mapped_bytes sp' = as_mapped_bytes sp"

lemma same_table_refl [simp]: "same_table sp sp"
  by (simp add: same_table_def)

lemma same_table_trans: "same_table a b \<Longrightarrow> same_table b c \<Longrightarrow> same_table a c"
  by (simp add: same_table_def)

subsection \<open>Clients of the two contracts\<close>

lemma shoot_down_simps [simp]:
  "as_arch (AddressSpace_shoot_down sp) = as_arch sp" "same_table sp (AddressSpace_shoot_down sp)"
  "as_log (AddressSpace_shoot_down sp) = as_log sp @ [TlbShootdown]"
  by (simp_all add: AddressSpace_shoot_down_def same_table_def)

lemma vm_free_simps [simp]:
  "as_arch (fst (vm_free F sp ph f)) = as_arch sp" "same_table sp (fst (vm_free F sp ph f))"
  "as_log (fst (vm_free F sp ph f)) = as_log sp @ [TlbFree f]"
  "ph_mem (snd (vm_free F sp ph f)) = ph_mem ph"
  "ph_alloc (snd (vm_free F sp ph f)) = free_frame F (ph_alloc ph) f"
  by (simp_all add: vm_free_def same_table_def)

lemma free_batch_simps:
  "as_arch (fst (free_batch F sp ph fs)) = as_arch sp \<and> same_table sp (fst (free_batch F sp ph fs)) \<and>
   as_log (fst (free_batch F sp ph fs)) = as_log sp @ map TlbFree fs \<and>
   ph_mem (snd (free_batch F sp ph fs)) = ph_mem ph \<and>
   ph_alloc (snd (free_batch F sp ph fs)) = foldl (free_frame F) (ph_alloc ph) fs"
proof (induction fs arbitrary: sp ph)
  case (Cons f fs)
  obtain sp1 ph1 where e: "vm_free F sp ph f = (sp1, ph1)" by fastforce
  note v = vm_free_simps [where F = F and sp = sp and ph = ph and f = f, unfolded e, simplified]
  from Cons [of sp1 ph1] v e show ?case by (auto intro: same_table_trans)
qed simp

lemma release_batch_simps:
  assumes "AddressSpace_release_batch F sp ph batch = (sp', ph')"
  shows "as_arch sp' = as_arch sp" "same_table sp sp'" "ph_mem ph' = ph_mem ph"
    "ph_alloc ph' = foldl (free_frame F) (ph_alloc ph) batch"
    "as_log sp' = as_log sp @ (if batch = [] then [] else TlbShootdown # map TlbFree batch)"
  using assms free_batch_simps [of F "AddressSpace_shoot_down sp" ph batch]
  by (auto simp: AddressSpace_release_batch_def split: if_splits intro: same_table_trans [OF shoot_down_simps(2)])

context arch_space
begin

lemma vm_unmap_law:
  assumes "arch_ok (as_arch sp)" "is_aligned va FRAME_SIZE" "vm_unmap A sp va = (r, sp')"
  shows "arch_ok (as_arch sp')" "tables (as_arch sp') = tables (as_arch sp)" "same_table sp sp'"
    "case r of Ok f \<Rightarrow> (\<exists>fl. pages (as_arch sp) va = Some (f, fl)) \<and> pages (as_arch sp') = (pages (as_arch sp))(va := None)
     | Err _ \<Rightarrow> pages (as_arch sp) va = None \<and> pages (as_arch sp') = pages (as_arch sp)"
    "as_log sp' = as_log sp @ (case r of Ok f \<Rightarrow> [TlbUnmap f] | Err _ \<Rightarrow> [])"
proof -
  obtain a where a: "unmap_page A (as_arch sp) va = (r, a)"
    "sp' = sp\<lparr>as_arch := a, as_log := as_log sp @ (case r of Ok f \<Rightarrow> [TlbUnmap f] | Err _ \<Rightarrow> [])\<rparr>"
    using assms(3) by (auto simp: vm_unmap_def split: prod.splits)
  note l = unmap_law [OF assms(1,2) a(1)]
  show "arch_ok (as_arch sp')" "tables (as_arch sp') = tables (as_arch sp)" "same_table sp sp'"
    "case r of Ok f \<Rightarrow> (\<exists>fl. pages (as_arch sp) va = Some (f, fl)) \<and> pages (as_arch sp') = (pages (as_arch sp))(va := None)
     | Err _ \<Rightarrow> pages (as_arch sp) va = None \<and> pages (as_arch sp') = pages (as_arch sp)"
    "as_log sp' = as_log sp @ (case r of Ok f \<Rightarrow> [TlbUnmap f] | Err _ \<Rightarrow> [])"
    using l a(2) by (auto simp: same_table_def split: res.splits)
qed

lemma vm_map_law:
  assumes "arch_ok (as_arch sp)" "is_aligned f FRAME_SIZE" "frames_ok (ph_alloc ph) (M + tables (as_arch sp))"
    "vm_map A sp va f fl ph = (r, sp', ph')"
  shows "arch_ok (as_arch sp')" "frames_ok (ph_alloc ph') (M + tables (as_arch sp'))" "same_table sp sp'"
    "case r of
       Ok _ \<Rightarrow> is_aligned va FRAME_SIZE \<and> \<not> PageFlags_is_wx fl \<and> pages (as_arch sp) va = None \<and>
         pages (as_arch sp') = (pages (as_arch sp))(va \<mapsto> (f, fl))
     | Err _ \<Rightarrow> pages (as_arch sp') = pages (as_arch sp)"
    "as_log sp' = as_log sp" "ph_mem ph' = ph_mem ph"
proof -
  obtain a s where a: "map_page A (as_arch sp) va f fl (ph_alloc ph) = (r, a, s)"
    "sp' = sp\<lparr>as_arch := a\<rparr>" "ph' = ph\<lparr>ph_alloc := s\<rparr>"
    using assms(4) by (auto simp: vm_map_def split: prod.splits)
  note l = map_law [OF assms(1-3) a(1)]
  show "arch_ok (as_arch sp')" "frames_ok (ph_alloc ph') (M + tables (as_arch sp'))" "same_table sp sp'"
    "case r of
       Ok _ \<Rightarrow> is_aligned va FRAME_SIZE \<and> \<not> PageFlags_is_wx fl \<and> pages (as_arch sp) va = None \<and>
         pages (as_arch sp') = (pages (as_arch sp))(va \<mapsto> (f, fl))
     | Err _ \<Rightarrow> pages (as_arch sp') = pages (as_arch sp)"
    "as_log sp' = as_log sp" "ph_mem ph' = ph_mem ph"
    using l a(2,3) by (auto simp: same_table_def split: res.splits)
qed

lemma vm_alloc_law:
  assumes "frames_ok (ph_alloc ph) M" "vm_alloc F ph = (r, ph')"
  shows "ph_mem ph' = ph_mem ph"
    "case r of Some f \<Rightarrow> f \<notin># M \<and> is_aligned f FRAME_SIZE \<and> frames_ok (ph_alloc ph') (add_mset f M)
     | None \<Rightarrow> frames_ok (ph_alloc ph') M"
  using assms alloc_fresh [OF assms(1)] alloc_exhausted [OF assms(1)]
  by (auto simp: vm_alloc_def split: prod.splits option.splits)

text \<open>Reclaim returns exactly the frames of the pages it takes down.\<close>

lemma unmap_free_loop_spec:
  assumes "arch_ok (as_arch sp)" "\<forall>va \<in> set vas. is_aligned va FRAME_SIZE" "distinct vas"
    "frames_ok (ph_alloc ph) (mset (batch @ page_frames (pages (as_arch sp)) vas) + M + tables (as_arch sp))"
    "unmap_free_loop A F sp ph vas batch n = (n', sp', ph')"
  shows "arch_ok (as_arch sp') \<and> tables (as_arch sp') = tables (as_arch sp) \<and> same_table sp sp' \<and>
    pages (as_arch sp') = (\<lambda>va. if va \<in> set vas then None else pages (as_arch sp) va) \<and>
    frames_ok (ph_alloc ph') (M + tables (as_arch sp')) \<and> ph_mem ph' = ph_mem ph"
  using assms
proof (induction vas arbitrary: sp ph batch n)
  case Nil
  obtain sp1 ph1 where rb: "AddressSpace_release_batch F sp ph batch = (sp1, ph1)" by fastforce
  note r = release_batch_simps [OF rb]
  have "frames_ok (ph_alloc ph1) (M + tables (as_arch sp))"
    unfolding r(4) using Nil(4) by (intro free_all) (simp add: ac_simps)
  with Nil rb r show ?case by auto
next
  case (Cons va vas)
  obtain u sp1 where u: "vm_unmap A sp va = (u, sp1)" by fastforce
  have al: "is_aligned va FRAME_SIZE" using Cons.prems(2) by simp
  note U = vm_unmap_law [OF Cons.prems(1) al u]
  have P: "(\<lambda>x. if x \<in> set vas then None else pages (as_arch sp1) x) = (\<lambda>x. if x \<in> set (va # vas) then None else pages (as_arch sp) x)"
    using U(4) by (cases u) (auto simp: fun_eq_iff)
  have vas: "\<forall>va \<in> set vas. is_aligned va FRAME_SIZE" "distinct vas" "va \<notin> set vas" using Cons.prems(2,3) by auto
  show ?case
  proof (cases u)
    case (Err e)
    with U(4) have p: "pages (as_arch sp) va = None" "pages (as_arch sp1) = pages (as_arch sp)" by simp_all
    have f: "frames_ok (ph_alloc ph) (mset (batch @ page_frames (pages (as_arch sp1)) vas) + M + tables (as_arch sp1))"
      using Cons.prems(4) p U(2) by simp
    have l: "unmap_free_loop A F sp1 ph vas batch n = (n', sp', ph')" using Cons.prems(5) u Err by simp
    from Cons.IH [OF U(1) vas(1,2) f l] U(2) same_table_trans [OF U(3)] show ?thesis unfolding P by auto
  next
    case (Ok f)
    with U(4) obtain fl where p: "pages (as_arch sp) va = Some (f, fl)" "pages (as_arch sp1) = (pages (as_arch sp))(va := None)" by auto
    have fr: "mset (batch @ page_frames (pages (as_arch sp)) (va # vas)) = mset ((batch @ [f]) @ page_frames (pages (as_arch sp1)) vas)"
      using p vas(3) by simp
    show ?thesis
    proof (cases "length (batch @ [f]) = RECLAIM_BATCH")
      case False
      have f: "frames_ok (ph_alloc ph) (mset ((batch @ [f]) @ page_frames (pages (as_arch sp1)) vas) + M + tables (as_arch sp1))"
        using Cons.prems(4) unfolding fr U(2) .
      have l: "unmap_free_loop A F sp1 ph vas (batch @ [f]) (n + FRAME_SIZE) = (n', sp', ph')"
        using Cons.prems(5) u Ok False by (simp add: Let_def)
      from Cons.IH [OF U(1) vas(1,2) f l] U(2) same_table_trans [OF U(3)] show ?thesis unfolding P by auto
    next
      case True
      obtain sp2 ph2 where rb: "AddressSpace_release_batch F sp1 ph (batch @ [f]) = (sp2, ph2)" by fastforce
      note r = release_batch_simps [OF rb]
      have l: "unmap_free_loop A F sp2 ph2 vas [] (n + FRAME_SIZE) = (n', sp', ph')"
        using Cons.prems(5) u Ok True rb by (simp add: Let_def)
      have "frames_ok (ph_alloc ph2) (mset (page_frames (pages (as_arch sp1)) vas) + M + tables (as_arch sp1))"
        unfolding r(4) using Cons.prems(4) unfolding fr U(2) by (intro free_all) (simp add: ac_simps)
      then have f: "frames_ok (ph_alloc ph2) (mset ([] @ page_frames (pages (as_arch sp2)) vas) + M + tables (as_arch sp2))"
        using r(1) by simp
      have "arch_ok (as_arch sp2)" using U(1) r(1) by simp
      from Cons.IH [OF this vas(1,2) f l] U(2) r(3) same_table_trans [OF same_table_trans [OF U(3) r(2)]]
      show ?thesis unfolding r(1) P by auto
    qed
  qed
qed

definition anon_inv ::
    "(VirtAddr \<Rightarrow> (PhysFrame \<times> PageFlags) option) \<Rightarrow> PhysMem \<Rightarrow> 'a AddressSpace \<Rightarrow> VirtAddr \<Rightarrow> PageFlags \<Rightarrow> nat \<Rightarrow>
     PhysFrame multiset \<Rightarrow> 'f Phys \<Rightarrow> bool" where
  "anon_inv P0 mem0 sp base rights n M ph \<longleftrightarrow>
     arch_ok (as_arch sp) \<and>
     frames_ok (ph_alloc ph) (mset (page_frames (pages (as_arch sp)) (map (page_at base) [0..<n])) + M + tables (as_arch sp)) \<and>
     (\<forall>i < n. P0 (page_at base i) = None \<and>
        (\<exists>f. pages (as_arch sp) (page_at base i) = Some (f, rights) \<and> ph_mem ph f = replicate 4096 0 \<and> f \<notin># M)) \<and>
     distinct (page_frames (pages (as_arch sp)) (map (page_at base) [0..<n])) \<and>
     (\<forall>va. va \<notin> set (map (page_at base) [0..<n]) \<longrightarrow> pages (as_arch sp) va = P0 va) \<and>
     (\<forall>f \<in># M. ph_mem ph f = mem0 f)"

lemma page_frames_mem: "P va = Some (f, fl) \<Longrightarrow> va \<in> set vas \<Longrightarrow> f \<in> set (page_frames P vas)"
  by (induction vas) (auto split: option.splits)

lemma rollback_spec:
  assumes "anon_inv P0 mem0 sp base rights n M ph" "is_aligned base FRAME_SIZE" "n \<le> 2 ^ 52"
    "AddressSpace_rollback A F sp base n ph = (sp', ph')"
  shows "arch_ok (as_arch sp')" "frames_ok (ph_alloc ph') (M + tables (as_arch sp'))" "pages (as_arch sp') = P0"
    "same_table sp sp'" "\<forall>f \<in># M. ph_mem ph' f = mem0 f"
proof -
  let ?vas = "map (page_at base) [0..<n]"
  obtain c where l: "unmap_free_loop A F sp ph ?vas [] 0 = (c, sp', ph')"
    using assms(4) by (metis AddressSpace_rollback_def AddressSpace_unmap_and_free_def prod.collapse)
  note I = assms(1) [unfolded anon_inv_def]
  have f: "frames_ok (ph_alloc ph) (mset ([] @ page_frames (pages (as_arch sp)) ?vas) + M + tables (as_arch sp))"
    using I by simp
  have ok: "arch_ok (as_arch sp)" using I by blast
  have al: "\<forall>va \<in> set ?vas. is_aligned va FRAME_SIZE" using assms(2) by (auto intro: page_at_aligned)
  note u = unmap_free_loop_spec [OF ok al distinct_pages [OF assms(3)] f l]
  show "arch_ok (as_arch sp')" "frames_ok (ph_alloc ph') (M + tables (as_arch sp'))" "same_table sp sp'" using u by blast+
  have "(\<lambda>va. if va \<in> set ?vas then None else pages (as_arch sp) va) = P0"
  proof
    fix va
    show "(if va \<in> set ?vas then None else pages (as_arch sp) va) = P0 va"
      using I by (cases "va \<in> set ?vas") auto
  qed
  then show "pages (as_arch sp') = P0" using u by simp
  show "\<forall>f \<in># M. ph_mem ph' f = mem0 f" using u I by simp
qed

lemma anonymous_loop_spec:
  assumes "anon_inv P0 mem0 sp base rights n M ph" "is_aligned base FRAME_SIZE" "n + k \<le> 2 ^ 52"
    "anonymous_loop A F sp base rights ph n k = (r, sp', ph')"
  shows "same_table sp sp' \<and>
    (case r of
       Ok _ \<Rightarrow> anon_inv P0 mem0 sp' base rights (n + k) M ph'
     | Err _ \<Rightarrow> arch_ok (as_arch sp') \<and> frames_ok (ph_alloc ph') (M + tables (as_arch sp')) \<and>
         pages (as_arch sp') = P0 \<and> (\<forall>f \<in># M. ph_mem ph' f = mem0 f))"
  using assms
proof (induction k arbitrary: sp n ph)
  case 0
  then show ?case by auto
next
  case (Suc k)
  note I = Suc.prems(1) [unfolded anon_inv_def]
  let ?fs = "mset (page_frames (pages (as_arch sp)) (map (page_at base) [0..<n]))"
  obtain q ph1 where al: "vm_alloc F ph = (q, ph1)" by fastforce
  have fr: "frames_ok (ph_alloc ph) (?fs + M + tables (as_arch sp))" using I by blast
  note L = vm_alloc_law [OF fr al]
  show ?case
  proof (cases q)
    case None
    then have ok1: "anon_inv P0 mem0 sp base rights n M ph1" using I L unfolding anon_inv_def by simp
    obtain sp2 ph2 where rb: "AddressSpace_rollback A F sp base n ph1 = (sp2, ph2)" by fastforce
    have "r = Err OutOfMemory" "sp' = sp2" "ph' = ph2" using Suc.prems(4) al None rb by simp_all
    with rollback_spec [OF ok1 Suc.prems(2) _ rb] Suc.prems(3) show ?thesis by simp
  next
    case (Some f)
    then have f: "f \<notin># ?fs + M + tables (as_arch sp)" "is_aligned f FRAME_SIZE"
        "frames_ok (ph_alloc ph1) (add_mset f (?fs + M + tables (as_arch sp)))" using L(2) by simp_all
    define phz where "phz = ph1\<lparr>ph_mem := zero_frame (ph_mem ph1) f\<rparr>"
    obtain u sp2 ph2 where mp: "vm_map A sp (page_at base n) f rights phz = (u, sp2, ph2)" by (metis prod_cases3)
    have ok: "arch_ok (as_arch sp)" using I by blast
    have fz: "frames_ok (ph_alloc phz) ((add_mset f (?fs + M)) + tables (as_arch sp))" using f(3) by (simp add: phz_def)
    note V = vm_map_law [OF ok f(2) fz mp]
    have memz: "ph_mem phz g = (if g = f then replicate 4096 0 else ph_mem ph g)" for g
      using L(1) by (simp add: phz_def zero_frame_def)
    have memM: "\<forall>g \<in># M. ph_mem phz g = mem0 g" using I f(1) by (auto simp: memz)
    have zero: "ph_mem phz g = replicate 4096 0" if "i < n" "pages (as_arch sp) (page_at base i) = Some (g, rights)" for i g
    proof -
      have "ph_mem ph g = replicate 4096 0" using I that by auto
      then show ?thesis by (simp add: memz)
    qed
    show ?thesis
    proof (cases u)
      case (Err e)
      then have p: "pages (as_arch sp2) = pages (as_arch sp)" using V(4) by simp
      obtain sp3 ph3 where fe: "vm_free F sp2 ph2 f = (sp3, ph3)" by fastforce
      note v = vm_free_simps [where F = F and sp = sp2 and ph = ph2 and f = f, unfolded fe, simplified]
      have "frames_ok (ph_alloc ph3) (?fs + M + tables (as_arch sp3))"
        unfolding v using V(2) by (intro free_held) simp
      then have ok3: "anon_inv P0 mem0 sp3 base rights n M ph3"
        using I V(1,6) memM zero p v unfolding anon_inv_def by auto
      obtain sp4 ph4 where rb: "AddressSpace_rollback A F sp3 base n ph3 = (sp4, ph4)" by fastforce
      have e: "r = Err e" "sp' = sp4" "ph' = ph4"
        using Suc.prems(4) al Some mp Err fe rb by (simp_all add: phz_def)
      have "same_table sp sp3" using same_table_trans [OF V(3) v(2)] .
      with rollback_spec [OF ok3 Suc.prems(2) _ rb] Suc.prems(3) e show ?thesis
        using same_table_trans [of sp sp3 sp4] by simp
    next
      case (Ok x)
      then have p: "pages (as_arch sp) (page_at base n) = None"
          "pages (as_arch sp2) = (pages (as_arch sp))(page_at base n \<mapsto> (f, rights))" using V(4) by simp_all
      have ne: "page_at base i \<noteq> page_at base n" if "i < n" for i
        using page_at_inj [of i n base] that Suc.prems(3) by auto
      have nin: "page_at base n \<notin> set (map (page_at base) [0..<n])"
      proof
        assume "page_at base n \<in> set (map (page_at base) [0..<n])"
        then obtain i where "i < n" "page_at base n = page_at base i" by auto
        with ne [of i] show False by simp
      qed
      have fs: "mset (page_frames (pages (as_arch sp2)) (map (page_at base) [0..<Suc n])) = add_mset f ?fs"
        using p(2) nin by simp
      have ok2: "anon_inv P0 mem0 sp2 base rights (Suc n) M ph2"
        unfolding anon_inv_def
      proof (intro conjI)
        show "arch_ok (as_arch sp2)" by (rule V(1))
        show "frames_ok (ph_alloc ph2) (mset (page_frames (pages (as_arch sp2)) (map (page_at base) [0..<Suc n])) + M + tables (as_arch sp2))"
          unfolding fs using V(2) by simp
        have "P0 (page_at base n) = None" using I [THEN conjunct2, THEN conjunct2, THEN conjunct2, THEN conjunct2, THEN conjunct1] nin p(1) by simp
        moreover have "P0 (page_at base i) = None \<and>
            (\<exists>g. pages (as_arch sp2) (page_at base i) = Some (g, rights) \<and> ph_mem ph2 g = replicate 4096 0 \<and> g \<notin># M)" if "i < n" for i
        proof -
          from I that obtain g where g: "P0 (page_at base i) = None" "pages (as_arch sp) (page_at base i) = Some (g, rights)" "g \<notin># M" by blast
          with zero [OF that g(2)] ne [OF that] V(6) show ?thesis by (simp add: p(2))
        qed
        ultimately show "\<forall>i < Suc n. P0 (page_at base i) = None \<and>
            (\<exists>g. pages (as_arch sp2) (page_at base i) = Some (g, rights) \<and> ph_mem ph2 g = replicate 4096 0 \<and> g \<notin># M)"
          using V(6) f(1) by (auto simp: less_Suc_eq p(2) memz)
        have "distinct (page_frames (pages (as_arch sp)) (map (page_at base) [0..<n]))" using I by blast
        then show "distinct (page_frames (pages (as_arch sp2)) (map (page_at base) [0..<Suc n]))"
          using f(1) nin by (simp add: p(2))
        show "\<forall>va. va \<notin> set (map (page_at base) [0..<Suc n]) \<longrightarrow> pages (as_arch sp2) va = P0 va"
          using I by (auto simp: p(2))
        show "\<forall>f \<in># M. ph_mem ph2 f = mem0 f" using memM V(6) by simp
      qed
      have l: "anonymous_loop A F sp2 base rights ph2 (Suc n) k = (r, sp', ph')"
        using Suc.prems(4) al Some mp Ok by (simp add: phz_def)
      have n: "Suc n + k = n + Suc k" by simp
      from Suc.IH [OF ok2 Suc.prems(2) _ l, unfolded n] Suc.prems(3) show ?thesis
        using same_table_trans [OF V(3)] by blast
    qed
  qed
qed

end

end
