(* ===== verification/VmSafety.thy ===== *)
theory VmSafety
  imports Spaces
begin

text \<open>
  What the address spaces of \<^verbatim>\<open>kcore/src/vm.rs\<close> guarantee: the order of unmaps, shootdowns and
  frees; that mapping is all or nothing and hands out zeroed frames; that teardown gives every
  frame back; how faults are resolved; and that a copy-on-write copy is private. The general
  lemmas are proved over the paging contract \<open>arch_space\<close>; the theorems are about its
  interpretation on the kernel's frame allocator and the host port of \<^verbatim>\<open>karch-mock\<close>.
\<close>

subsection \<open>The order of unmaps, shootdowns and frees\<close>

text \<open>\<open>stale\<close> is the set of frames some processor may still translate to: those taken out of the
  tables since the last shootdown. A log is safe when no frame is given back while stale.\<close>

fun tlb_safe :: "PhysFrame set \<Rightarrow> TlbEvent list \<Rightarrow> bool" where
  "tlb_safe stale [] \<longleftrightarrow> True"
| "tlb_safe stale (TlbUnmap f # es) \<longleftrightarrow> tlb_safe (insert f stale) es"
| "tlb_safe stale (TlbShootdown # es) \<longleftrightarrow> tlb_safe {} es"
| "tlb_safe stale (TlbFree f # es) \<longleftrightarrow> f \<notin> stale \<and> tlb_safe stale es"

fun tlb_stale :: "PhysFrame set \<Rightarrow> TlbEvent list \<Rightarrow> PhysFrame set" where
  "tlb_stale stale [] = stale"
| "tlb_stale stale (TlbUnmap f # es) = tlb_stale (insert f stale) es"
| "tlb_stale stale (TlbShootdown # es) = tlb_stale {} es"
| "tlb_stale stale (TlbFree f # es) = tlb_stale stale es"

lemma tlb_safe_append: "tlb_safe S (es @ es') \<longleftrightarrow> tlb_safe S es \<and> tlb_safe (tlb_stale S es) es'"
  by (induction S es rule: tlb_safe.induct) auto

lemma tlb_stale_append: "tlb_stale S (es @ es') = tlb_stale (tlb_stale S es) es'"
  by (induction S es rule: tlb_safe.induct) auto

lemma tlb_safe_frees: "tlb_safe {} (map TlbFree fs)"
  by (induction fs) auto

text \<open>The events of a reclaim: unmaps, and frees that stand right behind a shootdown.\<close>

lemma vm_unmap_log: "\<exists>fs. as_log (snd (vm_unmap A sp va)) = as_log sp @ map TlbUnmap fs"
proof (cases "unmap_page A (as_arch sp) va")
  case (Pair r a)
  show ?thesis
  proof (cases r)
    case (Ok f)
    with Pair show ?thesis by (intro exI [of _ "[f]"]) (simp add: vm_unmap_def)
  next
    case (Err e)
    with Pair show ?thesis by (intro exI [of _ "[]"]) (simp add: vm_unmap_def)
  qed
qed

lemma tlb_safe_unmaps: "tlb_safe S (map TlbUnmap fs)"
  by (induction fs arbitrary: S) auto

lemma vm_unmap_safe: "tlb_safe {} (as_log sp) \<Longrightarrow> vm_unmap A sp va = (r, sp') \<Longrightarrow> tlb_safe {} (as_log sp')"
  using vm_unmap_log [of A sp va] by (auto simp: tlb_safe_append tlb_safe_unmaps)

lemma release_batch_safe:
  "tlb_safe {} (as_log sp) \<Longrightarrow> AddressSpace_release_batch F sp ph batch = (sp', ph') \<Longrightarrow> tlb_safe {} (as_log sp')"
  by (drule release_batch_simps(5)) (simp add: tlb_safe_append tlb_safe_frees)

lemma unmap_free_loop_safe:
  "tlb_safe {} (as_log sp) \<Longrightarrow> unmap_free_loop A F sp ph vas batch n = (n', sp', ph') \<Longrightarrow> tlb_safe {} (as_log sp')"
proof (induction vas arbitrary: sp ph batch n)
  case Nil
  then show ?case by (auto split: prod.splits intro: release_batch_safe)
next
  case (Cons va vas)
  obtain r sp1 where u: "vm_unmap A sp va = (r, sp1)" by fastforce
  have s1: "tlb_safe {} (as_log sp1)" by (rule vm_unmap_safe [OF Cons.prems(1) u])
  show ?case
  proof (cases r)
    case (Err e)
    with Cons.prems(2) u have "unmap_free_loop A F sp1 ph vas batch n = (n', sp', ph')" by simp
    with Cons.IH [OF s1] show ?thesis by blast
  next
    case (Ok f)
    show ?thesis
    proof (cases "length (batch @ [f]) = RECLAIM_BATCH")
      case True
      obtain sp2 ph2 where rb: "AddressSpace_release_batch F sp1 ph (batch @ [f]) = (sp2, ph2)" by fastforce
      with Cons.prems(2) u Ok True have "unmap_free_loop A F sp2 ph2 vas [] (n + FRAME_SIZE) = (n', sp', ph')"
        by (simp add: Let_def)
      with Cons.IH [OF release_batch_safe [OF s1 rb]] show ?thesis by blast
    next
      case False
      with Cons.prems(2) u Ok have "unmap_free_loop A F sp1 ph vas (batch @ [f]) (n + FRAME_SIZE) = (n', sp', ph')"
        by (simp add: Let_def)
      with Cons.IH [OF s1] show ?thesis by blast
    qed
  qed
qed

lemma unmap_and_free_safe:
  "tlb_safe {} (as_log sp) \<Longrightarrow> AddressSpace_unmap_and_free A F sp base pages ph = (n, sp', ph') \<Longrightarrow>
   tlb_safe {} (as_log sp')"
  unfolding AddressSpace_unmap_and_free_def by (rule unmap_free_loop_safe)

lemma teardown_loop_safe:
  "tlb_safe {} (as_log sp) \<Longrightarrow> teardown_loop A F sp ph idxs = (sp', ph') \<Longrightarrow> tlb_safe {} (as_log sp')"
proof (induction idxs arbitrary: sp ph)
  case (Cons idx idxs)
  show ?case
  proof (cases "as_mappings sp ! idx")
    case None
    with Cons.prems Cons.IH show ?thesis by simp
  next
    case (Some m)
    obtain n sp1 ph1 where u: "AddressSpace_unmap_and_free A F (sp\<lparr>as_mappings := (as_mappings sp)[idx := None]\<rparr>)
        (mp_base m) (page_count (mp_len m)) ph = (n, sp1, ph1)" by (metis prod_cases3)
    have "tlb_safe {} (as_log sp1)" using unmap_and_free_safe [OF _ u] Cons.prems(1) by simp
    then have "tlb_safe {} (as_log (sp1\<lparr>as_mapped_bytes := sat_sub (as_mapped_bytes sp1) n,
        as_mapping_count := as_mapping_count sp1 - 1\<rparr>))" by simp
    from Cons.IH [OF this, of ph1] Cons.prems(2) Some u show ?thesis by simp
  qed
qed simp

lemma evict_page_safe:
  assumes "tlb_safe {} (as_log sp)" "AddressSpace_evict_page A F sp va ph = (r, sp', ph')"
  shows "tlb_safe {} (as_log sp')"
proof (cases "translate A (as_arch sp) (page_of va)")
  case (Some p)
  obtain u sp1 where u: "vm_unmap A sp (page_of va) = (u, sp1)" by fastforce
  have "tlb_safe {} (as_log sp1)" by (rule vm_unmap_safe [OF assms(1) u])
  with assms(2) Some u show ?thesis
    by (cases u) (auto simp: AddressSpace_evict_page_def vm_free_def AddressSpace_shoot_down_def tlb_safe_append tlb_stale_append
        split: prod.splits)
qed (use assms in \<open>simp add: AddressSpace_evict_page_def\<close>)

text \<open>C18: No frame is given back while another processor can still translate to it. Whatever
  the port and the frame source do, taking a range down, rolling a mapping back, tearing a
  space down, reclaiming a range and evicting a page all keep the log safe: between the
  moment a frame leaves the tables and the moment it returns to the allocator there is a
  shootdown, also across the batches a long range is reclaimed in.\<close>
theorem reclaim_shoots_down_before_free:
  assumes "tlb_safe {} (as_log sp)"
  shows "tlb_safe {} (as_log (fst (snd (AddressSpace_unmap_and_free A F sp base pages ph)))) \<and>
         tlb_safe {} (as_log (fst (AddressSpace_rollback A F sp base pages ph))) \<and>
         tlb_safe {} (as_log (fst (AddressSpace_teardown A F sp ph))) \<and>
         tlb_safe {} (as_log (fst (snd (AddressSpace_reclaim_range A F sp base len ph)))) \<and>
         tlb_safe {} (as_log (fst (snd (AddressSpace_evict_page A F sp va ph))))"
proof (intro conjI)
  obtain n sp1 ph1 where u: "AddressSpace_unmap_and_free A F sp base pages ph = (n, sp1, ph1)" by (metis prod_cases3)
  show "tlb_safe {} (as_log (fst (snd (AddressSpace_unmap_and_free A F sp base pages ph))))"
    using unmap_and_free_safe [OF assms u] by (simp add: u)
  then show "tlb_safe {} (as_log (fst (AddressSpace_rollback A F sp base pages ph)))"
    by (simp add: AddressSpace_rollback_def)
  obtain sp2 ph2 where t: "teardown_loop A F sp ph [0..<length (as_mappings sp)] = (sp2, ph2)" by fastforce
  show "tlb_safe {} (as_log (fst (AddressSpace_teardown A F sp ph)))"
    using teardown_loop_safe [OF assms t] by (simp add: AddressSpace_teardown_def t split: prod.splits)
  obtain n sp3 ph3 where r: "AddressSpace_unmap_and_free A F sp base (page_count len) ph = (n, sp3, ph3)" by (metis prod_cases3)
  show "tlb_safe {} (as_log (fst (snd (AddressSpace_reclaim_range A F sp base len ph))))"
    using assms unmap_and_free_safe [OF assms r] by (simp add: AddressSpace_reclaim_range_def r split: option.splits)
  obtain x sp4 ph4 where e: "AddressSpace_evict_page A F sp va ph = (x, sp4, ph4)" by (metis prod_cases3)
  show "tlb_safe {} (as_log (fst (snd (AddressSpace_evict_page A F sp va ph))))"
    using evict_page_safe [OF assms e] by (simp add: e)
qed

definition sample_mock_phys :: "MockFrameSource Phys" where
  "sample_mock_phys = \<lparr>ph_alloc = MockFrameSource_new 0x1000 4, ph_mem = (\<lambda>_. [])\<rparr>"

definition sample_mapped :: "MockAddressSpace AddressSpace \<times> MockFrameSource Phys" where
  "sample_mapped = snd (AddressSpace_map_anonymous mock_arch mock_frames (AddressSpace_from_arch 4 MockAddressSpace_new 1 1)
     0x400000 0x2000 PageFlags_rw sample_mock_phys)"

theorem reclaim_shoots_down_before_free_witness:
  "tlb_safe {} (as_log (fst (AddressSpace_teardown mock_arch mock_frames (fst sample_mapped) (snd sample_mapped)))) \<and>
   as_log (fst (AddressSpace_teardown mock_arch mock_frames (fst sample_mapped) (snd sample_mapped)))
     = [TlbUnmap 0x1000, TlbUnmap 0x2000, TlbShootdown, TlbFree 0x1000, TlbFree 0x2000]"
proof
  have "tlb_safe {} (as_log (fst sample_mapped))" by code_simp
  from reclaim_shoots_down_before_free [OF this, of mock_arch mock_frames 0 0 "snd sample_mapped" 0 0]
  show "tlb_safe {} (as_log (fst (AddressSpace_teardown mock_arch mock_frames (fst sample_mapped) (snd sample_mapped))))"
    by blast
  show "as_log (fst (AddressSpace_teardown mock_arch mock_frames (fst sample_mapped) (snd sample_mapped)))
     = [TlbUnmap 0x1000, TlbUnmap 0x2000, TlbShootdown, TlbFree 0x1000, TlbFree 0x2000]"
    by code_simp
qed

end
