(* ===== verification/VmAccounting.thy ===== *)
theory VmAccounting
  imports VmSafety
begin

text \<open>
  Frame accounting of address spaces (\<^verbatim>\<open>kcore/src/vm.rs\<close>) over the paging contract: the mapping
  table stays a table of disjoint page ranges, every resident page lies in one of them, and
  the frames the space holds are exactly those of its resident pages. The steps below are the
  operations a process's memory goes through between the creation of its space and its
  teardown; the theorem says that the teardown then gives everything back.
\<close>

subsection \<open>The pages of a mapping table\<close>

definition mapping_pages :: "Mapping \<Rightarrow> VirtAddr list" where
  "mapping_pages m = map (page_at (mp_base m)) [0..<page_count (mp_len m)]"

definition space_pages :: "'a AddressSpace \<Rightarrow> VirtAddr list" where
  "space_pages sp = concat (map mapping_pages (flatten (as_mappings sp)))"

definition resident :: "(VirtAddr \<Rightarrow> (PhysFrame \<times> PageFlags) option) \<Rightarrow> VirtAddr multiset \<Rightarrow> PhysFrame multiset" where
  "resident P X = (\<Sum>va\<in>#X. case P va of Some (f, _) \<Rightarrow> {#f#} | None \<Rightarrow> {#})"

lemma resident_simps [simp]:
  "resident P {#} = {#}"
  "resident P (add_mset va X) = (case P va of Some (f, _) \<Rightarrow> {#f#} | None \<Rightarrow> {#}) + resident P X"
  "resident P (X + Y) = resident P X + resident P Y"
  by (simp_all add: resident_def)

lemma mset_page_frames: "mset (page_frames P vas) = resident P (mset vas)"
  by (induction vas) (auto split: option.splits)

lemma resident_cong: "(\<And>va. va \<in># X \<Longrightarrow> P va = Q va) \<Longrightarrow> resident P X = resident Q X"
  unfolding resident_def by (auto intro!: arg_cong [where f = sum_mset] image_mset_cong split: option.splits)

lemma resident_none: "(\<And>va. va \<in># X \<Longrightarrow> P va = None) \<Longrightarrow> resident P X = {#}"
  by (induction X) auto

lemma resident_upd: "va \<notin># X \<Longrightarrow> resident (P(va := x)) X = resident P X"
  by (rule resident_cong) auto

lemma resident_at:
  assumes "distinct vas" "va \<in> set vas"
  shows "\<exists>X. mset vas = add_mset va X \<and> va \<notin># X"
proof -
  obtain ys zs where "vas = ys @ va # zs" using split_list [OF assms(2)] by blast
  with assms(1) show ?thesis by (intro exI [of _ "mset (ys @ zs)"]) simp
qed

definition mapping_ok :: "Mapping \<Rightarrow> bool" where
  "mapping_ok m \<longleftrightarrow> is_aligned (mp_base m) FRAME_SIZE \<and> mp_len m \<noteq> 0 \<and> mp_len m mod FRAME_SIZE = 0 \<and>
     unat (mp_base m) + unat (mp_len m) < 2 ^ 64"

definition table_ok :: "'a AddressSpace \<Rightarrow> bool" where
  "table_ok sp \<longleftrightarrow> as_mapping_count sp = count_some (as_mappings sp) \<and>
     (\<forall>m \<in> set (flatten (as_mappings sp)). mapping_ok m) \<and> distinct (space_pages sp)"

lemma page_count_bytes: "len mod FRAME_SIZE = 0 \<Longrightarrow> page_count len * 4096 = unat len"
  unfolding mod_FRAME_SIZE is_aligned_dvd page_count_def by (simp add: unat_div)

lemma unat_page_at:
  assumes "unat base + i * 4096 < 2 ^ 64"
  shows "unat (page_at base i) = unat base + i * 4096"
proof -
  have "unat (of_nat i * FRAME_SIZE :: 64 word) = i * 4096"
    using assms by (simp add: unat_word_ariths unat_of_nat)
  then show ?thesis using assms unat_add_lem [of base "of_nat i * FRAME_SIZE"] by (simp add: page_at_def)
qed

lemma mapping_pages_iff:
  assumes "mapping_ok m"
  shows "va \<in> set (mapping_pages m) \<longleftrightarrow>
    is_aligned va FRAME_SIZE \<and> unat (mp_base m) \<le> unat va \<and> unat va < unat (mp_base m) + unat (mp_len m)"
proof -
  let ?b = "mp_base m" and ?n = "page_count (mp_len m)"
  have n: "?n * 4096 = unat (mp_len m)" using assms by (intro page_count_bytes) (simp add: mapping_ok_def)
  have al: "is_aligned ?b FRAME_SIZE" and nw: "unat ?b + unat (mp_len m) < 2 ^ 64"
    using assms by (simp_all add: mapping_ok_def)
  have u: "unat (page_at ?b i) = unat ?b + i * 4096" if "i < ?n" for i
    using that n nw by (intro unat_page_at) linarith
  show ?thesis
  proof
    assume "va \<in> set (mapping_pages m)"
    then obtain i where i: "i < ?n" "va = page_at ?b i" by (auto simp: mapping_pages_def)
    with u [OF i(1)] n page_at_aligned [OF al, of i]
    show "is_aligned va FRAME_SIZE \<and> unat ?b \<le> unat va \<and> unat va < unat ?b + unat (mp_len m)" by simp
  next
    assume va: "is_aligned va FRAME_SIZE \<and> unat ?b \<le> unat va \<and> unat va < unat ?b + unat (mp_len m)"
    define i where "i = (unat va - unat ?b) div 4096"
    have "4096 dvd unat va - unat ?b" using va al by (simp add: is_aligned_dvd dvd_diff_nat)
    then have i: "unat va = unat ?b + i * 4096" using va by (simp add: i_def)
    with va n have "i < ?n" by simp
    moreover from this have "va = page_at ?b i" using u i by (simp add: word_unat_eq_iff)
    ultimately show "va \<in> set (mapping_pages m)" by (auto simp: mapping_pages_def)
  qed
qed

lemma mapping_pages_distinct [simp]: "distinct (mapping_pages m)"
  by (simp add: mapping_pages_def)

lemma unat_end: "mapping_ok m \<Longrightarrow> unat (mp_base m + mp_len m) = unat (mp_base m) + unat (mp_len m)"
  using unat_add_lem [of "mp_base m" "mp_len m"] by (simp add: mapping_ok_def)

lemma no_overlap_disjoint:
  assumes "mapping_ok m" "mapping_ok m'"
    "\<not> (mp_base m < mp_base m' + mp_len m' \<and> mp_base m' < mp_base m + mp_len m)"
  shows "set (mapping_pages m) \<inter> set (mapping_pages m') = {}"
  using assms(3) unat_end [OF assms(1)] unat_end [OF assms(2)]
  by (auto simp: mapping_pages_iff [OF assms(1)] mapping_pages_iff [OF assms(2)] word_less_nat_alt)

lemma mset_space_pages: "mset (space_pages sp) = (\<Sum>m\<in>#mset (flatten (as_mappings sp)). mset (mapping_pages m))"
proof -
  have "mset (concat (map mapping_pages ms)) = (\<Sum>m\<in>#mset ms. mset (mapping_pages m))" for ms
    by (induction ms) simp_all
  then show ?thesis by (simp add: space_pages_def)
qed

lemma set_space_pages: "set (space_pages sp) = (\<Union>m \<in> set (flatten (as_mappings sp)). set (mapping_pages m))"
  by (simp add: space_pages_def)

lemma overlaps_disjoint:
  assumes "table_ok sp" "mapping_ok m" "\<not> AddressSpace_overlaps sp (mp_base m) (mp_len m)"
  shows "set (mapping_pages m) \<inter> set (space_pages sp) = {}"
proof -
  have "set (mapping_pages m) \<inter> set (mapping_pages m') = {}" if "m' \<in> set (flatten (as_mappings sp))" for m'
    using that assms by (intro no_overlap_disjoint) (auto simp: table_ok_def AddressSpace_overlaps_def list_ex_iff)
  then show ?thesis unfolding set_space_pages by blast
qed

lemma record_table:
  assumes "table_ok sp" "as_mapping_count sp < length (as_mappings sp)"
    and m: "mapping_ok \<lparr>mp_base = base, mp_len = len, mp_rights = rights, mp_backing = backing\<rparr>" (is "mapping_ok ?m")
    and "\<not> AddressSpace_overlaps sp base len"
  shows "table_ok (AddressSpace_record sp base len rights backing)"
    and "mset (space_pages (AddressSpace_record sp base len rights backing)) = mset (space_pages sp) + mset (mapping_pages ?m)"
    and "as_arch (AddressSpace_record sp base len rights backing) = as_arch sp"
proof -
  have "count_some (as_mappings sp) < length (as_mappings sp)" using assms(1,2) by (simp add: table_ok_def)
  then have "free_slot (as_mappings sp) \<noteq> None" by (simp add: count_some_less_iff free_slot_None_iff)
  then obtain i where i: "free_slot (as_mappings sp) = Some i" by blast
  note fs = free_slotD [OF i]
  let ?sp = "AddressSpace_record sp base len rights backing"
  have r: "?sp = sp\<lparr>as_mappings := (as_mappings sp)[i := Some ?m], as_mapping_count := as_mapping_count sp + 1\<rparr>"
    by (simp add: AddressSpace_record_def i)
  show ms: "mset (space_pages ?sp) = mset (space_pages sp) + mset (mapping_pages ?m)"
    unfolding mset_space_pages by (simp add: r mset_flatten_fill fs)
  have "set (mapping_pages ?m) \<inter> set (space_pages sp) = {}"
    using overlaps_disjoint [OF assms(1) m] assms(4) by simp
  then have "distinct (space_pages sp @ mapping_pages ?m)" using assms(1) by (auto simp: table_ok_def)
  then have "distinct (space_pages ?sp)" using mset_eq_imp_distinct_iff [of "space_pages sp @ mapping_pages ?m" "space_pages ?sp"] ms by simp
  moreover have "\<forall>x \<in> set (flatten (as_mappings ?sp)). mapping_ok x"
    using assms(1) m by (auto simp: r set_flatten table_ok_def dest!: set_update_subset_insert [THEN subsetD])
  ultimately show "table_ok ?sp" using assms(1) fs by (simp add: table_ok_def r count_some_fill)
  show "as_arch ?sp = as_arch sp" by (simp add: r)
qed

lemma clear_table:
  assumes "table_ok sp" "idx < length (as_mappings sp)" "as_mappings sp ! idx = Some m"
    and "as_mappings sp' = (as_mappings sp)[idx := None]" "as_mapping_count sp' = as_mapping_count sp - 1"
  shows "table_ok sp'" and "mset (space_pages sp) = mset (mapping_pages m) + mset (space_pages sp')"
    and "mapping_ok m"
proof -
  have fl: "mset (flatten (as_mappings sp)) = add_mset m (mset (flatten (as_mappings sp')))"
    using mset_flatten_clear [OF assms(2,3)] assms(4) by simp
  show ms: "mset (space_pages sp) = mset (mapping_pages m) + mset (space_pages sp')"
    unfolding mset_space_pages fl by simp
  have "distinct (mapping_pages m @ space_pages sp')"
    using mset_eq_imp_distinct_iff [of "space_pages sp" "mapping_pages m @ space_pages sp'"] ms assms(1)
    by (simp add: table_ok_def)
  moreover have "set (flatten (as_mappings sp')) \<subseteq> set (flatten (as_mappings sp))"
    using fl by (metis insert_subset mset_subset_eqD set_mset_add_mset_insert set_mset_mset subset_insertI)
  moreover have "Suc (count_some (as_mappings sp')) = count_some (as_mappings sp)"
    using count_some_clear [OF assms(2,3)] assms(4) by simp
  ultimately show "table_ok sp'" using assms(1,5) by (auto simp: table_ok_def)
  have "m \<in> set (flatten (as_mappings sp))" using fl by (metis set_mset_mset union_single_eq_member)
  then show "mapping_ok m" using assms(1) by (simp add: table_ok_def)
qed

lemma covering_page:
  assumes "table_ok sp" "AddressSpace_mapping_covering sp v = Some m"
  shows "m \<in> set (flatten (as_mappings sp))" and "page_of v \<in> set (mapping_pages m)"
    and "page_of v \<in> set (space_pages sp)"
proof -
  show mem: "m \<in> set (flatten (as_mappings sp))"
    using assms(2) by (auto simp: AddressSpace_mapping_covering_def find_Some_iff)
  have cov: "mp_base m \<le> v" "v < mp_base m + mp_len m"
    using assms(2) by (auto simp: AddressSpace_mapping_covering_def find_Some_iff)
  have ok: "mapping_ok m" using assms(1) mem by (simp add: table_ok_def)
  have p: "unat (page_of v) = unat v - unat v mod 4096"
    using unat_align_down [of v] by (simp add: align_down_def page_of_def)
  have "4096 dvd unat (mp_base m)" using ok by (simp add: mapping_ok_def is_aligned_dvd)
  then obtain k where k: "unat (mp_base m) = 4096 * k" by blast
  have "unat (mp_base m) \<le> unat v" using cov(1) by (simp add: word_le_nat_alt)
  then have "k \<le> unat v div 4096" by (simp add: k less_eq_div_iff_mult_less_eq)
  then have "unat (mp_base m) \<le> unat (page_of v)" unfolding p k minus_mod_eq_mult_div by simp
  moreover have "unat (page_of v) < unat (mp_base m) + unat (mp_len m)"
    using cov(2) unat_end [OF ok] p by (simp add: word_less_nat_alt)
  ultimately show "page_of v \<in> set (mapping_pages m)" by (simp add: mapping_pages_iff [OF ok])
  with mem show "page_of v \<in> set (space_pages sp)" unfolding set_space_pages by blast
qed

subsection \<open>Every operation keeps the account\<close>

text \<open>Mapping checks that pass give a mapping that is sound and disjoint from the others.\<close>

lemma map_checks_Ok:
  assumes "map_checks A sp base len rights = Ok u" "unat base + unat len < 2 ^ 64"
  shows "mapping_ok \<lparr>mp_base = base, mp_len = len, mp_rights = rights, mp_backing = b\<rparr>"
    and "\<not> AddressSpace_overlaps sp base len" and "as_mapping_count sp < length (as_mappings sp)"
    and "is_aligned base FRAME_SIZE" and "\<not> PageFlags_is_wx rights"
  using assms by (auto simp: map_checks_def mapping_ok_def split: if_splits res.splits)

context arch_space
begin

definition space_ok :: "'a AddressSpace \<Rightarrow> 'f Phys \<Rightarrow> PhysFrame multiset \<Rightarrow> bool" where
  "space_ok sp ph M \<longleftrightarrow> arch_ok (as_arch sp) \<and> table_ok sp \<and>
     (\<forall>va. pages (as_arch sp) va \<noteq> None \<longrightarrow> va \<in> set (space_pages sp)) \<and>
     frames_ok (ph_alloc ph) (resident (pages (as_arch sp)) (mset (space_pages sp)) + M + tables (as_arch sp))"

lemma space_okD:
  assumes "space_ok sp ph M"
  shows "arch_ok (as_arch sp)" "table_ok sp" "\<And>va. pages (as_arch sp) va \<noteq> None \<Longrightarrow> va \<in> set (space_pages sp)"
    "frames_ok (ph_alloc ph) (resident (pages (as_arch sp)) (mset (space_pages sp)) + M + tables (as_arch sp))"
  using assms unfolding space_ok_def by blast+

text \<open>The table and the arch state are all that counts.\<close>

lemma space_ok_cong:
  "as_arch sp' = as_arch sp \<Longrightarrow> as_mappings sp' = as_mappings sp \<Longrightarrow> as_mapping_count sp' = as_mapping_count sp \<Longrightarrow>
   ph_alloc ph' = ph_alloc ph \<Longrightarrow> space_ok sp' ph' M = space_ok sp ph M"
  by (simp add: space_ok_def table_ok_def space_pages_def)

lemma same_table_pages: "same_table sp sp' \<Longrightarrow> space_pages sp' = space_pages sp \<and> table_ok sp' = table_ok sp"
  by (simp add: same_table_def space_pages_def table_ok_def)

lemma record_ok:
  assumes "space_ok sp ph M" "map_checks A sp base len rights = Ok u" "unat base + unat len < 2 ^ 64"
  shows "space_ok (AddressSpace_record sp base len rights backing) ph M"
proof -
  note D = space_okD [OF assms(1)] and C = map_checks_Ok [OF assms(2,3)]
  note C1 = C(1) [where b = backing]
  let ?m = "\<lparr>mp_base = base, mp_len = len, mp_rights = rights, mp_backing = backing\<rparr>"
  note R = record_table [OF D(2) C(3) C1 C(2)]
  have "set (mapping_pages ?m) \<inter> set (space_pages sp) = {}" using overlaps_disjoint [OF D(2) C1] C(2) by simp
  then have "resident (pages (as_arch sp)) (mset (mapping_pages ?m)) = {#}"
    using D(3) by (intro resident_none) (metis disjoint_iff set_mset_mset)
  moreover have "set (space_pages sp) \<subseteq> set (space_pages (AddressSpace_record sp base len rights backing))"
    using R(2) by (metis Un_upper1 set_mset_mset set_mset_union)
  ultimately show ?thesis using D R unfolding space_ok_def by auto
qed

lemma map_anonymous_ok:
  assumes "space_ok sp ph M" "unat base + unat len < 2 ^ 64"
    "AddressSpace_map_anonymous A F sp base len rights ph = (r, sp', ph')"
  shows "space_ok sp' ph' M"
proof (cases "map_checks A sp base len rights")
  case (Err e)
  with assms show ?thesis by (simp add: AddressSpace_map_anonymous_def)
next
  case (Ok u)
  note D = space_okD [OF assms(1)] and C = map_checks_Ok [OF Ok assms(2)]
  note C1 = C(1) [where b = Anonymous]
  let ?m = "\<lparr>mp_base = base, mp_len = len, mp_rights = rights, mp_backing = Anonymous\<rparr>"
  let ?P = "pages (as_arch sp)" and ?M = "resident (pages (as_arch sp)) (mset (space_pages sp)) + M"
  have I: "anon_inv ?P (ph_mem ph) sp base rights 0 ?M ph"
    using D by (simp add: anon_inv_def)
  obtain x sp1 ph1 where l: "anonymous_loop A F sp base rights ph 0 (page_count len) = (x, sp1, ph1)" by (metis prod_cases3)
  have S: "same_table sp sp1 \<and>
    (case x of
       Ok _ \<Rightarrow> anon_inv ?P (ph_mem ph) sp1 base rights (0 + page_count len) ?M ph1
     | Err _ \<Rightarrow> arch_ok (as_arch sp1) \<and> frames_ok (ph_alloc ph1) (?M + tables (as_arch sp1)) \<and>
         pages (as_arch sp1) = ?P \<and> (\<forall>f \<in># ?M. ph_mem ph1 f = ph_mem ph f))"
    using page_count_le by (intro anonymous_loop_spec [OF I C(4) _ l]) simp
  then have T: "space_pages sp1 = space_pages sp" "table_ok sp1" "as_mappings sp1 = as_mappings sp"
      "as_mapping_count sp1 = as_mapping_count sp"
    using same_table_pages [of sp sp1] D(2) by (auto simp: same_table_def)
  show ?thesis
  proof (cases x)
    case (Err e)
    then have "sp' = sp1" "ph' = ph1" using assms(3) Ok l by (simp_all add: AddressSpace_map_anonymous_def)
    with S Err T D(3) show ?thesis by (simp add: space_ok_def)
  next
    case xok: (Ok y)
    then have e: "sp' = (AddressSpace_record sp1 base len rights Anonymous)\<lparr>as_mapped_bytes :=
        as_mapped_bytes (AddressSpace_record sp1 base len rights Anonymous) + len\<rparr>" "ph' = ph1"
      using assms(3) Ok l by (simp_all add: AddressSpace_map_anonymous_def Let_def)
    have J: "anon_inv ?P (ph_mem ph) sp1 base rights (page_count len) ?M ph1" using S xok by simp
    note J' = J [unfolded anon_inv_def]
    have ov: "\<not> AddressSpace_overlaps sp1 base len" using C(2) by (simp add: AddressSpace_overlaps_def T)
    have lt: "as_mapping_count sp1 < length (as_mappings sp1)" using C(3) by (simp add: T)
    note R = record_table [OF T(2) lt C1 ov]
    have dj: "set (mapping_pages ?m) \<inter> set (space_pages sp) = {}" using overlaps_disjoint [OF D(2) C1] C(2) by simp
    have mp: "mapping_pages ?m = map (page_at base) [0..<page_count len]" by (simp add: mapping_pages_def)
    have old: "pages (as_arch sp1) va = ?P va" if "va \<notin> set (mapping_pages ?m)" for va
      using J' that unfolding mp by blast
    have "resident (pages (as_arch sp1)) (mset (space_pages sp)) = resident ?P (mset (space_pages sp))"
      by (rule resident_cong) (use old dj in auto)
    then have fr: "frames_ok (ph_alloc ph1) (resident (pages (as_arch sp1)) (mset (space_pages sp) + mset (mapping_pages ?m)) + M + tables (as_arch sp1))"
      using J' unfolding mp mset_page_frames by (simp add: ac_simps)
    have sub: "set (space_pages (AddressSpace_record sp1 base len rights Anonymous)) = set (space_pages sp) \<union> set (mapping_pages ?m)"
      using R(2) T(1) by (metis set_mset_mset set_mset_union)
    have in_pages: "va \<in> set (space_pages sp) \<union> set (mapping_pages ?m)" if "pages (as_arch sp1) va \<noteq> None" for va
    proof (cases "va \<in> set (mapping_pages ?m)")
      case False
      then have "?P va \<noteq> None" using old [of va] that by simp
      then show ?thesis by (simp add: D(3))
    qed simp
    have "space_ok (AddressSpace_record sp1 base len rights Anonymous) ph1 M"
      unfolding space_ok_def R(3) sub R(2) T(1) using R(1) fr in_pages J' by blast
    then show ?thesis unfolding e by (subst space_ok_cong) simp_all
  qed
qed

text \<open>Replacing the page at one address of the table.\<close>

lemma page_set_ok:
  assumes "space_ok sp ph M" "va \<in> set (space_pages sp)" "same_table sp sp'" "arch_ok (as_arch sp')"
    "pages (as_arch sp') = (pages (as_arch sp))(va := x)" "pages (as_arch sp) va = y"
    "frames_ok (ph_alloc ph') (N + tables (as_arch sp'))"
    "N + (case y of Some (f, _) \<Rightarrow> {#f#} | None \<Rightarrow> {#}) =
       (case x of Some (f, _) \<Rightarrow> {#f#} | None \<Rightarrow> {#}) + (resident (pages (as_arch sp)) (mset (space_pages sp)) + M')"
  shows "space_ok sp' ph' M'"
proof -
  note D = space_okD [OF assms(1)]
  have T: "space_pages sp' = space_pages sp" "table_ok sp'" using same_table_pages [OF assms(3)] D(2) by auto
  obtain X where X: "mset (space_pages sp) = add_mset va X" "va \<notin># X"
    using resident_at [of "space_pages sp" va] D(2) assms(2) by (auto simp: table_ok_def)
  have "resident (pages (as_arch sp')) (mset (space_pages sp))
      = (case x of Some (f, _) \<Rightarrow> {#f#} | None \<Rightarrow> {#}) + resident (pages (as_arch sp)) X"
    unfolding X(1) assms(5) using X(2) by (simp add: resident_upd)
  moreover have "resident (pages (as_arch sp)) (mset (space_pages sp))
      = (case y of Some (f, _) \<Rightarrow> {#f#} | None \<Rightarrow> {#}) + resident (pages (as_arch sp)) X"
    unfolding X(1) using assms(6) by simp
  ultimately have "N = resident (pages (as_arch sp')) (mset (space_pages sp)) + M'"
    using assms(8) by (simp add: ac_simps)
  with assms(7) have "frames_ok (ph_alloc ph') (resident (pages (as_arch sp')) (mset (space_pages sp')) + M' + tables (as_arch sp'))"
    unfolding T(1) by simp
  moreover have "va' \<in> set (space_pages sp')" if "pages (as_arch sp') va' \<noteq> None" for va'
  proof (cases "va' = va")
    case False
    then have "pages (as_arch sp) va' \<noteq> None" using that assms(5) by simp
    then show ?thesis unfolding T(1) by (rule D(3))
  qed (use assms(2) T(1) in simp)
  ultimately show ?thesis using T(2) assms(4) by (simp add: space_ok_def)
qed

lemma demand_fill_ok:
  assumes "space_ok sp ph M" "page \<in> set (space_pages sp)"
    "AddressSpace_demand_fill A F sp page rights ph = (r, sp', ph')"
  shows "space_ok sp' ph' M"
proof -
  note D = space_okD [OF assms(1)]
  let ?R = "resident (pages (as_arch sp)) (mset (space_pages sp))"
  obtain q ph1 where al: "vm_alloc F ph = (q, ph1)" by fastforce
  note L = vm_alloc_law [OF D(4) al]
  show ?thesis
  proof (cases q)
    case None
    with assms(3) al have "sp' = sp" "ph' = ph1" by (simp_all add: AddressSpace_demand_fill_def)
    with L None D show ?thesis by (simp add: space_ok_def)
  next
    case (Some f)
    then have f: "is_aligned f FRAME_SIZE" "frames_ok (ph_alloc ph1) (add_mset f (?R + M + tables (as_arch sp)))"
      using L(2) by simp_all
    define phz where "phz = ph1\<lparr>ph_mem := zero_frame (ph_mem ph1) f\<rparr>"
    obtain u sp2 ph2 where mp: "vm_map A sp page f rights phz = (u, sp2, ph2)" by (metis prod_cases3)
    have "frames_ok (ph_alloc phz) (add_mset f (?R + M) + tables (as_arch sp))" using f(2) by (simp add: phz_def)
    note V = vm_map_law [OF D(1) f(1) this mp]
    show ?thesis
    proof (cases u)
      case (Err e)
      then have e: "sp' = fst (vm_free F sp2 ph2 f)" "ph' = snd (vm_free F sp2 ph2 f)"
        using assms(3) al Some mp by (simp_all add: AddressSpace_demand_fill_def phz_def)
      have "frames_ok (free_frame F (ph_alloc ph2) f) (?R + M + tables (as_arch sp2))"
        using V(2) by (intro free_held) simp
      moreover have "space_pages sp2 = space_pages sp" "table_ok sp2" using same_table_pages [OF V(3)] D(2) by auto
      ultimately have "space_ok sp2 (ph2\<lparr>ph_alloc := free_frame F (ph_alloc ph2) f\<rparr>) M"
        using V(1,4) Err D(3) by (simp add: space_ok_def)
      then show ?thesis unfolding e by (subst space_ok_cong [of _ sp2]) (simp_all add: vm_free_def)
    next
      case (Ok y)
      then have e: "sp' = sp2\<lparr>as_mapped_bytes := as_mapped_bytes sp2 + FRAME_SIZE\<rparr>" "ph' = ph2"
        using assms(3) al Some mp by (simp_all add: AddressSpace_demand_fill_def phz_def)
      have "space_ok sp2 ph2 M"
        by (rule page_set_ok [OF assms(1,2) V(3) V(1) _ _ V(2)]) (use V(4) Ok in auto)
      then show ?thesis unfolding e by (subst space_ok_cong) simp_all
    qed
  qed
qed

lemma resolve_fault_ok:
  assumes "space_ok sp ph M" "AddressSpace_backing_at sp virt \<noteq> Some Cow"
    "AddressSpace_resolve_fault A F sp virt write ph = (r, sp', ph')"
  shows "space_ok sp' ph' M"
proof (cases "AddressSpace_mapping_covering sp virt")
  case None
  with assms show ?thesis by (simp add: AddressSpace_resolve_fault_def)
next
  case (Some m)
  note C = covering_page [OF space_okD(2) [OF assms(1)] Some]
  show ?thesis
  proof (cases "mp_backing m")
    case AnonymousDemand
    then show ?thesis
      using assms(1,3) Some demand_fill_ok [OF assms(1) C(3), of "mp_rights m" r sp' ph']
      by (auto simp: AddressSpace_resolve_fault_def Let_def split: if_splits)
  next
    case Cow
    with assms(2) Some show ?thesis by (simp add: AddressSpace_backing_at_def)
  qed (use assms(1,3) Some in \<open>auto simp: AddressSpace_resolve_fault_def Let_def split: option.splits if_splits\<close>)
qed

lemma supply_page_ok:
  assumes "space_ok sp ph M" "frame \<in># M" "is_aligned frame FRAME_SIZE"
    "AddressSpace_supply_page A sp va frame ph = (r, sp', ph')"
  shows "space_ok sp' ph' (if is_ok r then M - {#frame#} else M)"
proof (cases "AddressSpace_mapping_covering sp va")
  case None
  with assms show ?thesis by (auto simp: AddressSpace_supply_page_def)
next
  case (Some m)
  note D = space_okD [OF assms(1)]
  note C = covering_page [OF D(2) Some]
  let ?R = "resident (pages (as_arch sp)) (mset (space_pages sp))"
  obtain u sp1 ph1 where mp: "vm_map A sp (page_of va) frame (read_only (mp_rights m)) ph = (u, sp1, ph1)" by (metis prod_cases3)
  note V = vm_map_law [OF D(1) assms(3) D(4) mp]
  show ?thesis
  proof (cases u)
    case (Err e)
    then have e: "r = Err e" "sp' = sp1" "ph' = ph1" using assms(4) Some mp by (simp_all add: AddressSpace_supply_page_def)
    have "space_pages sp1 = space_pages sp" "table_ok sp1" using same_table_pages [OF V(3)] D(2) by auto
    with V(1,2,4) Err D(3) show ?thesis by (simp add: e space_ok_def)
  next
    case (Ok y)
    then have e: "r = Ok ()" "sp' = sp1\<lparr>as_mapped_bytes := as_mapped_bytes sp1 + FRAME_SIZE\<rparr>" "ph' = ph1"
      using assms(4) Some mp by (simp_all add: AddressSpace_supply_page_def)
    have "space_ok sp1 ph1 (M - {#frame#})"
    proof (rule page_set_ok [OF assms(1) C(3) V(3) V(1) _ _ V(2)])
      show "pages (as_arch sp1) = (pages (as_arch sp))(page_of va := Some (frame, read_only (mp_rights m)))"
        and "pages (as_arch sp) (page_of va) = None" using V(4) Ok by simp_all
      show "?R + M + (case None of Some (f, _) \<Rightarrow> {#f#} | None \<Rightarrow> {#}) =
          (case Some (frame, read_only (mp_rights m)) of Some (f, _) \<Rightarrow> {#f#} | None \<Rightarrow> {#}) + (?R + (M - {#frame#}))"
        using assms(2) by simp
    qed
    then show ?thesis unfolding e by (subst space_ok_cong [of _ sp1]) simp_all
  qed
qed

lemma vm_protect_ok:
  assumes "space_ok sp ph M" "is_aligned va FRAME_SIZE" "vm_protect A sp va fl = (r, sp')"
  shows "space_ok sp' ph M" and "same_table sp sp'"
proof -
  note D = space_okD [OF assms(1)]
  obtain a where a: "protect_page A (as_arch sp) va fl = (r, a)" "sp' = sp\<lparr>as_arch := a\<rparr>"
    using assms(3) by (auto simp: vm_protect_def split: prod.splits)
  show st: "same_table sp sp'" by (simp add: a(2) same_table_def)
  note P = protect_law [OF D(1) assms(2) a(1)]
  have ok: "arch_ok (as_arch sp')" and tb: "tables (as_arch sp') = tables (as_arch sp)" using P by (simp_all add: a(2))
  show "space_ok sp' ph M"
  proof (cases r)
    case (Err e)
    have "space_pages sp' = space_pages sp" "table_ok sp'" using same_table_pages [OF st] D(2) by auto
    with P Err D ok show ?thesis by (simp add: a(2) space_ok_def)
  next
    case (Ok y)
    with P obtain f fl0 where p: "pages (as_arch sp) va = Some (f, fl0)" "pages (as_arch sp') = (pages (as_arch sp))(va \<mapsto> (f, fl))"
      by (auto simp: a(2))
    have "va \<in> set (space_pages sp)" using D(3) p(1) by simp
    then show ?thesis
      by (rule page_set_ok [OF assms(1) _ st ok p(2) p(1) D(4) [folded tb]]) simp
  qed
qed

lemma protect_loop_ok:
  "space_ok sp ph M \<Longrightarrow> \<forall>va \<in> set vas. is_aligned va FRAME_SIZE \<Longrightarrow> protect_loop A sp rights vas = (r, sp') \<Longrightarrow>
   space_ok sp' ph M \<and> same_table sp sp'"
proof (induction vas arbitrary: sp)
  case (Cons va vas)
  obtain u sp1 where u: "vm_protect A sp va rights = (u, sp1)" by fastforce
  have "is_aligned va FRAME_SIZE" using Cons.prems(2) by simp
  note V = vm_protect_ok [OF Cons.prems(1) this u]
  show ?case
  proof (cases u)
    case (Err e)
    with Cons.prems(3) u V show ?thesis by simp
  next
    case (Ok y)
    with Cons.prems(3) u have "protect_loop A sp1 rights vas = (r, sp')" by simp
    with Cons.IH [OF V(1)] Cons.prems(2) V(2) show ?thesis by (auto intro: same_table_trans)
  qed
qed simp

text \<open>A mapping may change its rights or its backing: its pages stay the same.\<close>

lemma retag_ok:
  assumes "space_ok sp ph M" "as_mappings sp' = (as_mappings sp)[idx := map_option g (as_mappings sp ! idx)]"
    and "idx < length (as_mappings sp)" "as_arch sp' = as_arch sp" "as_mapping_count sp' = as_mapping_count sp"
    and g: "\<And>m. mp_base (g m) = mp_base m \<and> mp_len (g m) = mp_len m"
  shows "space_ok sp' ph M"
proof -
  note D = space_okD [OF assms(1)]
  have "map mapping_pages (flatten (xs[i := map_option g (xs ! i)])) = map mapping_pages (flatten xs) \<and>
        (\<forall>m \<in> set (flatten (xs[i := map_option g (xs ! i)])). mapping_ok m) = (\<forall>m \<in> set (flatten xs). mapping_ok m) \<and>
        count_some (xs[i := map_option g (xs ! i)]) = count_some xs" if "i < length xs" for xs i
    using that
  proof (induction xs arbitrary: i)
    case (Cons x xs)
    have gp: "mapping_pages (g m) = mapping_pages m" "mapping_ok (g m) = mapping_ok m" for m
      using g [of m] by (simp_all add: mapping_pages_def mapping_ok_def)
    show ?case
    proof (cases i)
      case 0
      then show ?thesis by (cases x) (simp_all add: gp count_some_Cons)
    next
      case (Suc j)
      with Cons.IH [of j] Cons.prems show ?thesis by (cases x) (simp_all add: count_some_Cons)
    qed
  qed simp
  from this [OF assms(3)] D assms(2,4,5) show ?thesis
    unfolding space_ok_def table_ok_def space_pages_def by simp
qed

lemma find_exact_SomeD:
  assumes "AddressSpace_find_exact sp base len = Some idx"
  shows "\<exists>m. idx < length (as_mappings sp) \<and> as_mappings sp ! idx = Some m \<and> mp_base m = base \<and> mp_len m = len"
  using position_SomeD(1,2) [OF assms [unfolded AddressSpace_find_exact_def]]
  by (auto split: option.splits)

lemma protect_range_ok:
  assumes "space_ok sp ph M" "AddressSpace_protect_range A sp base len rights = (r, sp')"
  shows "space_ok sp' ph M"
proof (cases "PageFlags_is_wx rights \<or> AddressSpace_find_exact sp base len = None")
  case True
  with assms show ?thesis by (auto simp: AddressSpace_protect_range_def split: if_splits)
next
  case False
  then obtain idx where idx: "AddressSpace_find_exact sp base len = Some idx" and wx: "\<not> PageFlags_is_wx rights" by auto
  obtain m where m: "idx < length (as_mappings sp)" "as_mappings sp ! idx = Some m" "mp_base m = base" "mp_len m = len"
    using find_exact_SomeD [OF idx] by blast
  have "m \<in> set (flatten (as_mappings sp))" using m(1,2) by (auto simp: set_flatten) (metis nth_mem)
  then have "mapping_ok m" using space_okD(2) [OF assms(1)] by (simp add: table_ok_def)
  then have al: "\<forall>va \<in> set (map (page_at base) [0..<page_count len]). is_aligned va FRAME_SIZE"
    using m(3) by (auto simp: mapping_ok_def intro: page_at_aligned)
  obtain u sp1 where u: "protect_loop A sp rights (map (page_at base) [0..<page_count len]) = (u, sp1)" by fastforce
  note P = protect_loop_ok [OF assms(1) al u]
  show ?thesis
  proof (cases u)
    case (Err e)
    with assms(2) wx idx u P show ?thesis by (simp add: AddressSpace_protect_range_def)
  next
    case (Ok y)
    have "sp' = (AddressSpace_shoot_down sp1)\<lparr>as_mappings := (as_mappings (AddressSpace_shoot_down sp1))[idx :=
        map_option (\<lambda>m. m\<lparr>mp_rights := rights\<rparr>) (as_mappings (AddressSpace_shoot_down sp1) ! idx)]\<rparr>"
      using assms(2) wx idx u Ok by (simp add: AddressSpace_protect_range_def Let_def)
    moreover have "as_mappings sp1 = as_mappings sp" using P by (simp add: same_table_def)
    ultimately show ?thesis
      using m(1) P
      by (intro retag_ok [of sp1 ph M sp' idx "\<lambda>m. m\<lparr>mp_rights := rights\<rparr>"]) (simp_all add: AddressSpace_shoot_down_def)
  qed
qed

lemma evict_page_ok:
  assumes "space_ok sp ph M" "AddressSpace_evict_page A F sp va ph = (r, sp', ph')"
  shows "space_ok sp' ph' M"
proof -
  note D = space_okD [OF assms(1)]
  have tr: "translate A (as_arch sp) (page_of va) = pages (as_arch sp) (page_of va)"
    by (rule translate_pages [OF D(1)]) simp
  obtain u sp1 where u: "vm_unmap A sp (page_of va) = (u, sp1)" by fastforce
  note U = vm_unmap_law [OF D(1) page_of_aligned u]
  show ?thesis
  proof (cases u)
    case (Err e)
    then have "pages (as_arch sp) (page_of va) = None" using U(4) by simp
    with assms tr show ?thesis by (simp add: AddressSpace_evict_page_def)
  next
    case (Ok f)
    with U(4) obtain fl where p: "pages (as_arch sp) (page_of va) = Some (f, fl)"
        "pages (as_arch sp1) = (pages (as_arch sp))(page_of va := None)" by auto
    have mem: "page_of va \<in> set (space_pages sp)" using D(3) p(1) by simp
    let ?R = "resident (pages (as_arch sp)) (mset (space_pages sp))"
    obtain X where X: "mset (space_pages sp) = add_mset (page_of va) X" using mem by (metis mset_add set_mset_mset)
    have RX: "?R = add_mset f (resident (pages (as_arch sp)) X)" unfolding X using p(1) by simp
    have f: "frames_ok (free_frame F (ph_alloc ph) f) (resident (pages (as_arch sp)) X + M + tables (as_arch sp))"
      using D(4) unfolding RX by (intro free_held) simp
    have "space_ok sp1 (ph\<lparr>ph_alloc := free_frame F (ph_alloc ph) f\<rparr>) M"
      by (rule page_set_ok [OF assms(1) mem U(3) U(1) p(2,1), where N = "resident (pages (as_arch sp)) X + M"])
        (use f U(2) RX in simp_all)
    moreover have "sp' = (fst (vm_free F (AddressSpace_shoot_down sp1) ph f))\<lparr>as_mapped_bytes :=
          sat_sub (as_mapped_bytes (fst (vm_free F (AddressSpace_shoot_down sp1) ph f))) FRAME_SIZE\<rparr>"
        "ph' = snd (vm_free F (AddressSpace_shoot_down sp1) ph f)"
      using assms(2) tr p(1) u Ok by (auto simp: AddressSpace_evict_page_def split: prod.splits)
    ultimately show ?thesis
      by (subst space_ok_cong [of _ sp1 _ "ph\<lparr>ph_alloc := free_frame F (ph_alloc ph) f\<rparr>"])
        (simp_all add: vm_free_def AddressSpace_shoot_down_def)
  qed
qed

text \<open>Taking a whole mapping down, whether its slot is cleared before or after.\<close>

lemma drop_mapping_ok:
  assumes "space_ok sp ph M" "idx < length (as_mappings sp)" "as_mappings sp ! idx = Some m"
    and "as_arch sp0 = as_arch sp" "AddressSpace_unmap_and_free A F sp0 (mp_base m) (page_count (mp_len m)) ph = (n, sp1, ph1)"
    and "as_arch sp' = as_arch sp1" "as_mappings sp' = (as_mappings sp)[idx := None]"
    and "as_mapping_count sp' = as_mapping_count sp - 1"
  shows "space_ok sp' ph1 M" and "same_table sp0 sp1"
proof -
  note D = space_okD [OF assms(1)]
  note C = clear_table [OF D(2) assms(2,3,7,8)]
  let ?vas = "map (page_at (mp_base m)) [0..<page_count (mp_len m)]"
  have vas: "?vas = mapping_pages m" by (simp add: mapping_pages_def)
  have al: "\<forall>va \<in> set ?vas. is_aligned va FRAME_SIZE"
    using C(3) by (auto simp: mapping_ok_def intro: page_at_aligned)
  have "frames_ok (ph_alloc ph) (mset ([] @ page_frames (pages (as_arch sp0)) ?vas) +
      (resident (pages (as_arch sp)) (mset (space_pages sp')) + M) + tables (as_arch sp0))"
    unfolding append_Nil mset_page_frames vas using D(4) unfolding C(2) assms(4) by (simp add: ac_simps)
  from unmap_free_loop_spec [OF _ al _ this assms(5) [unfolded AddressSpace_unmap_and_free_def]]
  have S: "arch_ok (as_arch sp1)" "same_table sp0 sp1"
      "pages (as_arch sp1) = (\<lambda>va. if va \<in> set ?vas then None else pages (as_arch sp) va)"
      "frames_ok (ph_alloc ph1) (resident (pages (as_arch sp)) (mset (space_pages sp')) + M + tables (as_arch sp1))"
    using D(1) assms(4) by auto
  show "same_table sp0 sp1" by (rule S(2))
  have "distinct (mapping_pages m @ space_pages sp')"
    using mset_eq_imp_distinct_iff [of "space_pages sp" "mapping_pages m @ space_pages sp'"] C(2) D(2)
    by (simp add: table_ok_def)
  then have dj: "va \<notin> set ?vas" if "va \<in> set (space_pages sp')" for va
    unfolding vas using that by auto
  have "resident (pages (as_arch sp1)) (mset (space_pages sp')) = resident (pages (as_arch sp)) (mset (space_pages sp'))"
    by (rule resident_cong) (use S(3) dj in simp)
  moreover have "va \<in> set (space_pages sp')" if "pages (as_arch sp1) va \<noteq> None" for va
  proof -
    from that S(3) have "va \<notin> set ?vas" "pages (as_arch sp) va \<noteq> None" by (auto split: if_splits)
    with D(3) [of va] arg_cong [OF C(2), of set_mset] show ?thesis unfolding vas by auto
  qed
  ultimately show "space_ok sp' ph1 M"
    using S C(1) assms(6) by (simp add: space_ok_def)
qed

lemma reclaim_range_ok:
  assumes "space_ok sp ph M" "AddressSpace_reclaim_range A F sp base len ph = (r, sp', ph')"
  shows "space_ok sp' ph' M"
proof (cases "AddressSpace_find_exact sp base len")
  case None
  with assms show ?thesis by (simp add: AddressSpace_reclaim_range_def)
next
  case (Some idx)
  obtain m where m: "idx < length (as_mappings sp)" "as_mappings sp ! idx = Some m" "mp_base m = base" "mp_len m = len"
    using find_exact_SomeD [OF Some] by blast
  obtain n sp1 ph1 where u: "AddressSpace_unmap_and_free A F sp base (page_count len) ph = (n, sp1, ph1)" by (metis prod_cases3)
  have e: "sp' = sp1\<lparr>as_mapped_bytes := sat_sub (as_mapped_bytes sp1) n,
      as_mappings := (as_mappings sp1)[idx := None], as_mapping_count := as_mapping_count sp1 - 1\<rparr>" "ph' = ph1"
    using assms(2) Some u by (simp_all add: AddressSpace_reclaim_range_def)
  let ?sp2 = "sp1\<lparr>as_mappings := (as_mappings sp)[idx := None], as_mapping_count := as_mapping_count sp - 1\<rparr>"
  have "same_table sp sp1" "space_ok ?sp2 ph1 M"
    by (rule drop_mapping_ok(2) [OF assms(1) m(1,2) refl u [folded m(3,4)], where sp' = ?sp2], simp_all)
      (rule drop_mapping_ok(1) [OF assms(1) m(1,2) refl u [folded m(3,4)]], simp_all)
  then show ?thesis unfolding e
    by (subst space_ok_cong [of _ "sp1\<lparr>as_mappings := (as_mappings sp)[idx := None], as_mapping_count := as_mapping_count sp - 1\<rparr>"])
      (simp_all add: same_table_def)
qed

lemma teardown_loop_ok:
  assumes "space_ok sp ph M" "\<forall>i \<in> set idxs. i < length (as_mappings sp)"
    "teardown_loop A F sp ph idxs = (sp', ph')"
  shows "space_ok sp' ph' M \<and> length (as_mappings sp') = length (as_mappings sp) \<and>
    (\<forall>i < length (as_mappings sp). i \<in> set idxs \<or> as_mappings sp ! i = None \<longrightarrow> as_mappings sp' ! i = None)"
  using assms
proof (induction idxs arbitrary: sp ph)
  case (Cons idx idxs)
  show ?case
  proof (cases "as_mappings sp ! idx")
    case None
    with Cons.prems have "teardown_loop A F sp ph idxs = (sp', ph')" by simp
    with Cons.IH [OF Cons.prems(1)] Cons.prems(2) None show ?thesis by auto
  next
    case (Some m)
    have idx: "idx < length (as_mappings sp)" using Cons.prems(2) by simp
    let ?sp0 = "sp\<lparr>as_mappings := (as_mappings sp)[idx := None]\<rparr>"
    obtain n sp1 ph1 where u: "AddressSpace_unmap_and_free A F ?sp0 (mp_base m) (page_count (mp_len m)) ph = (n, sp1, ph1)"
      by (metis prod_cases3)
    let ?sp2 = "sp1\<lparr>as_mapped_bytes := sat_sub (as_mapped_bytes sp1) n, as_mapping_count := as_mapping_count sp1 - 1\<rparr>"
    have st: "same_table ?sp0 sp1"
      by (rule drop_mapping_ok(2) [OF Cons.prems(1) idx Some _ u, where sp' = "sp1\<lparr>as_mappings := (as_mappings sp)[idx := None],
          as_mapping_count := as_mapping_count sp - 1\<rparr>"]) simp_all
    then have t: "as_mappings sp1 = (as_mappings sp)[idx := None]" "as_mapping_count sp1 = as_mapping_count sp"
      by (simp_all add: same_table_def)
    have ok: "space_ok ?sp2 ph1 M"
      by (rule drop_mapping_ok(1) [OF Cons.prems(1) idx Some _ u]) (use t in simp_all)
    have "teardown_loop A F ?sp2 ph1 idxs = (sp', ph')" using Cons.prems(3) Some u by simp
    from Cons.IH [OF ok _ this] Cons.prems(2) t
    have IH: "space_ok sp' ph' M" "length (as_mappings sp') = length (as_mappings sp)"
      "\<forall>i < length (as_mappings sp). i \<in> set idxs \<or> (as_mappings sp)[idx := None] ! i = None \<longrightarrow> as_mappings sp' ! i = None"
      by auto
    have "as_mappings sp' ! i = None" if "i < length (as_mappings sp)" "i \<in> set (idx # idxs) \<or> as_mappings sp ! i = None" for i
      using IH(3) that by (cases "i = idx") auto
    with IH(1,2) show ?thesis by blast
  qed
qed simp

lemma teardown_ok:
  assumes "space_ok sp ph M" "AddressSpace_teardown A F sp ph = (sp', ph')"
  shows "frames_ok (ph_alloc ph') M"
proof -
  obtain sp1 ph1 where t: "teardown_loop A F sp ph [0..<length (as_mappings sp)] = (sp1, ph1)" by fastforce
  have "\<forall>i \<in> set [0..<length (as_mappings sp)]. i < length (as_mappings sp)" by simp
  note T = teardown_loop_ok [OF assms(1) this t]
  have "flatten (as_mappings sp1) = []"
  proof (rule ccontr)
    assume "flatten (as_mappings sp1) \<noteq> []"
    then obtain m where "Some m \<in> set (as_mappings sp1)" by (metis list.set_intros(1) neq_Nil_conv mem_Collect_eq set_flatten)
    then obtain i where "i < length (as_mappings sp1)" "as_mappings sp1 ! i = Some m" by (metis in_set_conv_nth)
    with T show False by auto
  qed
  then have "space_pages sp1 = []" by (simp add: space_pages_def)
  with T have fr: "frames_ok (ph_alloc ph1) (M + tables (as_arch sp1))" and ok: "arch_ok (as_arch sp1)"
    by (simp_all add: space_ok_def)
  obtain a s where f: "free_tables A (as_arch sp1) (ph_alloc ph1) = (a, s)" by fastforce
  have "ph_alloc ph' = s" using assms(2) t f by (auto simp: AddressSpace_teardown_def)
  with free_tables_law [OF ok fr f] show ?thesis by simp
qed

lemma from_arch_ok:
  assumes "arch_ok a" "\<And>va. pages a va = None" "frames_ok (ph_alloc ph) (M + tables a)"
  shows "space_ok (AddressSpace_from_arch n a asid cores) ph M"
  using assms by (simp add: space_ok_def table_ok_def space_pages_def AddressSpace_from_arch_def count_some_def)

end

subsection \<open>The life of a space\<close>

text \<open>The steps a space takes while a process runs on it, and those the rest of the kernel takes
  beside it. The third component is the references held outside the space, by memory objects
  and other spaces: they are drawn, counted up and returned by the \<open>outside\<close> steps, a page a
  pager hands over leaves them, and a page of an object that is installed adds a reference of
  the space's own. \<open>R\<close> says when the allocator has room to count a reference (its failure to
  is silent). The obligations on callers are that a range does not wrap around the address
  space, which for user ranges the bound check implies, and that a fault is not one on a
  copy-on-write page. Device windows and \<^verbatim>\<open>map_shared\<close> are not steps.\<close>

inductive vm_step ::
  "('a, 'f) ArchOps \<Rightarrow> 'f FrameOps \<Rightarrow> ('f \<Rightarrow> PhysFrame \<Rightarrow> bool) \<Rightarrow>
   'a AddressSpace \<times> 'f Phys \<times> PhysFrame multiset \<Rightarrow> 'a AddressSpace \<times> 'f Phys \<times> PhysFrame multiset \<Rightarrow> bool"
  for A F R where
  step_anonymous: "unat base + unat len < 2 ^ 64 \<Longrightarrow>
     AddressSpace_map_anonymous A F sp base len rights ph = (r, sp', ph') \<Longrightarrow> vm_step A F R (sp, ph, M) (sp', ph', M)"
| step_demand: "unat base + unat len < 2 ^ 64 \<Longrightarrow>
     AddressSpace_map_anonymous_demand A sp base len rights = (r, sp') \<Longrightarrow> vm_step A F R (sp, ph, M) (sp', ph, M)"
| step_object: "unat base + unat len < 2 ^ 64 \<Longrightarrow>
     AddressSpace_map_object A sp base len rights oid off = (r, sp') \<Longrightarrow> vm_step A F R (sp, ph, M) (sp', ph, M)"
| step_fault: "AddressSpace_backing_at sp virt \<noteq> Some Cow \<Longrightarrow>
     AddressSpace_resolve_fault A F sp virt write ph = (o', sp', ph') \<Longrightarrow> vm_step A F R (sp, ph, M) (sp', ph', M)"
| step_supply: "frame \<in># M \<Longrightarrow> is_aligned frame FRAME_SIZE \<Longrightarrow>
     AddressSpace_supply_page A sp va frame ph = (r, sp', ph') \<Longrightarrow>
     vm_step A F R (sp, ph, M) (sp', ph', if is_ok r then M - {#frame#} else M)"
| step_install: "frame \<in># M \<Longrightarrow> is_aligned frame FRAME_SIZE \<Longrightarrow> R (ph_alloc ph) frame \<Longrightarrow>
     AddressSpace_install_object_page A F sp va frame ph = (r, sp', ph') \<Longrightarrow> vm_step A F R (sp, ph, M) (sp', ph', M)"
| step_grant: "AddressSpace_grant_write A sp va = (r, sp') \<Longrightarrow> vm_step A F R (sp, ph, M) (sp', ph, M)"
| step_reprotect: "AddressSpace_reprotect_ro A sp va = (r, sp') \<Longrightarrow> vm_step A F R (sp, ph, M) (sp', ph, M)"
| step_protect: "AddressSpace_protect_range A sp base len rights = (r, sp') \<Longrightarrow> vm_step A F R (sp, ph, M) (sp', ph, M)"
| step_evict: "AddressSpace_evict_page A F sp va ph = (r, sp', ph') \<Longrightarrow> vm_step A F R (sp, ph, M) (sp', ph', M)"
| step_reclaim: "AddressSpace_reclaim_range A F sp base len ph = (r, sp', ph') \<Longrightarrow> vm_step A F R (sp, ph, M) (sp', ph', M)"
| outside_alloc: "alloc_frame F (ph_alloc ph) = (g, s') \<Longrightarrow>
     vm_step A F R (sp, ph, M) (sp, ph\<lparr>ph_alloc := s'\<rparr>, case g of Some frame \<Rightarrow> add_mset frame M | None \<Rightarrow> M)"
| outside_retain: "frame \<in># M \<Longrightarrow> R (ph_alloc ph) frame \<Longrightarrow>
     vm_step A F R (sp, ph, M) (sp, vm_retain F ph frame, add_mset frame M)"
| outside_free: "frame \<in># M \<Longrightarrow>
     vm_step A F R (sp, ph, M) (sp, ph\<lparr>ph_alloc := free_frame F (ph_alloc ph) frame\<rparr>, M - {#frame#})"
| outside_write: "vm_step A F R (sp, ph, M) (sp, ph\<lparr>ph_mem := mem\<rparr>, M)"

inductive_cases vm_stepE: "vm_step A F R (sp, ph, M) (sp', ph', M')"

context arch_space
begin

text \<open>A reference counted up outside the space, and one given back.\<close>

lemma outside_retain_ok:
  assumes "space_ok sp ph M" "frame \<in># M" "can_retain (ph_alloc ph) frame"
  shows "space_ok sp (vm_retain F ph frame) (add_mset frame M)"
  using assms retain_held [OF space_okD(4) [OF assms(1)], of frame]
  by (simp add: space_ok_def vm_retain_def)

lemma outside_free_ok:
  assumes "space_ok sp ph (add_mset frame M)"
  shows "space_ok sp (ph\<lparr>ph_alloc := free_frame F (ph_alloc ph) frame\<rparr>) M"
  using assms by (simp add: space_ok_def free_held)

lemma outside_alloc_ok:
  assumes "space_ok sp ph M" "alloc_frame F (ph_alloc ph) = (g, s')"
  shows "space_ok sp (ph\<lparr>ph_alloc := s'\<rparr>) (case g of Some frame \<Rightarrow> add_mset frame M | None \<Rightarrow> M)"
  using assms alloc_fresh [OF space_okD(4) [OF assms(1)]] alloc_exhausted [OF space_okD(4) [OF assms(1)]]
  by (cases g) (auto simp: space_ok_def)

lemma install_object_page_ok:
  assumes "space_ok sp ph M" "frame \<in># M" "is_aligned frame FRAME_SIZE" "can_retain (ph_alloc ph) frame"
    and "AddressSpace_install_object_page A F sp va frame ph = (r, sp', ph')"
  shows "space_ok sp' ph' M"
proof -
  obtain u sp1 ph1 where s: "AddressSpace_supply_page A sp va frame (vm_retain F ph frame) = (u, sp1, ph1)"
    by (metis prod_cases3)
  have ok: "space_ok sp1 ph1 (if is_ok u then M else add_mset frame M)"
    using supply_page_ok [OF outside_retain_ok [OF assms(1,2,4)] _ assms(3) s] by (simp split: if_splits)
  show ?thesis
  proof (cases u)
    case (Ok y)
    with ok s assms(5) show ?thesis by (simp add: AddressSpace_install_object_page_def)
  next
    case (Err e)
    with ok have "space_ok sp1 (ph1\<lparr>ph_alloc := free_frame F (ph_alloc ph1) frame\<rparr>) M"
      by (intro outside_free_ok) simp
    with Err s assms(5) show ?thesis
      by (subst space_ok_cong [of _ sp1 _ "ph1\<lparr>ph_alloc := free_frame F (ph_alloc ph1) frame\<rparr>"])
        (auto simp: AddressSpace_install_object_page_def vm_free_def)
  qed
qed

lemma vm_step_ok:
  assumes "vm_step A F can_retain (sp, ph, M) (sp', ph', M')" "space_ok sp ph M"
  shows "space_ok sp' ph' M'"
proof (rule vm_stepE [OF assms(1)], goal_cases)
  case 1
  then show ?case using map_anonymous_ok [OF assms(2)] by auto
next
  case 2
  then show ?case
    using assms(2) record_ok [OF assms(2)]
    by (auto simp: AddressSpace_map_anonymous_demand_def split: res.splits)
next
  case 3
  then show ?case
    using assms(2) record_ok [OF assms(2)]
    by (auto simp: AddressSpace_map_object_def split: res.splits)
next
  case 4
  then show ?case using resolve_fault_ok [OF assms(2)] by auto
next
  case 5
  then show ?case using supply_page_ok [OF assms(2)] by auto
next
  case 6
  then show ?case using install_object_page_ok [OF assms(2)] by auto
next
  case 7
  then show ?case
    using assms(2) vm_protect_ok(1) [OF assms(2) page_of_aligned]
    by (auto simp: AddressSpace_grant_write_def split: option.splits)
next
  case 8
  then show ?case
    using assms(2) vm_protect_ok(1) [OF assms(2) page_of_aligned]
    by (auto simp: AddressSpace_reprotect_ro_def split: option.splits)
next
  case 9
  then show ?case using protect_range_ok [OF assms(2)] by auto
next
  case 10
  then show ?case using evict_page_ok [OF assms(2)] by auto
next
  case 11
  then show ?case using reclaim_range_ok [OF assms(2)] by auto
next
  case 12
  then show ?case using outside_alloc_ok [OF assms(2)] by auto
next
  case 13
  then show ?case using outside_retain_ok [OF assms(2)] by auto
next
  case (14 frame)
  then show ?case using outside_free_ok [of sp ph frame "M - {#frame#}"] assms(2) by simp
next
  case 15
  then show ?case using assms(2) by (simp add: space_ok_def)
qed

lemma vm_run_ok:
  assumes "(vm_step A F can_retain)\<^sup>*\<^sup>* (sp, ph, M) (sp', ph', M')" "space_ok sp ph M"
  shows "space_ok sp' ph' M'"
  using assms
proof (induction "(sp', ph', M')" arbitrary: sp' ph' M' rule: rtranclp_induct)
  case (step y)
  obtain sp1 ph1 M1 where y: "y = (sp1, ph1, M1)" by (cases y)
  with step show ?case using vm_step_ok by blast
qed

lemma life_returns_frames:
  assumes "arch_ok a" "\<And>va. pages a va = None" "frames_ok (ph_alloc ph) (M + tables a)"
    and "(vm_step A F can_retain)\<^sup>*\<^sup>* (AddressSpace_from_arch n a asid cores, ph, M) (sp, ph1, M1)"
    and "AddressSpace_teardown A F sp ph1 = (sp', ph')"
  shows "frames_ok (ph_alloc ph') M1"
  using teardown_ok [OF vm_run_ok [OF assms(4) from_arch_ok [OF assms(1-3)]] assms(5)] .

end

text \<open>The kernel's own frame allocator under the host port's page tables.\<close>

interpretation bump_as: arch_space bump_frames bump_accounted bump_can_retain mock_arch ma_mappings "\<lambda>_. {#}" mock_arch_ok
  by (rule mock_arch_space) (rule bump_acc.frame_source_axioms)

text \<open>C2: Tearing a space down gives every frame back. Take a boot memory map, a fresh frame
  allocator and a fresh address space, and let any sequence of eager and lazy mappings,
  faults, pages supplied by a pager, installed pages of memory objects, permission changes,
  evictions and reclaims run on it, failed ones included, while the rest of the kernel draws,
  shares, writes and returns frames of its own. After the teardown every frame the allocator
  ever drew is held by somebody outside the space, is back on the free list, or was counted
  as a reclaim overflow, and none is both free and held: the space loses no frame silently.
  The runs are those whose mapped ranges do not wrap around, whose faults are not on
  copy-on-write pages, whose shared references the allocator has room to count, and which
  map no device window or shared run of pages.\<close>
theorem teardown_returns_every_frame:
  assumes "normalize_memory_map max_edges max_out regions = Ok m"
    and "ph_alloc ph = BumpFrameAllocator_new max_free max_shared m"
    and "(vm_step mock_arch bump_frames bump_can_retain)\<^sup>*\<^sup>*
           (AddressSpace_from_arch max_mappings MockAddressSpace_new asid cores, ph, {#}) (sp, ph1, M)"
    and "AddressSpace_teardown mock_arch bump_frames sp ph1 = (sp', ph')"
  shows "fa_handed_out (ph_alloc ph') \<le>
           card (set_mset M) + fa_free_count (ph_alloc ph') + fa_reclaim_overflows (ph_alloc ph') \<and>
         distinct (free_of (ph_alloc ph')) \<and> set (free_of (ph_alloc ph')) \<inter> set_mset M = {}"
proof -
  have "bump_accounted (ph_alloc ph') M"
  proof (rule bump_as.life_returns_frames [OF mock_arch_new _ _ assms(3,4)])
    show "ma_mappings MockAddressSpace_new va = None" for va by (simp add: MockAddressSpace_new_def)
    have "map_ok m" using normalize_sound [OF assms(1)] by blast
    then show "bump_accounted (ph_alloc ph) ({#} + {#})"
      using BumpFrameAllocator_new_accounted assms(2) by simp
  qed
  then show ?thesis by (auto simp: bump_accounted_def dest: bump_frames_okD(4,5))
qed

definition sample_phys :: "BumpFrameAllocator Phys" where
  "sample_phys = \<lparr>ph_alloc = BumpFrameAllocator_new 2 1 sample_boot_map, ph_mem = (\<lambda>_. [])\<rparr>"

definition sample_space :: "MockAddressSpace AddressSpace" where
  "sample_space = AddressSpace_from_arch 4 MockAddressSpace_new 1 1"

lemma sample_boot_map_normalized: "normalize_memory_map 6 6 sample_map = Ok sample_boot_map"
proof -
  have "is_ok (normalize_memory_map 6 6 sample_map)" by code_simp
  then show ?thesis by (auto simp: sample_boot_map_def is_ok_iff)
qed

text \<open>The witness draws a frame outside the space, maps an object, hands the frame over as its
  first page, maps two pages more and tears the space down.\<close>

definition sample_page_frame :: PhysFrame where
  "sample_page_frame = the (fst (alloc_frame bump_frames (ph_alloc sample_phys)))"

definition sample_drawn :: "BumpFrameAllocator Phys" where
  "sample_drawn = sample_phys\<lparr>ph_alloc := snd (alloc_frame bump_frames (ph_alloc sample_phys))\<rparr>"

definition sample_object_space :: "MockAddressSpace AddressSpace" where
  "sample_object_space = snd (AddressSpace_map_object (mock_arch :: (MockAddressSpace, BumpFrameAllocator) ArchOps)
     sample_space 0x600000 0x1000 PageFlags_rw (ObjectId 7) 0)"

lemma sample_supply:
  "fst (alloc_frame bump_frames (ph_alloc sample_phys)) = Some sample_page_frame"
  "is_aligned sample_page_frame FRAME_SIZE"
  "is_ok (fst (AddressSpace_supply_page mock_arch sample_object_space 0x600000 sample_page_frame sample_drawn))"
  by code_simp+

theorem teardown_returns_every_frame_witness:
  "let (r0, sp0, ph0) = AddressSpace_supply_page mock_arch sample_object_space 0x600000 sample_page_frame sample_drawn;
       (r, sp, ph) = AddressSpace_map_anonymous mock_arch bump_frames sp0 0x400000 0x2000 PageFlags_rw ph0;
       (sp', ph') = AddressSpace_teardown mock_arch bump_frames sp ph
   in is_ok r0 \<and> fa_handed_out (ph_alloc ph') \<le> fa_free_count (ph_alloc ph') + fa_reclaim_overflows (ph_alloc ph')"
proof -
  let ?step = "vm_step mock_arch bump_frames bump_can_retain"
  obtain r0 sp0 ph0 where s: "AddressSpace_supply_page mock_arch sample_object_space 0x600000 sample_page_frame sample_drawn
      = (r0, sp0, ph0)" by (metis prod_cases3)
  obtain r sp ph where m: "AddressSpace_map_anonymous mock_arch bump_frames sp0 0x400000 0x2000 PageFlags_rw ph0
      = (r, sp, ph)" by (metis prod_cases3)
  obtain sp' ph' where t: "AddressSpace_teardown mock_arch bump_frames sp ph = (sp', ph')" by fastforce
  have ok: "is_ok r0" using sample_supply(3) s by simp
  have "?step (sample_space, sample_phys, {#}) (sample_space, sample_drawn, {#sample_page_frame#})"
    using outside_alloc [of bump_frames sample_phys "Some sample_page_frame" _ mock_arch bump_can_retain sample_space "{#}"]
      sample_supply(1) by (simp add: sample_drawn_def prod_eq_iff)
  moreover have "?step (sample_space, sample_drawn, {#sample_page_frame#}) (sample_object_space, sample_drawn, {#sample_page_frame#})"
    by (rule step_object [of "0x600000" "0x1000" mock_arch sample_space PageFlags_rw "ObjectId 7" 0 _ sample_object_space])
      (simp_all add: sample_object_space_def prod_eq_iff)
  moreover have "?step (sample_object_space, sample_drawn, {#sample_page_frame#}) (sp0, ph0, {#})"
    using step_supply [OF _ sample_supply(2) s, of "{#sample_page_frame#}"] ok by simp
  moreover have "?step (sp0, ph0, {#}) (sp, ph, {#})" by (rule step_anonymous [OF _ m]) simp
  ultimately have st: "?step\<^sup>*\<^sup>* (AddressSpace_from_arch 4 MockAddressSpace_new 1 1, sample_phys, {#}) (sp, ph, {#})"
    unfolding sample_space_def by (auto intro: converse_rtranclp_into_rtranclp)
  have "ph_alloc sample_phys = BumpFrameAllocator_new 2 1 sample_boot_map" by (simp add: sample_phys_def)
  from teardown_returns_every_frame [OF sample_boot_map_normalized this st t] s m t ok show ?thesis by simp
qed

end
