(* ===== verification/VmFaults.thy ===== *)
theory VmFaults
  imports VmAccounting
begin

text \<open>
  Mapping and fault resolution, seen from the program that uses the memory: eager mappings
  are all or nothing and zeroed, a resolved fault makes the access possible and disturbs
  nobody else, and three places where \<^verbatim>\<open>kcore/src/vm.rs\<close> does not do what its comments say.
\<close>

context arch_space
begin

lemma map_anonymous_spec:
  assumes "arch_ok (as_arch sp)" "frames_ok (ph_alloc ph) (M + tables (as_arch sp))"
    "AddressSpace_map_anonymous A F sp base len rights ph = (r, sp', ph')"
  shows "case r of
      Err _ \<Rightarrow> pages (as_arch sp') = pages (as_arch sp) \<and> same_table sp sp' \<and>
        frames_ok (ph_alloc ph') (M + tables (as_arch sp')) \<and> (\<forall>g \<in># M. ph_mem ph' g = ph_mem ph g)
    | Ok _ \<Rightarrow> \<not> PageFlags_is_wx rights \<and>
        (\<forall>i < page_count len. pages (as_arch sp) (page_at base i) = None \<and>
           (\<exists>f. pages (as_arch sp') (page_at base i) = Some (f, rights) \<and> ph_mem ph' f = replicate 4096 0 \<and> f \<notin># M)) \<and>
        distinct (page_frames (pages (as_arch sp')) (map (page_at base) [0..<page_count len])) \<and>
        (\<forall>va. va \<notin> set (map (page_at base) [0..<page_count len]) \<longrightarrow> pages (as_arch sp') va = pages (as_arch sp) va) \<and>
        (\<forall>g \<in># M. ph_mem ph' g = ph_mem ph g)"
proof (cases "map_checks A sp base len rights")
  case (Err e)
  with assms show ?thesis by (auto simp: AddressSpace_map_anonymous_def split: res.splits)
next
  case (Ok u)
  have al: "is_aligned base FRAME_SIZE" "\<not> PageFlags_is_wx rights"
    using Ok by (auto simp: map_checks_def split: if_splits)
  have I: "anon_inv (pages (as_arch sp)) (ph_mem ph) sp base rights 0 M ph"
    using assms(1,2) by (simp add: anon_inv_def)
  obtain x sp1 ph1 where l: "anonymous_loop A F sp base rights ph 0 (page_count len) = (x, sp1, ph1)" by (metis prod_cases3)
  have S: "same_table sp sp1 \<and>
    (case x of
       Ok _ \<Rightarrow> anon_inv (pages (as_arch sp)) (ph_mem ph) sp1 base rights (0 + page_count len) M ph1
     | Err _ \<Rightarrow> arch_ok (as_arch sp1) \<and> frames_ok (ph_alloc ph1) (M + tables (as_arch sp1)) \<and>
         pages (as_arch sp1) = pages (as_arch sp) \<and> (\<forall>f \<in># M. ph_mem ph1 f = ph_mem ph f))"
    using page_count_le by (intro anonymous_loop_spec [OF I al(1) _ l]) simp
  show ?thesis
  proof (cases x)
    case (Err e)
    with S assms(3) Ok l show ?thesis by (auto simp: AddressSpace_map_anonymous_def)
  next
    case xok: (Ok y)
    let ?sp2 = "AddressSpace_record sp1 base len rights Anonymous"
    have e: "r = Ok ()" "ph' = ph1" "as_arch sp' = as_arch sp1"
      using assms(3) Ok l xok
      by (auto simp: AddressSpace_map_anonymous_def AddressSpace_record_def Let_def split: option.splits)
    have "anon_inv (pages (as_arch sp)) (ph_mem ph) sp1 base rights (page_count len) M ph1" using S xok by simp
    then show ?thesis unfolding e anon_inv_def using al(2) by simp
  qed
qed

text \<open>Both ways a fault is resolved put a fresh frame behind the page and leave every other
  page and every held frame as they were.\<close>

definition fault_resolved ::
    "'a AddressSpace \<Rightarrow> 'f Phys \<Rightarrow> PhysFrame multiset \<Rightarrow> VirtAddr \<Rightarrow> PageFlags \<Rightarrow> 8 word list \<Rightarrow>
     'a AddressSpace \<Rightarrow> 'f Phys \<Rightarrow> bool" where
  "fault_resolved sp ph M page rights bytes sp' ph' \<longleftrightarrow>
     (\<exists>f. f \<notin># M \<and> pages (as_arch sp') = (pages (as_arch sp))(page \<mapsto> (f, rights)) \<and> ph_mem ph' f = bytes) \<and>
     (\<forall>g \<in># M. ph_mem ph' g = ph_mem ph g)"

lemma demand_fill_spec:
  assumes "arch_ok (as_arch sp)" "frames_ok (ph_alloc ph) (M + tables (as_arch sp))"
    "AddressSpace_demand_fill A F sp page rights ph = (Filled, sp', ph')"
  shows "fault_resolved sp ph M page rights (replicate 4096 0) sp' ph'"
proof -
  obtain q ph1 where al: "vm_alloc F ph = (q, ph1)" by fastforce
  note L = vm_alloc_law [OF assms(2) al]
  from assms(3) al obtain f where f: "q = Some f" by (cases q) (auto simp: AddressSpace_demand_fill_def)
  then have F: "f \<notin># M" "is_aligned f FRAME_SIZE" "frames_ok (ph_alloc ph1) (add_mset f M + tables (as_arch sp))"
    using L(2) by simp_all
  define phz where "phz = ph1\<lparr>ph_mem := zero_frame (ph_mem ph1) f\<rparr>"
  obtain u sp2 ph2 where mp: "vm_map A sp page f rights phz = (u, sp2, ph2)" by (metis prod_cases3)
  have "frames_ok (ph_alloc phz) (add_mset f M + tables (as_arch sp))" using F(3) by (simp add: phz_def)
  note V = vm_map_law [OF assms(1) F(2) this mp]
  from assms(3) al f mp obtain y where u: "u = Ok y" "as_arch sp' = as_arch sp2" "ph' = ph2"
    by (cases u) (auto simp: AddressSpace_demand_fill_def phz_def split: prod.splits)
  have "ph_mem ph' g = (if g = f then replicate 4096 0 else ph_mem ph g)" for g
    using V(6) L(1) by (simp add: u phz_def zero_frame_def)
  moreover have "pages (as_arch sp') = (pages (as_arch sp))(page \<mapsto> (f, rights))" using V(4) by (simp add: u)
  ultimately show ?thesis unfolding fault_resolved_def using F(1) by auto
qed

lemma cow_copy_spec:
  assumes "arch_ok (as_arch sp)" "frames_ok (ph_alloc ph) (M + tables (as_arch sp))" "is_aligned page FRAME_SIZE"
    "\<And>va f fl. pages (as_arch sp) va = Some (f, fl) \<Longrightarrow> f \<in># M"
    "AddressSpace_cow_copy A F sp page rights ph = (Copied, sp', ph')"
  shows "\<exists>shared fl. pages (as_arch sp) page = Some (shared, fl) \<and> \<not> PageFlags_writable fl \<and>
    fault_resolved sp ph M page rights (ph_mem ph shared) sp' ph' \<and>
    as_log sp' = as_log sp @ [TlbUnmap shared, TlbFree shared]"
proof -
  have tr: "translate A (as_arch sp) page = pages (as_arch sp) page" by (rule translate_pages [OF assms(1,3)])
  from assms(5) obtain shared fl where sh: "pages (as_arch sp) page = Some (shared, fl)" "\<not> PageFlags_writable fl"
    by (auto simp: AddressSpace_cow_copy_def tr split: option.splits if_splits)
  obtain q ph1 where al: "vm_alloc F ph = (q, ph1)" by fastforce
  note L = vm_alloc_law [OF assms(2) al]
  from assms(5) al sh tr obtain f where f: "q = Some f" by (cases q) (auto simp: AddressSpace_cow_copy_def)
  then have F: "f \<notin># M" "is_aligned f FRAME_SIZE" "frames_ok (ph_alloc ph1) (add_mset f M + tables (as_arch sp))"
    using L(2) by simp_all
  define ph2 where "ph2 = ph1\<lparr>ph_mem := copy_frame (ph_mem ph1) f shared\<rparr>"
  obtain u sp2 where um: "vm_unmap A sp page = (u, sp2)" by fastforce
  note U = vm_unmap_law [OF assms(1,3) um]
  have u: "u = Ok shared" "pages (as_arch sp2) = (pages (as_arch sp))(page := None)"
    using U(4) sh(1) by (cases u; simp)+
  obtain w sp3 ph3 where mp: "vm_map A sp2 page f rights ph2 = (w, sp3, ph3)" by (metis prod_cases3)
  have "frames_ok (ph_alloc ph2) (add_mset f M + tables (as_arch sp2))" using F(3) U(2) by (simp add: ph2_def)
  note V = vm_map_law [OF U(1) F(2) this mp]
  from assms(5) al f sh tr um u(1) mp obtain y where w: "w = Ok y" and e: "(sp', ph') = vm_free F sp3 ph3 shared"
    by (cases w) (auto simp: AddressSpace_cow_copy_def ph2_def Let_def split: prod.splits)
  then have e': "as_arch sp' = as_arch sp3" "ph_mem ph' = ph_mem ph3" "as_log sp' = as_log sp3 @ [TlbFree shared]"
    by (auto simp: vm_free_def)
  have "shared \<in># M" by (rule assms(4) [OF sh(1)])
  then have "shared \<noteq> f" using F(1) by auto
  then have "ph_mem ph' g = (if g = f then ph_mem ph shared else ph_mem ph g)" for g
    using V(6) L(1) by (simp add: e' ph2_def copy_frame_def)
  moreover have "pages (as_arch sp') = (pages (as_arch sp))(page \<mapsto> (f, rights))" using V(4) u(2) by (simp add: e' w)
  moreover have "as_log sp' = as_log sp @ [TlbUnmap shared, TlbFree shared]" using V(5) U(5) u(1) by (simp add: e')
  ultimately show ?thesis unfolding fault_resolved_def using F(1) sh by auto
qed

end

text \<open>C19: An eager mapping is all or nothing. When \<open>map_anonymous\<close> succeeds, every page of the range
  was unmapped before and now has the requested rights (never writable and executable) on a
  frame of its own that nobody else holds and that reads as zeroes; when it fails, on
  whichever page it ran out, the page tables, the mapping table and the references held are
  exactly what they were. Either way no other page and no frame held elsewhere changes.\<close>
theorem map_anonymous_all_or_nothing:
  assumes "mock_arch_ok (as_arch sp)" "bump_accounted (ph_alloc ph) M"
    and "AddressSpace_map_anonymous mock_arch bump_frames sp base len rights ph = (r, sp', ph')"
  shows "case r of
      Err _ \<Rightarrow> ma_mappings (as_arch sp') = ma_mappings (as_arch sp) \<and> same_table sp sp' \<and>
        bump_accounted (ph_alloc ph') M \<and> (\<forall>g \<in># M. ph_mem ph' g = ph_mem ph g)
    | Ok _ \<Rightarrow> \<not> PageFlags_is_wx rights \<and>
        (\<forall>i < page_count len. ma_mappings (as_arch sp) (page_at base i) = None \<and>
           (\<exists>f. ma_mappings (as_arch sp') (page_at base i) = Some (f, rights) \<and> ph_mem ph' f = replicate 4096 0 \<and> f \<notin># M)) \<and>
        distinct (page_frames (ma_mappings (as_arch sp')) (map (page_at base) [0..<page_count len])) \<and>
        (\<forall>va. va \<notin> set (map (page_at base) [0..<page_count len]) \<longrightarrow>
           ma_mappings (as_arch sp') va = ma_mappings (as_arch sp) va) \<and>
        (\<forall>g \<in># M. ph_mem ph' g = ph_mem ph g)"
  by (rule bump_as.map_anonymous_spec [OF assms(1) _ assms(3), of M, unfolded add_0_right, OF assms(2)])

theorem map_anonymous_all_or_nothing_witness:
  "let (r, sp', ph') = AddressSpace_map_anonymous mock_arch bump_frames sample_space 0x400000 0x1000 PageFlags_rw sample_phys
   in case r of Err _ \<Rightarrow> same_table sample_space sp'
      | Ok _ \<Rightarrow> \<exists>f. ma_mappings (as_arch sp') 0x400000 = Some (f, PageFlags_rw) \<and> ph_mem ph' f = replicate 4096 0"
proof -
  obtain r sp' ph' where m: "AddressSpace_map_anonymous mock_arch bump_frames sample_space 0x400000 0x1000 PageFlags_rw sample_phys
      = (r, sp', ph')" by (metis prod_cases3)
  have "map_ok sample_boot_map" using normalize_sound [OF sample_boot_map_normalized] by blast
  then have ok: "mock_arch_ok (as_arch sample_space)" "bump_accounted (ph_alloc sample_phys) {#}"
    by (simp_all add: sample_space_def AddressSpace_from_arch_def mock_arch_new sample_phys_def BumpFrameAllocator_new_accounted)
  have n: "page_count 0x1000 = 1" "page_at 0x400000 0 = 0x400000" by (simp_all add: page_count_def page_at_def FRAME_SIZE_def)
  from map_anonymous_all_or_nothing [OF ok m] show ?thesis
    unfolding m Let_def prod.case n by (cases r) (auto simp: n)
qed

text \<open>C20: A resolved fault makes the access possible and touches nobody else. When \<open>resolve_fault\<close>
  reports \<open>Filled\<close> or \<open>Copied\<close>, the faulting page now translates, with the mapping's own rights,
  to a frame nobody held before; its contents are zeroes for a first touch and the bytes of
  the page it shared for a copy-on-write fault. Every other page translates as before and no
  frame held anywhere changed its contents, so the other side of a snapshot does not see the
  write that follows.\<close>
theorem fault_resolution_progress:
  assumes "mock_arch_ok (as_arch sp)" "bump_accounted (ph_alloc ph) M"
    and "\<And>va f fl. ma_mappings (as_arch sp) va = Some (f, fl) \<Longrightarrow> f \<in># M"
    and "AddressSpace_resolve_fault mock_arch bump_frames sp virt write ph = (outcome, sp', ph')"
    and "outcome = Filled \<or> outcome = Copied"
  shows "\<exists>f rights. AddressSpace_rights_at sp virt = Some rights \<and> f \<notin># M \<and>
      ma_mappings (as_arch sp') = (ma_mappings (as_arch sp))(page_of virt \<mapsto> (f, rights)) \<and>
      (case ma_mappings (as_arch sp) (page_of virt) of
         None \<Rightarrow> outcome = Filled \<and> ph_mem ph' f = replicate 4096 0
       | Some (shared, _) \<Rightarrow> outcome = Copied \<and> write \<and> ph_mem ph' f = ph_mem ph shared) \<and>
      (\<forall>g \<in># M. ph_mem ph' g = ph_mem ph g)"
proof (cases "AddressSpace_mapping_covering sp virt")
  case None
  with assms(4,5) show ?thesis by (auto simp: AddressSpace_resolve_fault_def)
next
  case (Some m)
  let ?page = "page_of virt" and ?rights = "mp_rights m"
  have tr: "translate (mock_arch :: (MockAddressSpace, BumpFrameAllocator) ArchOps) (as_arch sp) ?page = ma_mappings (as_arch sp) ?page"
    by (rule bump_as.translate_pages [OF assms(1)]) simp
  have fr: "bump_accounted (ph_alloc ph) (M + {#})" using assms(2) by simp
  have ri: "AddressSpace_rights_at sp virt = Some ?rights" using Some by (simp add: AddressSpace_rights_at_def)
  note eq = assms(4) [unfolded AddressSpace_resolve_fault_def Some option.case Let_def tr]
  show ?thesis
  proof (cases "mp_backing m")
    case AnonymousDemand
    with eq assms(5) have p: "ma_mappings (as_arch sp) ?page = None"
      and d: "AddressSpace_demand_fill mock_arch bump_frames sp ?page ?rights ph = (outcome, sp', ph')"
      by (cases "ma_mappings (as_arch sp) ?page"; force)+
    have "outcome \<noteq> Copied" using d
      by (auto simp: AddressSpace_demand_fill_def split: option.splits prod.splits res.splits)
    with assms(5) have o: "outcome = Filled" by blast
    show ?thesis
      using bump_as.demand_fill_spec [OF assms(1) fr d [unfolded o]] p ri o
      by (auto simp: bump_as.fault_resolved_def)
  next
    case Cow
    with eq assms(5) have w: "write"
      and d: "AddressSpace_cow_copy mock_arch bump_frames sp ?page ?rights ph = (outcome, sp', ph')"
      by (auto split: if_splits)
    have "outcome \<noteq> Filled" using d
      by (auto simp: AddressSpace_cow_copy_def Let_def split: option.splits prod.splits res.splits if_splits)
    with assms(5) have o: "outcome = Copied" by blast
    have "\<exists>shared fl. ma_mappings (as_arch sp) ?page = Some (shared, fl) \<and> \<not> PageFlags_writable fl \<and>
        bump_as.fault_resolved sp ph M ?page ?rights (ph_mem ph shared) sp' ph' \<and>
        as_log sp' = as_log sp @ [TlbUnmap shared, TlbFree shared]"
      by (rule bump_as.cow_copy_spec [OF assms(1) fr page_of_aligned _ d [unfolded o]]) (rule assms(3))
    with ri o w show ?thesis by (auto simp: bump_as.fault_resolved_def)
  qed (use eq assms(5) in \<open>auto split: option.splits if_splits\<close>)
qed

definition sample_lazy :: "MockAddressSpace AddressSpace" where
  "sample_lazy = snd (AddressSpace_map_anonymous_demand (mock_arch :: (MockAddressSpace, BumpFrameAllocator) ArchOps)
     sample_space 0x400000 0x1000 PageFlags_rw)"

lemma sample_lazy_pages: "ma_mappings (as_arch sample_lazy) = Map.empty"
  by (auto simp: sample_lazy_def AddressSpace_map_anonymous_demand_def AddressSpace_record_def sample_space_def
      AddressSpace_from_arch_def MockAddressSpace_new_def split: res.splits option.splits)

lemma sample_lazy_ok: "bump_as.space_ok sample_lazy sample_phys {#}"
proof -
  have "map_ok sample_boot_map" using normalize_sound [OF sample_boot_map_normalized] by blast
  then have "bump_accounted (ph_alloc sample_phys) ({#} + {#})" using BumpFrameAllocator_new_accounted by (simp add: sample_phys_def)
  then have sp: "bump_as.space_ok sample_space sample_phys {#}"
    unfolding sample_space_def by (rule bump_as.from_arch_ok [OF mock_arch_new, rotated]) (simp add: MockAddressSpace_new_def)
  have "vm_step mock_arch bump_frames bump_can_retain (sample_space, sample_phys, {#}) (sample_lazy, sample_phys, {#})"
    by (rule step_demand [of "0x400000" "0x1000" _ sample_space PageFlags_rw "fst (AddressSpace_map_anonymous_demand
        (mock_arch :: (MockAddressSpace, BumpFrameAllocator) ArchOps) sample_space 0x400000 0x1000 PageFlags_rw)"])
      (simp_all add: sample_lazy_def)
  from bump_as.vm_step_ok [OF this sp] show ?thesis .
qed

theorem fault_resolution_progress_witness:
  "\<exists>f. ma_mappings (as_arch (fst (snd (AddressSpace_resolve_fault mock_arch bump_frames sample_lazy 0x400123 True sample_phys)))) 0x400000
     = Some (f, PageFlags_rw)"
proof -
  obtain out sp' ph' where r: "AddressSpace_resolve_fault mock_arch bump_frames sample_lazy 0x400123 True sample_phys = (out, sp', ph')"
    by (metis prod_cases3)
  have "fst (AddressSpace_resolve_fault mock_arch bump_frames sample_lazy 0x400123 True sample_phys) = Filled" by code_simp
  then have o: "out = Filled" by (simp add: r)
  have ri: "AddressSpace_rights_at sample_lazy 0x400123 = Some PageFlags_rw" by code_simp
  have pg: "page_of 0x400123 = 0x400000" by code_simp
  have "map_ok sample_boot_map" using normalize_sound [OF sample_boot_map_normalized] by blast
  then have ok: "mock_arch_ok (as_arch sample_lazy)" "bump_accounted (ph_alloc sample_phys) {#}"
    by (simp_all add: mock_arch_ok_def sample_lazy_pages sample_phys_def BumpFrameAllocator_new_accounted)
  have "\<exists>f rights. AddressSpace_rights_at sample_lazy 0x400123 = Some rights \<and> f \<notin># {#} \<and>
      ma_mappings (as_arch sp') = (ma_mappings (as_arch sample_lazy))(page_of 0x400123 \<mapsto> (f, rights)) \<and>
      (case ma_mappings (as_arch sample_lazy) (page_of 0x400123) of
         None \<Rightarrow> out = Filled \<and> ph_mem ph' f = replicate 4096 0
       | Some (shared, _) \<Rightarrow> out = Copied \<and> True \<and> ph_mem ph' f = ph_mem sample_phys shared) \<and>
      (\<forall>g \<in># {#}. ph_mem ph' g = ph_mem sample_phys g)"
    by (rule fault_resolution_progress [OF ok _ r]) (simp_all add: sample_lazy_pages o)
  then show ?thesis by (auto simp: r ri pg)
qed

subsection \<open>Where the code and its comments part\<close>

text \<open>C35: A copy-on-write fault gives the shared frame back with no shootdown between taking it
  out of the tables and freeing it, against the rule \<open>unmap_and_free\<close> states for every frame
  that returns to the allocator: when the fault drops the last reference, the frame can be
  handed to somebody else while another processor still reads through the old translation.\<close>
theorem cow_copy_frees_while_stale:
  assumes "mock_arch_ok (as_arch sp)" "bump_accounted (ph_alloc ph) M"
    and "\<And>va f fl. ma_mappings (as_arch sp) va = Some (f, fl) \<Longrightarrow> f \<in># M"
    and "AddressSpace_cow_copy mock_arch bump_frames sp (page_of virt) rights ph = (Copied, sp', ph')"
  shows "\<not> tlb_safe {} (as_log sp')"
proof -
  have fr: "bump_accounted (ph_alloc ph) (M + {#})" using assms(2) by simp
  have "\<exists>shared fl. ma_mappings (as_arch sp) (page_of virt) = Some (shared, fl) \<and> \<not> PageFlags_writable fl \<and>
      bump_as.fault_resolved sp ph M (page_of virt) rights (ph_mem ph shared) sp' ph' \<and>
      as_log sp' = as_log sp @ [TlbUnmap shared, TlbFree shared]"
    by (rule bump_as.cow_copy_spec [OF assms(1) fr page_of_aligned _ assms(4)]) (rule assms(3))
  then show ?thesis by (auto simp: tlb_safe_append)
qed

theorem cow_copy_frees_while_stale_witness:
  "\<not> tlb_safe {} (as_log (fst (snd (AddressSpace_cow_copy mock_arch bump_frames
      (sample_space\<lparr>as_arch := MockAddressSpace_new\<lparr>ma_mappings := [0x400000 \<mapsto> (0x1000, PageFlags_ro)]\<rparr>\<rparr>)
      (page_of 0x400123) PageFlags_rw (sample_phys\<lparr>ph_alloc := sample_alloc\<rparr>)))))"
proof -
  let ?sp = "sample_space\<lparr>as_arch := MockAddressSpace_new\<lparr>ma_mappings := [0x400000 \<mapsto> (0x1000, PageFlags_ro)]\<rparr>\<rparr>"
  let ?ph = "sample_phys\<lparr>ph_alloc := sample_alloc\<rparr>"
  have "map_ok sample_boot_map" using normalize_sound [OF sample_boot_map_normalized] by blast
  then have "bump_accounted (BumpFrameAllocator_new 2 1 sample_boot_map) {#}" by (rule BumpFrameAllocator_new_accounted)
  moreover have "alloc_frame bump_frames (BumpFrameAllocator_new 2 1 sample_boot_map) = (Some 0x1000, sample_alloc)"
  proof -
    have "fst (BumpFrameAllocator_alloc (BumpFrameAllocator_new 2 1 sample_boot_map)) = Some 0x1000" by code_simp
    then show ?thesis by (simp add: bump_frames_def sample_alloc_def prod_eq_iff)
  qed
  ultimately have "bump_accounted sample_alloc (add_mset 0x1000 {#})"
    using bump_acc.alloc_fresh by blast
  then have ok: "bump_accounted (ph_alloc ?ph) {#0x1000#}" by simp
  have wf: "mock_arch_ok (as_arch ?sp)"
  proof -
    have "is_aligned 0x400000 FRAME_SIZE" "is_aligned 0x1000 FRAME_SIZE" "\<not> PageFlags_is_wx PageFlags_ro" by code_simp+
    then show ?thesis by (simp add: mock_arch_ok_def)
  qed
  obtain out sp' ph' where c: "AddressSpace_cow_copy mock_arch bump_frames ?sp (page_of 0x400123) PageFlags_rw ?ph = (out, sp', ph')"
    by (metis prod_cases3)
  have "fst (AddressSpace_cow_copy mock_arch bump_frames ?sp (page_of 0x400123) PageFlags_rw ?ph) = Copied" by code_simp
  then have o: "out = Copied" by (simp add: c)
  have "\<not> tlb_safe {} (as_log sp')"
    by (rule cow_copy_frees_while_stale [OF wf ok _ c [unfolded o]]) (simp split: if_splits)
  then show ?thesis by (simp add: c)
qed

subsection \<open>What a teardown frees\<close>

text \<open>Taking a range down frees the frame of every page that is mapped in it, whoever mapped it.
  \<open>freed f sp sp'\<close>: frame \<open>f\<close> was freed on the way from \<open>sp\<close> to \<open>sp'\<close>.\<close>

definition later :: "'a AddressSpace \<Rightarrow> 'a AddressSpace \<Rightarrow> bool" where
  "later sp sp' \<longleftrightarrow> (\<exists>es. as_log sp' = as_log sp @ es)"

definition freed :: "PhysFrame \<Rightarrow> 'a AddressSpace \<Rightarrow> 'a AddressSpace \<Rightarrow> bool" where
  "freed f sp sp' \<longleftrightarrow> (\<exists>es. as_log sp' = as_log sp @ es \<and> TlbFree f \<in> set es)"

lemma freed_later:
  "later sp sp1 \<Longrightarrow> later sp1 sp2 \<Longrightarrow> later sp sp2"
  "freed f sp sp1 \<Longrightarrow> later sp1 sp2 \<Longrightarrow> freed f sp sp2"
  "later sp sp1 \<Longrightarrow> freed f sp1 sp2 \<Longrightarrow> freed f sp sp2"
  by (auto simp: later_def freed_def)

lemma release_batch_freed:
  assumes "AddressSpace_release_batch F sp ph batch = (sp', ph')"
  shows "later sp sp'" and "f \<in> set batch \<Longrightarrow> freed f sp sp'"
  using release_batch_simps(5) [OF assms] by (auto simp: later_def freed_def)

context arch_space
begin

lemma unmap_free_loop_freed:
  assumes "arch_ok (as_arch sp)" "\<forall>va \<in> set vas. is_aligned va FRAME_SIZE"
    "unmap_free_loop A F sp ph vas batch n = (n', sp', ph')"
  shows "arch_ok (as_arch sp') \<and> same_table sp sp' \<and> later sp sp' \<and> (\<forall>f \<in> set batch. freed f sp sp') \<and>
    (\<forall>va f fl. pages (as_arch sp) va = Some (f, fl) \<longrightarrow>
       (if va \<in> set vas then freed f sp sp' else pages (as_arch sp') va = Some (f, fl)))"
  using assms
proof (induction vas arbitrary: sp ph batch n)
  case Nil
  obtain sp1 ph1 where rb: "AddressSpace_release_batch F sp ph batch = (sp1, ph1)" by fastforce
  with Nil release_batch_simps [OF rb] release_batch_freed [OF rb] show ?case by auto
next
  case (Cons va vas)
  have al: "is_aligned va FRAME_SIZE" "\<forall>va \<in> set vas. is_aligned va FRAME_SIZE" using Cons.prems(2) by simp_all
  obtain u sp1 where u: "vm_unmap A sp va = (u, sp1)" by fastforce
  note U = vm_unmap_law [OF Cons.prems(1) al(1) u]
  have lt: "later sp sp1" using U(5) by (simp add: later_def)
  show ?case
  proof (cases u)
    case (Err e)
    have "unmap_free_loop A F sp1 ph vas batch n = (n', sp', ph')" using Cons.prems(3) u Err by simp
    note I = Cons.IH [OF U(1) al(2) this]
    from I U(4) Err freed_later(1,3) [OF lt] same_table_trans [OF U(3)] show ?thesis by auto
  next
    case (Ok g)
    then obtain fl where p: "pages (as_arch sp) va = Some (g, fl)" "pages (as_arch sp1) = (pages (as_arch sp))(va := None)"
      using U(4) by auto
    obtain sp2 ph2 batch2 n2 where l: "unmap_free_loop A F sp2 ph2 vas batch2 n2 = (n', sp', ph')"
      and s2: "as_arch sp2 = as_arch sp1" "same_table sp1 sp2" "later sp1 sp2"
      and b: "\<forall>f \<in> insert g (set batch). freed f sp1 sp2 \<or> f \<in> set batch2"
    proof (cases "length (batch @ [g]) = RECLAIM_BATCH")
      case True
      obtain sp2 ph2 where rb: "AddressSpace_release_batch F sp1 ph (batch @ [g]) = (sp2, ph2)" by fastforce
      show ?thesis
        by (rule that [of sp2 ph2 "[]" "n + FRAME_SIZE"])
          (use Cons.prems(3) u Ok True rb release_batch_simps [OF rb] release_batch_freed [OF rb] in \<open>auto simp: Let_def\<close>)
    next
      case False
      show ?thesis
        by (rule that [of sp1 ph "batch @ [g]" "n + FRAME_SIZE"])
          (use Cons.prems(3) u Ok False in \<open>auto simp: Let_def later_def\<close>)
    qed
    have "arch_ok (as_arch sp2)" using s2(1) U(1) by simp
    note I = Cons.IH [OF this al(2) l]
    have lt2: "later sp sp2" by (rule freed_later(1) [OF lt s2(3)])
    have "freed f sp sp'" if "f \<in> insert g (set batch)" for f
      using bspec [OF b that] I freed_later(3) [OF lt] freed_later(3) [OF lt2] freed_later(2) by blast
    moreover have "if x \<in> set (va # vas) then freed f sp sp' else pages (as_arch sp') x = Some (f, fl')"
      if x: "pages (as_arch sp) x = Some (f, fl')" for x f fl'
    proof (cases "x = va")
      case True
      then have "f = g" using p(1) x by simp
      with calculation [of f] True show ?thesis by simp
    next
      case False
      then have "pages (as_arch sp2) x = Some (f, fl')" using x s2(1) p(2) by simp
      with I have "if x \<in> set vas then freed f sp2 sp' else pages (as_arch sp') x = Some (f, fl')" by blast
      with False freed_later(3) [OF lt2] show ?thesis by (auto split: if_splits)
    qed
    ultimately show ?thesis
      using I freed_later(1) [OF lt2] same_table_trans [OF same_table_trans [OF U(3) s2(2)]] by simp
  qed
qed

lemma unmap_mapping_freed:
  assumes "arch_ok (as_arch sp)" "mapping_ok m" "as_arch sp0 = as_arch sp" "as_log sp0 = as_log sp"
    "AddressSpace_unmap_and_free A F sp0 (mp_base m) (page_count (mp_len m)) ph = (n, sp1, ph1)"
  shows "arch_ok (as_arch sp1)" "same_table sp0 sp1" "later sp sp1"
    "pages (as_arch sp) va = Some (f, fl) \<Longrightarrow>
       (if va \<in> set (mapping_pages m) then freed f sp sp1 else pages (as_arch sp1) va = Some (f, fl))"
proof -
  have al: "\<forall>va \<in> set (map (page_at (mp_base m)) [0..<page_count (mp_len m)]). is_aligned va FRAME_SIZE"
    using assms(2) by (auto simp: mapping_ok_def intro: page_at_aligned)
  have ok0: "arch_ok (as_arch sp0)" using assms(1,3) by simp
  note V = unmap_free_loop_freed [OF ok0 al assms(5) [unfolded AddressSpace_unmap_and_free_def]]
  show "arch_ok (as_arch sp1)" "same_table sp0 sp1" "later sp sp1" using V assms(4) by (simp_all add: later_def)
  assume "pages (as_arch sp) va = Some (f, fl)"
  then have "if va \<in> set (mapping_pages m) then freed f sp0 sp1 else pages (as_arch sp1) va = Some (f, fl)"
    using V assms(3) by (simp add: mapping_pages_def)
  then show "if va \<in> set (mapping_pages m) then freed f sp sp1 else pages (as_arch sp1) va = Some (f, fl)"
    using assms(4) by (simp add: freed_def split: if_splits)
qed

lemma teardown_loop_freed:
  assumes "arch_ok (as_arch sp)" "\<forall>m \<in> set (flatten (as_mappings sp)). mapping_ok m"
    "\<forall>i \<in> set idxs. i < length (as_mappings sp)" "teardown_loop A F sp ph idxs = (sp', ph')"
  shows "later sp sp' \<and> (\<forall>i m va f fl. i \<in> set idxs \<longrightarrow> as_mappings sp ! i = Some m \<longrightarrow> va \<in> set (mapping_pages m) \<longrightarrow>
      pages (as_arch sp) va = Some (f, fl) \<longrightarrow> freed f sp sp')"
  using assms
proof (induction idxs arbitrary: sp ph)
  case Nil
  then show ?case by (simp add: later_def)
next
  case (Cons idx idxs)
  show ?case
  proof (cases "as_mappings sp ! idx")
    case None
    with Cons.prems Cons.IH [of sp ph] show ?thesis by auto
  next
    case (Some m0)
    let ?sp0 = "sp\<lparr>as_mappings := (as_mappings sp)[idx := None]\<rparr>"
    obtain n sp1 ph1 where u: "AddressSpace_unmap_and_free A F ?sp0 (mp_base m0) (page_count (mp_len m0)) ph = (n, sp1, ph1)"
      by (metis prod_cases3)
    define sp2 where "sp2 = sp1\<lparr>as_mapped_bytes := sat_sub (as_mapped_bytes sp1) n, as_mapping_count := as_mapping_count sp1 - 1\<rparr>"
    have "mapping_ok m0" using Cons.prems(2,3) Some by (auto simp: set_flatten in_set_conv_nth)
    note U = unmap_mapping_freed [OF Cons.prems(1) this _ _ u, simplified]
    have t: "as_mappings sp2 = (as_mappings sp)[idx := None]" "as_arch sp2 = as_arch sp1" "later sp sp2"
      using U(2,3) by (simp_all add: same_table_def sp2_def later_def)
    have fr: "freed f sp sp2 = freed f sp sp1" for f by (simp add: freed_def sp2_def)
    have "set (flatten (as_mappings sp2)) \<subseteq> set (flatten (as_mappings sp))"
      using set_update_subset_insert [of "as_mappings sp" idx None] by (auto simp: t(1) set_flatten)
    then have pre: "arch_ok (as_arch sp2)" "\<forall>m \<in> set (flatten (as_mappings sp2)). mapping_ok m"
        "\<forall>i \<in> set idxs. i < length (as_mappings sp2)" "teardown_loop A F sp2 ph1 idxs = (sp', ph')"
      using U(1) Cons.prems Some u by (auto simp: t) (simp add: sp2_def)
    note I = Cons.IH [OF pre]
    have "freed f sp sp'" if "i \<in> set (idx # idxs)" "as_mappings sp ! i = Some m" "va \<in> set (mapping_pages m)"
      "pages (as_arch sp) va = Some (f, fl)" for i m va f fl
    proof (cases "va \<in> set (mapping_pages m0)")
      case True
      then have "freed f sp sp2" using U(4) [OF that(4)] fr by simp
      then show ?thesis using freed_later(2) I by blast
    next
      case False
      then have "i \<noteq> idx" "pages (as_arch sp2) va = Some (f, fl)" using that(2-4) Some U(4) [OF that(4)] t(2) by auto
      moreover from this have "as_mappings sp2 ! i = Some m" "i \<in> set idxs" using that(1,2) t(1) by auto
      ultimately have "freed f sp2 sp'" using I that(3) by blast
      then show ?thesis by (rule freed_later(3) [OF t(3)])
    qed
    with freed_later(1) [OF t(3)] I show ?thesis by blast
  qed
qed

lemma teardown_freed:
  assumes "arch_ok (as_arch sp)" "table_ok sp" "AddressSpace_teardown A F sp ph = (sp', ph')"
    and "va \<in> set (space_pages sp)" "pages (as_arch sp) va = Some (f, fl)"
  shows "freed f sp sp'"
proof -
  obtain sp1 ph1 where t: "teardown_loop A F sp ph [0..<length (as_mappings sp)] = (sp1, ph1)" by fastforce
  have mk: "\<forall>m \<in> set (flatten (as_mappings sp)). mapping_ok m" using assms(2) by (simp add: table_ok_def)
  obtain m where m: "m \<in> set (flatten (as_mappings sp))" "va \<in> set (mapping_pages m)" using assms(4) by (auto simp: set_space_pages)
  then obtain i where i: "i < length (as_mappings sp)" "as_mappings sp ! i = Some m" by (auto simp: set_flatten in_set_conv_nth)
  have "\<forall>i \<in> set [0..<length (as_mappings sp)]. i < length (as_mappings sp)" "i \<in> set [0..<length (as_mappings sp)]" using i(1) by simp_all
  then have "freed f sp sp1" using teardown_loop_freed [OF assms(1) mk _ t] i(2) m(2) assms(5) by blast
  moreover have "as_log sp' = as_log sp1" using assms(3) t by (auto simp: AddressSpace_teardown_def split: prod.splits)
  ultimately show ?thesis by (simp add: freed_def)
qed

end

text \<open>C36: A device window inside a mapping is reclaimed as memory. \<open>map_device_page\<close> does not
  look at the mapping table, so a device page can be put at an address of a mapping that has
  no page there yet; whatever the space, its mappings and the address, tearing the space down
  then frees the device's register frame to the allocator with the rest, although device
  windows are kept out of the table so that a teardown cannot return their frames.\<close>
theorem device_frame_reclaimed_as_memory:
  assumes "mock_arch_ok (as_arch sp)" "table_ok sp" "va \<in> set (space_pages sp)" "is_aligned frame FRAME_SIZE"
    and "AddressSpace_map_device_page mock_arch sp va frame reach ph = (Ok (), sp1, ph1)"
    and "AddressSpace_teardown mock_arch bump_frames sp1 ph1 = (sp2, ph2)"
  shows "\<exists>es. as_log sp2 = as_log sp1 @ es \<and> TlbFree frame \<in> set es"
proof -
  have s1: "mock_arch_ok (as_arch sp1)" "same_table sp sp1" "ma_mappings (as_arch sp1) va = Some (frame, DeviceReach_flags reach)"
    using assms(1,4,5)
    by (auto simp: AddressSpace_map_device_page_def vm_map_def mock_arch_defs same_table_def split: if_splits prod.splits)
  then have "table_ok sp1" "va \<in> set (space_pages sp1)" using bump_as.same_table_pages [OF s1(2)] assms(2,3) by auto
  from bump_as.teardown_freed [OF s1(1) this(1) assms(6) this(2) s1(3)] show ?thesis by (simp add: freed_def)
qed

text \<open>The allocator then hands the register frame out as ordinary memory.\<close>

theorem device_frame_reclaimed_as_memory_witness:
  "let (r, sp1, ph1) = AddressSpace_map_device_page mock_arch sample_lazy 0x400000 0xfe000000 ReachUser sample_phys;
       (sp2, ph2) = AddressSpace_teardown mock_arch bump_frames sp1 ph1
   in r = Ok () \<and> TlbFree 0xfe000000 \<in> set (as_log sp2) \<and> fst (BumpFrameAllocator_alloc (ph_alloc ph2)) = Some 0xfe000000"
proof -
  let ?A = "mock_arch :: (MockAddressSpace, BumpFrameAllocator) ArchOps"
  obtain r sp1 ph1 where d: "AddressSpace_map_device_page ?A sample_lazy 0x400000 0xfe000000 ReachUser sample_phys = (r, sp1, ph1)"
    by (metis prod_cases3)
  obtain sp2 ph2 where t: "AddressSpace_teardown ?A bump_frames sp1 ph1 = (sp2, ph2)" by fastforce
  have "fst (AddressSpace_map_device_page ?A sample_lazy 0x400000 0xfe000000 ReachUser sample_phys) = Ok ()" by code_simp
  then have r: "r = Ok ()" by (simp add: d)
  have a: "fst (BumpFrameAllocator_alloc (ph_alloc (snd (AddressSpace_teardown ?A bump_frames
      (fst (snd (AddressSpace_map_device_page ?A sample_lazy 0x400000 0xfe000000 ReachUser sample_phys)))
      (snd (snd (AddressSpace_map_device_page ?A sample_lazy 0x400000 0xfe000000 ReachUser sample_phys))))))) = Some 0xfe000000"
    by code_simp
  have m: "mock_arch_ok (as_arch sample_lazy)" by (simp add: mock_arch_ok_def sample_lazy_pages)
  have tk: "table_ok sample_lazy" using sample_lazy_ok by (rule bump_as.space_okD(2))
  have v: "0x400000 \<in> set (space_pages sample_lazy)" "is_aligned (0xfe000000 :: 64 word) FRAME_SIZE" by code_simp+
  from device_frame_reclaimed_as_memory [OF m tk v d [unfolded r] t] have "TlbFree 0xfe000000 \<in> set (as_log sp2)" by auto
  with a show ?thesis by (simp add: d t r)
qed

text \<open>A snapshot ignores the user bound. \<open>map_anonymous\<close> refuses a user range above the
  architecture's boundary, and so do the other mapping operations; \<open>snapshot_cow\<close> accepts the
  same destination and leaves a user-visible page there, in the half of the tables every
  process shares.\<close>
theorem snapshot_cow_ignores_user_bound:
  "let flags = PageFlags_user PageFlags_rw;
       (r, sp, ph) = AddressSpace_map_anonymous mock_arch bump_frames sample_space 0x400000 0x1000 flags sample_phys;
       (r1, sp1, ph1) = AddressSpace_snapshot_cow mock_arch bump_frames sp 0x400000 0xffff800000000000 0x1000 ph
   in fst (AddressSpace_map_anonymous mock_arch bump_frames sp 0xffff800000000000 0x1000 flags ph) = Err InvalidMapping \<and>
      r1 = Ok () \<and> map_option (PageFlags_is_user \<circ> snd) (ma_mappings (as_arch sp1) 0xffff800000000000) = Some True"
  by code_simp

end
