(* ===== verification/Elf.thy ===== *)
theory Elf
  imports VmFaults
begin

text \<open>
  Program images, \<^verbatim>\<open>kcore/src/elf.rs\<close>: the parser that extracts the loadable segments of an
  executable, and the loader that places them in an address space. An image is a list of
  bytes and \<^verbatim>\<open>usize\<close> is 64 bits wide; an index computation wraps as it does in a release build.
  Errors of the parser are the left summand of its result, and the error codes of the loader
  are 32-bit words counted from the caller's base.
\<close>

subsection \<open>Reading fields\<close>

definition ELF_MAGIC :: "8 word list" where "ELF_MAGIC = [0x7f, 0x45, 0x4c, 0x46]"
definition ELFCLASS32 :: "8 word" where "ELFCLASS32 = 1"
definition ELFCLASS64 :: "8 word" where "ELFCLASS64 = 2"
definition ELFDATA2LSB :: "8 word" where "ELFDATA2LSB = 1"
definition ET_EXEC :: "16 word" where "ET_EXEC = 2"
definition PT_LOAD :: "32 word" where "PT_LOAD = 1"
definition PF_X :: "32 word" where "PF_X = 1"
definition PF_W :: "32 word" where "PF_W = 2"
definition PF_R :: "32 word" where "PF_R = 4"

record ElfLayout =
  ehdr_size :: "64 word"
  phdr_size :: "64 word"
  e_entry :: "64 word"
  e_phoff :: "64 word"
  e_phentsize :: "64 word"
  e_phnum :: "64 word"
  p_flags :: "64 word"
  p_offset :: "64 word"
  p_vaddr :: "64 word"
  p_filesz :: "64 word"
  p_memsz :: "64 word"
  wide :: bool

definition ELF32 :: ElfLayout where
  "ELF32 = \<lparr> ehdr_size = 52, phdr_size = 32, e_entry = 24, e_phoff = 28, e_phentsize = 42, e_phnum = 44,
     p_flags = 24, p_offset = 4, p_vaddr = 8, p_filesz = 16, p_memsz = 20, wide = False \<rparr>"

definition ELF64 :: ElfLayout where
  "ELF64 = \<lparr> ehdr_size = 64, phdr_size = 56, e_entry = 24, e_phoff = 32, e_phentsize = 54, e_phnum = 56,
     p_flags = 4, p_offset = 8, p_vaddr = 16, p_filesz = 32, p_memsz = 40, wide = True \<rparr>"

datatype Machine = X86_64 | AArch64 | RiscV64 | RiscV32 | Arm32

definition Machine_as_u16 :: "Machine \<Rightarrow> 16 word" where
  "Machine_as_u16 m =
     (case m of X86_64 \<Rightarrow> 0x3e | AArch64 \<Rightarrow> 0xb7 | RiscV64 \<Rightarrow> 0xf3 | RiscV32 \<Rightarrow> 0x01f3 | Arm32 \<Rightarrow> 0x28)"

definition Machine_e_machine :: "Machine \<Rightarrow> 16 word" where
  "Machine_e_machine m = (case m of RiscV32 \<Rightarrow> Machine_as_u16 RiscV64 | other \<Rightarrow> Machine_as_u16 other)"

definition Machine_class :: "Machine \<Rightarrow> 8 word" where
  "Machine_class m = (case m of RiscV32 \<Rightarrow> ELFCLASS32 | Arm32 \<Rightarrow> ELFCLASS32 | _ \<Rightarrow> ELFCLASS64)"

definition Machine_layout :: "Machine \<Rightarrow> ElfLayout" where
  "Machine_layout m = (case m of RiscV32 \<Rightarrow> ELF32 | Arm32 \<Rightarrow> ELF32 | _ \<Rightarrow> ELF64)"

datatype ElfError = Truncated | BadMagic | NotElf64 | WrongMachine | NotExecutable | BadSegment | TooManySegments

record Segment =
  file_offset :: "64 word"
  vaddr :: "64 word"
  file_size :: "64 word"
  mem_size :: "64 word"
  seg_read :: bool
  seg_write :: bool
  seg_exec :: bool

record ElfImage =
  ei_entry :: "64 word"
  ei_segments :: "Segment list"
  ei_count :: nat

definition ElfImage_segments :: "ElfImage \<Rightarrow> Segment list" where
  "ElfImage_segments img = take (ei_count img) (ei_segments img)"

text \<open>The \<^verbatim>\<open>?\<close> operator.\<close>

definition and_then :: "'e + 'a \<Rightarrow> ('a \<Rightarrow> 'e + 'b) \<Rightarrow> 'e + 'b" where
  "and_then r f = (case r of Inl e \<Rightarrow> Inl e | Inr x \<Rightarrow> f x)"

definition ok_or :: "'a option \<Rightarrow> 'e \<Rightarrow> 'e + 'a" where
  "ok_or x e = (case x of None \<Rightarrow> Inl e | Some v \<Rightarrow> Inr v)"

definition checked_mul :: "'a::len word \<Rightarrow> 'a word \<Rightarrow> 'a word option" where
  "checked_mul a b = (if uint a * uint b < 2 ^ LENGTH('a) then Some (a * b) else None)"

definition slice_get :: "8 word list \<Rightarrow> 64 word \<Rightarrow> 64 word \<Rightarrow> 8 word list option" where
  "slice_get bin from to =
     (if from \<le> to \<and> unat to \<le> length bin then Some (take (unat (to - from)) (drop (unat from) bin)) else None)"

fun from_le_bytes :: "8 word list \<Rightarrow> 'a::len word" where
  "from_le_bytes [] = 0"
| "from_le_bytes (b # bs) = ucast b + 256 * from_le_bytes bs"

definition read_u16 :: "8 word list \<Rightarrow> 64 word \<Rightarrow> ElfError + 16 word" where
  "read_u16 bin off = and_then (ok_or (slice_get bin off (off + 2)) Truncated) (\<lambda>bytes. Inr (from_le_bytes bytes))"

definition read_u32 :: "8 word list \<Rightarrow> 64 word \<Rightarrow> ElfError + 32 word" where
  "read_u32 bin off = and_then (ok_or (slice_get bin off (off + 4)) Truncated) (\<lambda>bytes. Inr (from_le_bytes bytes))"

definition read_u64 :: "8 word list \<Rightarrow> 64 word \<Rightarrow> ElfError + 64 word" where
  "read_u64 bin off = and_then (ok_or (slice_get bin off (off + 8)) Truncated) (\<lambda>bytes. Inr (from_le_bytes bytes))"

definition read_addr :: "ElfLayout \<Rightarrow> 8 word list \<Rightarrow> 64 word \<Rightarrow> ElfError + 64 word" where
  "read_addr layout bin at =
     (if wide layout then read_u64 bin at else and_then (read_u32 bin at) (\<lambda>w. Inr (ucast w)))"

subsection \<open>The parser\<close>

text \<open>One program header: nothing when the loop of the source skips it.\<close>

definition parse_header :: "ElfLayout \<Rightarrow> 8 word list \<Rightarrow> 64 word \<Rightarrow> 64 word \<Rightarrow> nat \<Rightarrow> ElfError + Segment option" where
  "parse_header layout bin phoff phentsize i =
     and_then (ok_or (checked_mul (of_nat i) phentsize) BadSegment) (\<lambda>skip.
     and_then (ok_or (checked_add phoff skip) BadSegment) (\<lambda>base.
     and_then (read_u32 bin base) (\<lambda>p_type.
     if p_type \<noteq> PT_LOAD then Inr None
     else
     and_then (read_u32 bin (base + p_flags layout)) (\<lambda>flags.
     and_then (read_addr layout bin (base + p_offset layout)) (\<lambda>off.
     and_then (read_addr layout bin (base + p_vaddr layout)) (\<lambda>va.
     and_then (read_addr layout bin (base + p_filesz layout)) (\<lambda>fsz.
     and_then (read_addr layout bin (base + p_memsz layout)) (\<lambda>msz.
     and_then (ok_or (checked_add off fsz) BadSegment) (\<lambda>file_end.
     if file_end > of_nat (length bin) \<or> msz < fsz then Inl BadSegment
     else if msz = 0 then Inr None
     else Inr (Some \<lparr> file_offset = off, vaddr = va, file_size = fsz, mem_size = msz,
       seg_read = (flags AND PF_R \<noteq> 0), seg_write = (flags AND PF_W \<noteq> 0), seg_exec = (flags AND PF_X \<noteq> 0) \<rparr>))))))))))"

fun parse_loop ::
    "nat \<Rightarrow> ElfLayout \<Rightarrow> 8 word list \<Rightarrow> 64 word \<Rightarrow> 64 word \<Rightarrow> nat list \<Rightarrow> Segment list \<Rightarrow> nat \<Rightarrow>
     ElfError + (Segment list \<times> nat)" where
  "parse_loop max_segments layout bin phoff phentsize [] segments n = Inr (segments, n)"
| "parse_loop max_segments layout bin phoff phentsize (i # is') segments n =
     and_then (parse_header layout bin phoff phentsize i) (\<lambda>found.
       case found of
         None \<Rightarrow> parse_loop max_segments layout bin phoff phentsize is' segments n
       | Some s \<Rightarrow>
           if n \<ge> max_segments then Inl TooManySegments
           else parse_loop max_segments layout bin phoff phentsize is' (segments[n := s]) (n + 1))"

definition empty_segment :: Segment where
  "empty_segment = \<lparr> file_offset = 0, vaddr = 0, file_size = 0, mem_size = 0,
     seg_read = False, seg_write = False, seg_exec = False \<rparr>"

definition parse :: "nat \<Rightarrow> 8 word list \<Rightarrow> Machine \<Rightarrow> ElfError + ElfImage" where
  "parse max_segments bin machine =
     (let layout = Machine_layout machine in
      if length bin < unat (ehdr_size layout) then Inl Truncated
      else if take 4 bin \<noteq> ELF_MAGIC then Inl BadMagic
      else if bin ! 4 \<noteq> Machine_class machine \<or> bin ! 5 \<noteq> ELFDATA2LSB then Inl NotElf64
      else
      and_then (read_u16 bin 16) (\<lambda>e_type.
      if e_type \<noteq> ET_EXEC then Inl NotExecutable
      else
      and_then (read_u16 bin 18) (\<lambda>mach.
      if mach \<noteq> Machine_e_machine machine then Inl WrongMachine
      else
      and_then (read_addr layout bin (e_entry layout)) (\<lambda>entry.
      and_then (read_addr layout bin (e_phoff layout)) (\<lambda>phoff.
      and_then (read_u16 bin (e_phentsize layout)) (\<lambda>phentsize.
      and_then (read_u16 bin (e_phnum layout)) (\<lambda>phnum.
      if (ucast phentsize :: 64 word) < phdr_size layout then Inl BadSegment
      else
      and_then (parse_loop max_segments layout bin phoff (ucast phentsize) [0..<unat phnum]
          (replicate max_segments empty_segment) 0) (\<lambda>(segments, n).
      Inr \<lparr> ei_entry = entry, ei_segments = segments, ei_count = n \<rparr>))))))))"

subsection \<open>The loader\<close>

definition div_ceil :: "64 word \<Rightarrow> 64 word \<Rightarrow> 64 word" where
  "div_ceil a b = (if a mod b > 0 then a div b + 1 else a div b)"

definition segment_rights :: "Segment \<Rightarrow> PageFlags" where
  "segment_rights seg =
     (let r0 = PageFlags_user (PageFlags_read PageFlags_none);
          r1 = (if seg_write seg then PageFlags_write r0 else r0)
      in if seg_exec seg then PageFlags_execute r1 else r1)"

definition load_segment ::
    "('a, 'f) ArchOps \<Rightarrow> 'f FrameOps \<Rightarrow> 8 word list \<Rightarrow> 32 word \<Rightarrow> Segment \<Rightarrow> 'a AddressSpace \<Rightarrow> 'f Phys \<Rightarrow>
     (32 word + unit) \<times> 'a AddressSpace \<times> 'f Phys" where
  "load_segment A F bin base_err seg sp ph =
     (if seg_write seg \<and> seg_exec seg then (Inl (base_err + 1), sp, ph)
      else if \<not> seg_read seg then (Inl (base_err + 7), sp, ph)
      else case checked_mul (div_ceil (mem_size seg) FRAME_SIZE) FRAME_SIZE of
        None \<Rightarrow> (Inl (base_err + 2), sp, ph)
      | Some len \<Rightarrow>
      (case checked_add (vaddr seg) len of
        None \<Rightarrow> (Inl (base_err + 2), sp, ph)
      | Some end_va \<Rightarrow>
          if vaddr seg mod FRAME_SIZE \<noteq> 0 \<or> vaddr seg \<ge> USER_ADDRESS_MAX A \<or> end_va > USER_ADDRESS_MAX A
          then (Inl (base_err + 2), sp, ph)
          else
          (case AddressSpace_map_anonymous A F sp (vaddr seg) len (PageFlags_user PageFlags_rw) ph of
             (Err _, sp1, ph1) \<Rightarrow> (Inl (base_err + 3), sp1, ph1)
           | (Ok _, sp1, ph1) \<Rightarrow>
               let e = file_offset seg + file_size seg in
               if unat e > length bin then (Inl (base_err + 4), sp1, ph1)
               else
               (case AddressSpace_copy_in A sp1 (vaddr seg)
                       (take (unat (e - file_offset seg)) (drop (unat (file_offset seg)) bin)) ph1 of
                  (Err _, ph2) \<Rightarrow> (Inl (base_err + 5), sp1, ph2)
                | (Ok _, ph2) \<Rightarrow>
                    (case AddressSpace_protect_range A sp1 (vaddr seg) len (segment_rights seg) of
                       (Err _, sp2) \<Rightarrow> (Inl (base_err + 6), sp2, ph2)
                     | (Ok _, sp2) \<Rightarrow> (Inr (), sp2, ph2))))))"

fun load_loop ::
    "('a, 'f) ArchOps \<Rightarrow> 'f FrameOps \<Rightarrow> 8 word list \<Rightarrow> 32 word \<Rightarrow> Segment list \<Rightarrow> 'a AddressSpace \<Rightarrow> 'f Phys \<Rightarrow>
     (32 word + unit) \<times> 'a AddressSpace \<times> 'f Phys" where
  "load_loop A F bin base_err [] sp ph = (Inr (), sp, ph)"
| "load_loop A F bin base_err (seg # segs) sp ph =
     (case load_segment A F bin base_err seg sp ph of
        (Inl e, sp1, ph1) \<Rightarrow> (Inl e, sp1, ph1)
      | (Inr _, sp1, ph1) \<Rightarrow> load_loop A F bin base_err segs sp1 ph1)"

definition load_into ::
    "nat \<Rightarrow> ('a, 'f) ArchOps \<Rightarrow> 'f FrameOps \<Rightarrow> 8 word list \<Rightarrow> 'a AddressSpace \<Rightarrow> 'f Phys \<Rightarrow> Machine \<Rightarrow> 32 word \<Rightarrow>
     (32 word + 64 word) \<times> 'a AddressSpace \<times> 'f Phys" where
  "load_into max_segments A F bin sp ph machine base_err =
     (case parse max_segments bin machine of
        Inl _ \<Rightarrow> (Inl base_err, sp, ph)
      | Inr parsed \<Rightarrow>
          (case load_loop A F bin base_err (ElfImage_segments parsed) sp ph of
             (Inl e, sp1, ph1) \<Rightarrow> (Inl e, sp1, ph1)
           | (Inr _, sp1, ph1) \<Rightarrow> (Inr (ei_entry parsed), sp1, ph1)))"

subsection \<open>What the parser accepts\<close>

lemma and_then_Inr [simp]: "and_then r f = Inr y \<longleftrightarrow> (\<exists>x. r = Inr x \<and> f x = Inr y)"
  by (auto simp: and_then_def split: sum.splits)

lemma ok_or_Inr [simp]: "ok_or x e = Inr v \<longleftrightarrow> x = Some v"
  by (auto simp: ok_or_def split: option.splits)

lemma checked_mul_Some_iff:
  "checked_mul a b = Some c \<longleftrightarrow> unat (a :: 'a::len word) * unat b < 2 ^ LENGTH('a) \<and> c = a * b"
proof -
  have "uint a * uint b = int (unat a * unat b)" unfolding uint_nat by (rule of_nat_mult [symmetric])
  moreover have "(2 :: int) ^ LENGTH('a) = int (2 ^ LENGTH('a))" by simp
  ultimately have "uint a * uint b < 2 ^ LENGTH('a) \<longleftrightarrow> unat a * unat b < 2 ^ LENGTH('a)" by (simp only: of_nat_less_iff)
  then show ?thesis by (auto simp: checked_mul_def)
qed

definition segment_within :: "8 word list \<Rightarrow> Segment \<Rightarrow> bool" where
  "segment_within bin s \<longleftrightarrow> unat (file_offset s) + unat (file_size s) \<le> length bin \<and>
     file_size s \<le> mem_size s \<and> 0 < mem_size s"

lemma parse_header_within:
  assumes "parse_header layout bin phoff phentsize i = Inr (Some s)" "length bin < 2 ^ 64"
  shows "segment_within bin s"
proof -
  from assms(1) obtain file_end where e: "checked_add (file_offset s) (file_size s) = Some file_end"
      "\<not> of_nat (length bin) < file_end" "\<not> mem_size s < file_size s" "mem_size s \<noteq> 0"
    by (auto simp: parse_header_def split: if_splits)
  have "unat file_end = unat (file_offset s) + unat (file_size s)"
    using e(1) by (auto simp: checked_add_Some_iff unat_word_ariths)
  moreover have "unat file_end \<le> length bin"
    using e(2) assms(2) by (simp add: word_less_nat_alt unat_of_nat not_less)
  ultimately show ?thesis using e(3,4) by (simp add: segment_within_def not_less word_gt_0)
qed

text \<open>The loadable segments among a list of headers, in order.\<close>

definition loadable :: "ElfLayout \<Rightarrow> 8 word list \<Rightarrow> 64 word \<Rightarrow> 64 word \<Rightarrow> nat list \<Rightarrow> Segment list" where
  "loadable layout bin phoff phentsize is' =
     List.map_filter (\<lambda>i. case parse_header layout bin phoff phentsize i of Inr found \<Rightarrow> found | Inl _ \<Rightarrow> None) is'"

lemma loadable_simps [simp]:
  "loadable layout bin phoff phentsize [] = []"
  "parse_header layout bin phoff phentsize i = Inr None \<Longrightarrow>
     loadable layout bin phoff phentsize (i # is') = loadable layout bin phoff phentsize is'"
  "parse_header layout bin phoff phentsize i = Inr (Some s) \<Longrightarrow>
     loadable layout bin phoff phentsize (i # is') = s # loadable layout bin phoff phentsize is'"
  by (simp_all add: loadable_def List.map_filter_def)

lemma parse_loop_spec:
  "parse_loop max_segments layout bin phoff phentsize is' segs n = Inr (segs', n') \<Longrightarrow>
   length segs = max_segments \<Longrightarrow> n \<le> max_segments \<Longrightarrow>
   take n' segs' = take n segs @ loadable layout bin phoff phentsize is' \<and> n' \<le> length segs' \<and> length segs' = max_segments"
proof (induction is' arbitrary: segs n)
  case (Cons i is')
  from Cons.prems(1) obtain found where f: "parse_header layout bin phoff phentsize i = Inr found" by auto
  show ?case
  proof (cases found)
    case None
    with f Cons.IH [of segs n] Cons.prems show ?thesis by (simp add: and_then_def)
  next
    case (Some s)
    with f Cons.prems have n: "n < max_segments" and r: "parse_loop max_segments layout bin phoff phentsize is' (segs[n := s]) (n + 1) = Inr (segs', n')"
      by (auto simp: and_then_def split: if_splits)
    have "take (n + 1) (segs[n := s]) = take n segs @ [s]" using n Cons.prems(2) by (simp add: take_Suc_conv_app_nth)
    with Cons.IH [OF r] n Cons.prems(2) f Some show ?thesis by simp
  qed
qed simp

lemma parse_Inr:
  assumes "parse max_segments bin machine = Inr img"
  shows "\<exists>phoff phentsize phnum.
    read_addr (Machine_layout machine) bin (e_entry (Machine_layout machine)) = Inr (ei_entry img) \<and>
    read_addr (Machine_layout machine) bin (e_phoff (Machine_layout machine)) = Inr phoff \<and>
    read_u16 bin (e_phentsize (Machine_layout machine)) = Inr phentsize \<and>
    read_u16 bin (e_phnum (Machine_layout machine)) = Inr phnum \<and>
    ElfImage_segments img = loadable (Machine_layout machine) bin phoff (ucast phentsize) [0..<unat phnum] \<and>
    length (ElfImage_segments img) \<le> max_segments"
proof -
  from assms obtain phoff phentsize phnum where
    h: "read_addr (Machine_layout machine) bin (e_entry (Machine_layout machine)) = Inr (ei_entry img)"
      "read_addr (Machine_layout machine) bin (e_phoff (Machine_layout machine)) = Inr phoff"
      "read_u16 bin (e_phentsize (Machine_layout machine)) = Inr phentsize"
      "read_u16 bin (e_phnum (Machine_layout machine)) = Inr phnum"
    and l: "parse_loop max_segments (Machine_layout machine) bin phoff (ucast phentsize) [0..<unat phnum]
          (replicate max_segments empty_segment) 0 = Inr (ei_segments img, ei_count img)"
    by (auto simp: parse_def Let_def split: if_splits prod.splits)
  have ls: "take (ei_count img) (ei_segments img) = loadable (Machine_layout machine) bin phoff (ucast phentsize) [0..<unat phnum]"
    "length (ei_segments img) = max_segments" using parse_loop_spec [OF l] by simp_all
  have "length (take (ei_count img) (ei_segments img)) \<le> max_segments" by (simp add: ls(2))
  then show ?thesis unfolding ElfImage_segments_def using h ls(1) by blast
qed

lemma loadable_within: "length bin < 2 ^ 64 \<Longrightarrow> s \<in> set (loadable layout bin phoff phentsize is') \<Longrightarrow> segment_within bin s"
  by (auto simp: loadable_def List.map_filter_def parse_header_within split: sum.splits)

lemma parse_within:
  assumes "parse max_segments bin machine = Inr img" "length bin < 2 ^ 64" "s \<in> set (ElfImage_segments img)"
  shows "segment_within bin s"
  using parse_Inr [OF assms(1)] assms(2,3) loadable_within by metis

subsection \<open>Copying and protecting\<close>

definition page_bytes :: "8 word list \<Rightarrow> nat \<Rightarrow> 8 word list" where
  "page_bytes src i = take 4096 (drop (i * 4096) src) @ replicate (4096 - length (take 4096 (drop (i * 4096) src))) 0"

lemma page_bytes_past: "length src \<le> i * 4096 \<Longrightarrow> page_bytes src i = replicate 4096 0"
  by (simp add: page_bytes_def)

lemma page_bytes_nth: "k < 4096 \<Longrightarrow> page_bytes src i ! k = (if i * 4096 + k < length src then src ! (i * 4096 + k) else 0)"
  by (auto simp: page_bytes_def nth_append)

context arch_space
begin

lemma copy_in_loop_spec:
  assumes ok: "arch_ok (as_arch sp)" and al: "is_aligned dst FRAME_SIZE" and len: "length src \<le> n * 4096"
    and fr: "\<And>i. i < n \<Longrightarrow> \<exists>fl. pages (as_arch sp) (page_at dst i) = Some (fr i, fl)" and inj: "inj_on fr {..<n}"
    and mem: "\<And>i. i < n \<Longrightarrow> ph_mem ph (fr i) = (if i < k then page_bytes src i else replicate 4096 0)"
  shows "\<exists>mem'. copy_in_loop A sp dst src (min (length src) (k * 4096)) ph = (Ok (), ph\<lparr>ph_mem := mem'\<rparr>) \<and>
    (\<forall>i < n. mem' (fr i) = page_bytes src i) \<and> (\<forall>g. g \<notin> fr ` {..<n} \<longrightarrow> mem' g = ph_mem ph g)"
  using mem
proof (induction "length src - k * 4096" arbitrary: k ph rule: less_induct)
  case less
  show ?case
  proof (cases "k * 4096 < length src")
    case False
    then have "ph_mem ph (fr i) = page_bytes src i" if "i < n" for i
      using less.prems [OF that] page_bytes_past [of src i] by (cases "i < k") auto
    with False show ?thesis by (intro exI [of _ "ph_mem ph"]) (simp add: copy_in_loop.simps min_def)
  next
    case True
    then have kn: "k < n" using len by linarith
    obtain fl where pk: "pages (as_arch sp) (page_at dst k) = Some (fr k, fl)" using fr [OF kn] by blast
    have "dst + of_nat k * 4096 = page_at dst k" by (simp add: page_at_def FRAME_SIZE_def)
    then have tr: "translate A (as_arch sp) (dst + of_nat k * 4096) = Some (fr k, fl)"
      using translate_pages [OF ok page_at_aligned [OF al]] pk by simp
    define chunk where "chunk = min (length src - k * 4096) 4096"
    define ph1 where "ph1 = ph\<lparr>ph_mem := write_bytes_to_frame (ph_mem ph) (fr k) 0 (take chunk (drop (k * 4096) src))\<rparr>"
    have w: "min (length src) (k * 4096) = k * 4096" "k * 4096 + chunk = min (length src) (Suc k * 4096)"
      using True by (auto simp: chunk_def)
    have "copy_in_loop A sp dst src (k * 4096) ph = copy_in_loop A sp dst src (k * 4096 + chunk) ph1"
      using True by (subst copy_in_loop.simps) (simp add: tr Let_def chunk_def ph1_def)
    then have step: "copy_in_loop A sp dst src (min (length src) (k * 4096)) ph =
        copy_in_loop A sp dst src (min (length src) (Suc k * 4096)) ph1" unfolding w .
    have tk: "take chunk (drop (k * 4096) src) = take 4096 (drop (k * 4096) src)" by (simp add: chunk_def min_def)
    have at: "ph_mem ph1 (fr k) = page_bytes src k"
      using less.prems [OF kn] by (simp add: ph1_def write_bytes_to_frame_def tk page_bytes_def)
    have "ph_mem ph1 (fr i) = (if i < Suc k then page_bytes src i else replicate 4096 0)" if "i < n" for i
    proof (cases "i = k")
      case False
      then have "fr i \<noteq> fr k" using inj_onD [OF inj] that kn by blast
      then show ?thesis using less.prems [OF that] False by (simp add: ph1_def write_bytes_to_frame_def)
    qed (simp add: at)
    moreover have "length src - Suc k * 4096 < length src - k * 4096" using True by simp
    ultimately obtain mem' where r: "copy_in_loop A sp dst src (min (length src) (Suc k * 4096)) ph1 = (Ok (), ph1\<lparr>ph_mem := mem'\<rparr>)"
        "\<forall>i < n. mem' (fr i) = page_bytes src i" "\<forall>g. g \<notin> fr ` {..<n} \<longrightarrow> mem' g = ph_mem ph1 g"
      using less.hyps by blast
    have "mem' g = ph_mem ph g" if "g \<notin> fr ` {..<n}" for g
      using r(3) that kn by (auto simp: ph1_def write_bytes_to_frame_def)
    with r(1,2) show ?thesis unfolding step by (auto simp: ph1_def)
  qed
qed

lemma copy_in_spec:
  assumes "arch_ok (as_arch sp)" "is_aligned dst FRAME_SIZE" "length src \<le> n * 4096"
    and "\<And>i. i < n \<Longrightarrow> \<exists>fl. pages (as_arch sp) (page_at dst i) = Some (fr i, fl)" "inj_on fr {..<n}"
    and "\<And>i. i < n \<Longrightarrow> ph_mem ph (fr i) = replicate 4096 0"
  shows "\<exists>mem'. AddressSpace_copy_in A sp dst src ph = (Ok (), ph\<lparr>ph_mem := mem'\<rparr>) \<and>
    (\<forall>i < n. mem' (fr i) = page_bytes src i) \<and> (\<forall>g. g \<notin> fr ` {..<n} \<longrightarrow> mem' g = ph_mem ph g)"
  using copy_in_loop_spec [OF assms(1-5), of ph 0] assms(2,6) by (simp add: AddressSpace_copy_in_def)

lemma copy_in_alloc: "AddressSpace_copy_in A sp dst src ph = (r, ph') \<Longrightarrow> ph_alloc ph' = ph_alloc ph"
proof -
  have "copy_in_loop A sp dst src written ph = (r, ph') \<Longrightarrow> ph_alloc ph' = ph_alloc ph" for written
  proof (induction A sp dst src written ph rule: copy_in_loop.induct)
    case (1 A sp dst src written ph)
    from "1.prems" show ?case
      by (subst (asm) copy_in_loop.simps) (auto simp: Let_def split: if_splits option.splits dest!: "1.IH")
  qed
  then show "AddressSpace_copy_in A sp dst src ph = (r, ph') \<Longrightarrow> ph_alloc ph' = ph_alloc ph"
    by (auto simp: AddressSpace_copy_in_def split: if_splits)
qed

lemma protect_loop_pages:
  "arch_ok (as_arch sp) \<Longrightarrow> \<forall>va \<in> set vas. is_aligned va FRAME_SIZE \<Longrightarrow> distinct vas \<Longrightarrow>
   protect_loop A sp rights vas = (Ok u, sp') \<Longrightarrow>
   pages (as_arch sp') = (\<lambda>va. if va \<in> set vas then map_option (\<lambda>(f, _). (f, rights)) (pages (as_arch sp) va)
     else pages (as_arch sp) va)"
proof (induction vas arbitrary: sp)
  case (Cons va vas)
  obtain w a where p: "protect_page A (as_arch sp) va rights = (w, a)" by fastforce
  have va: "is_aligned va FRAME_SIZE" using Cons.prems(2) by simp
  note P = protect_law [OF Cons.prems(1) va p]
  from Cons.prems(4) p obtain y where w: "w = Ok y" and l: "protect_loop A (sp\<lparr>as_arch := a\<rparr>) rights vas = (Ok u, sp')"
    by (cases w) (auto simp: vm_protect_def)
  from P w obtain f fl0 where a: "arch_ok a" "pages (as_arch sp) va = Some (f, fl0)" "pages a = (pages (as_arch sp))(va \<mapsto> (f, rights))"
    by auto
  from Cons.IH [OF _ _ _ l] a Cons.prems(2,3) show ?case by (auto simp: fun_eq_iff)
qed simp

lemma protect_range_pages:
  assumes "arch_ok (as_arch sp)" "is_aligned base FRAME_SIZE"
    "AddressSpace_protect_range A sp base len rights = (Ok u, sp')"
  shows "pages (as_arch sp') = (\<lambda>va. if va \<in> set (map (page_at base) [0..<page_count len])
     then map_option (\<lambda>(f, _). (f, rights)) (pages (as_arch sp) va) else pages (as_arch sp) va)"
proof -
  from assms(3) obtain y sp1 where l: "protect_loop A sp rights (map (page_at base) [0..<page_count len]) = (Ok y, sp1)"
      and e: "as_arch sp' = as_arch sp1"
    by (auto simp: AddressSpace_protect_range_def Let_def AddressSpace_shoot_down_def split: if_splits option.splits res.splits prod.splits)
  have "\<forall>va \<in> set (map (page_at base) [0..<page_count len]). is_aligned va FRAME_SIZE"
    using page_at_aligned [OF assms(2)] by auto
  from protect_loop_pages [OF assms(1) this distinct_range l] show ?thesis unfolding e .
qed

end

subsection \<open>Loading\<close>

definition seg_pages :: "Segment \<Rightarrow> nat" where
  "seg_pages s = unat (div_ceil (mem_size s) FRAME_SIZE)"

definition seg_bytes :: "8 word list \<Rightarrow> Segment \<Rightarrow> 8 word list" where
  "seg_bytes bin s = take (unat (file_size s)) (drop (unat (file_offset s)) bin)"

lemma round_up_nat: "(x + 4095) div 4096 = (if 0 < x mod 4096 then x div 4096 + 1 else x div 4096)" for x :: nat
proof -
  have r: "(r + 4095) div 4096 = (if 0 < r then 1 else 0)" if "r < 4096" for r :: nat
    using that by (cases "r = 0") (auto intro: div_nat_eqI)
  have "x + 4095 = x mod 4096 + 4095 + x div 4096 * 4096" using mod_div_mult_eq [of x 4096] by linarith
  then have "(x + 4095) div 4096 = (x mod 4096 + 4095 + x div 4096 * 4096) div 4096" by (rule arg_cong)
  also have "\<dots> = x div 4096 + (x mod 4096 + 4095) div 4096" by (rule div_mult_self1) simp
  finally show ?thesis using r [of "x mod 4096"] by simp
qed

lemma unat_div_ceil: "unat (div_ceil a FRAME_SIZE) = (unat a + 4095) div 4096"
proof -
  have "unat a < 2 ^ 64" using unsigned_less [of a] by simp
  then have "unat a div 4096 + 1 < 2 ^ 64" by auto
  then have "unat (a div 4096 + 1) = unat a div 4096 + 1" by (simp add: unat_word_ariths unat_div)
  moreover have "0 < a mod 4096 \<longleftrightarrow> 0 < unat a mod 4096" by (simp add: word_less_nat_alt unat_mod)
  ultimately show ?thesis unfolding round_up_nat div_ceil_def FRAME_SIZE_def by (simp add: unat_div)
qed

lemma seg_pages_len:
  assumes "checked_mul (div_ceil (mem_size s) FRAME_SIZE) FRAME_SIZE = Some len"
  shows "page_count len = seg_pages s" "unat len = seg_pages s * 4096" "unat (mem_size s) \<le> seg_pages s * 4096"
proof -
  show l: "unat len = seg_pages s * 4096"
    using assms by (auto simp: checked_mul_Some_iff seg_pages_def FRAME_SIZE_def unat_word_ariths)
  then show "page_count len = seg_pages s" by (simp add: page_count_def FRAME_SIZE_def unat_div)
  have "x \<le> (x + 4095) div 4096 * 4096" for x :: nat
    using div_mult_mod_eq [of "x + 4095" 4096] mod_less_divisor [of 4096 "x + 4095"] by linarith
  then show "unat (mem_size s) \<le> seg_pages s * 4096" unfolding seg_pages_def unat_div_ceil .
qed

text \<open>A segment in place: each of its pages has exactly the rights the segment asks for, and
  reads as the bytes of the file followed by zeros.\<close>

definition segment_in_place ::
    "8 word list \<Rightarrow> (VirtAddr \<Rightarrow> (PhysFrame \<times> PageFlags) option) \<Rightarrow> PhysMem \<Rightarrow> Segment \<Rightarrow> bool" where
  "segment_in_place bin P mem s \<longleftrightarrow>
     (\<forall>i < seg_pages s. \<exists>f. P (page_at (vaddr s) i) = Some (f, segment_rights s) \<and> mem f = page_bytes (seg_bytes bin s) i)"

definition segment_va :: "Segment \<Rightarrow> VirtAddr set" where
  "segment_va s = page_at (vaddr s) ` {..<seg_pages s}"

context arch_space
begin

abbreviation held :: "'a AddressSpace \<Rightarrow> PhysFrame multiset \<Rightarrow> PhysFrame multiset" where
  "held sp M \<equiv> resident (pages (as_arch sp)) (mset (space_pages sp)) + M"

lemma resident_iff: "g \<in># resident P X \<longleftrightarrow> (\<exists>va \<in># X. \<exists>fl. P va = Some (g, fl))"
  by (induction X) (auto split: option.splits)

lemma held_iff: "space_ok sp ph M \<Longrightarrow> g \<in># held sp M \<longleftrightarrow> g \<in># M \<or> (\<exists>va fl. pages (as_arch sp) va = Some (g, fl))"
  using space_okD(3) [of sp ph M] by (auto simp: resident_iff)

lemma page_frames_all: "\<forall>va \<in> set vas. \<exists>fl. P va = Some (g va, fl) \<Longrightarrow> page_frames P vas = map g vas"
  by (induction vas) auto

text \<open>Fresh pages filled from a byte string: what \<^verbatim>\<open>map_anonymous\<close> followed by \<^verbatim>\<open>copy_in\<close> leaves.\<close>

lemma place_bytes_spec:
  assumes ok: "space_ok sp ph M" and al: "is_aligned base FRAME_SIZE" and nw: "unat base + unat len < 2 ^ 64"
    and n: "page_count len = n" and src: "length src \<le> n * 4096"
    and m: "AddressSpace_map_anonymous A F sp base len rights ph = (Ok u, sp1, ph1)"
  shows "\<exists>mem'. AddressSpace_copy_in A sp1 base src ph1 = (Ok (), ph1\<lparr>ph_mem := mem'\<rparr>) \<and>
    space_ok sp1 (ph1\<lparr>ph_mem := mem'\<rparr>) M \<and>
    (\<forall>i < n. pages (as_arch sp) (page_at base i) = None \<and>
      (\<exists>f. pages (as_arch sp1) (page_at base i) = Some (f, rights) \<and> mem' f = page_bytes src i)) \<and>
    (\<forall>va. va \<notin> page_at base ` {..<n} \<longrightarrow> pages (as_arch sp1) va = pages (as_arch sp) va) \<and>
    (\<forall>g \<in># held sp M. mem' g = ph_mem ph g)"
proof -
  note D = space_okD [OF ok]
  have S: "(\<forall>i < n. pages (as_arch sp) (page_at base i) = None \<and>
      (\<exists>f. pages (as_arch sp1) (page_at base i) = Some (f, rights) \<and> ph_mem ph1 f = replicate 4096 0 \<and> f \<notin># held sp M)) \<and>
    distinct (page_frames (pages (as_arch sp1)) (map (page_at base) [0..<n])) \<and>
    (\<forall>va. va \<notin> set (map (page_at base) [0..<n]) \<longrightarrow> pages (as_arch sp1) va = pages (as_arch sp) va) \<and>
    (\<forall>g \<in># held sp M. ph_mem ph1 g = ph_mem ph g)"
    using map_anonymous_spec [OF D(1,4) m] unfolding n by simp
  have ok1: "space_ok sp1 ph1 M" by (rule map_anonymous_ok [OF ok nw m])
  define fr where "fr = (\<lambda>i. fst (the (pages (as_arch sp1) (page_at base i))))"
  have at: "pages (as_arch sp1) (page_at base i) = Some (fr i, rights)" "ph_mem ph1 (fr i) = replicate 4096 0" "fr i \<notin># held sp M"
    if "i < n" for i using S that by (auto simp: fr_def)
  have "page_frames (pages (as_arch sp1)) (map (page_at base) [0..<n]) = map (\<lambda>va. fst (the (pages (as_arch sp1) va))) (map (page_at base) [0..<n])"
    by (rule page_frames_all) (use at in fastforce)
  then have "distinct (map fr [0..<n])" using S by (simp add: fr_def comp_def)
  then have inj: "inj_on fr {..<n}" by (simp add: distinct_map lessThan_atLeast0)
  have "\<exists>fl. pages (as_arch sp1) (page_at base i) = Some (fr i, fl)" if "i < n" for i using at(1) [OF that] by blast
  from copy_in_spec [OF space_okD(1) [OF ok1] al src this inj at(2)] obtain mem' where
    c: "AddressSpace_copy_in A sp1 base src ph1 = (Ok (), ph1\<lparr>ph_mem := mem'\<rparr>)"
      "\<forall>i < n. mem' (fr i) = page_bytes src i" "\<forall>g. g \<notin> fr ` {..<n} \<longrightarrow> mem' g = ph_mem ph1 g" by blast
  have "mem' g = ph_mem ph g" if "g \<in># held sp M" for g
  proof -
    have "g \<notin> fr ` {..<n}" using at(3) that by blast
    then show ?thesis using c(3) S that by simp
  qed
  moreover have "space_ok sp1 (ph1\<lparr>ph_mem := mem'\<rparr>) M" by (subst space_ok_cong [of sp1 sp1 _ ph1]) (simp_all add: ok1)
  moreover have "pages (as_arch sp1) va = pages (as_arch sp) va" if "va \<notin> page_at base ` {..<n}" for va
    using S that by (auto simp: lessThan_atLeast0)
  ultimately show ?thesis using S c(1,2) at(1) by blast
qed

lemma segment_checks:
  assumes "load_segment A F bin base_err s sp ph = (r, sp', ph')"
  obtains (refused) e where "r = Inl e" "sp' = sp" "ph' = ph"
  | (mapped) len m sp1 ph1 where "checked_mul (div_ceil (mem_size s) FRAME_SIZE) FRAME_SIZE = Some len"
      "unat (vaddr s) + unat len < 2 ^ 64" "unat (vaddr s) + unat len \<le> unat (USER_ADDRESS_MAX A)"
      "is_aligned (vaddr s) FRAME_SIZE" "\<not> (seg_write s \<and> seg_exec s)"
      "AddressSpace_map_anonymous A F sp (vaddr s) len (PageFlags_user PageFlags_rw) ph = (m, sp1, ph1)"
      "(case m of Err _ \<Rightarrow> (Inl (base_err + 3), sp1, ph1)
        | Ok _ \<Rightarrow> let e = file_offset s + file_size s in
            if unat e > length bin then (Inl (base_err + 4), sp1, ph1)
            else (case AddressSpace_copy_in A sp1 (vaddr s) (take (unat (e - file_offset s)) (drop (unat (file_offset s)) bin)) ph1 of
                (Err _, ph2) \<Rightarrow> (Inl (base_err + 5), sp1, ph2)
              | (Ok _, ph2) \<Rightarrow> (case AddressSpace_protect_range A sp1 (vaddr s) len (segment_rights s) of
                  (Err _, sp2) \<Rightarrow> (Inl (base_err + 6), sp2, ph2) | (Ok _, sp2) \<Rightarrow> (Inr (), sp2, ph2)))) = (r, sp', ph')"
proof (cases "(seg_write s \<and> seg_exec s) \<or> \<not> seg_read s")
  case True
  then have "load_segment A F bin base_err s sp ph = (Inl (if seg_write s \<and> seg_exec s then base_err + 1 else base_err + 7), sp, ph)"
    by (cases "seg_write s \<and> seg_exec s") (simp_all add: load_segment_def)
  with assms show thesis by (auto intro: refused)
next
  case rw: False
  show thesis
  proof (cases "checked_mul (div_ceil (mem_size s) FRAME_SIZE) FRAME_SIZE")
    case None
    then show thesis using assms rw by (intro refused) (auto simp: load_segment_def)
  next
    case (Some len)
    show thesis
    proof (cases "checked_add (vaddr s) len")
      case None
      then show thesis using assms rw Some by (intro refused) (auto simp: load_segment_def)
    next
      case e: (Some end_va)
      show thesis
      proof (cases "vaddr s mod FRAME_SIZE \<noteq> 0 \<or> vaddr s \<ge> USER_ADDRESS_MAX A \<or> end_va > USER_ADDRESS_MAX A")
        case True
        then show thesis using assms rw Some e by (intro refused) (auto simp: load_segment_def)
      next
        case False
        obtain m sp1 ph1 where m: "AddressSpace_map_anonymous A F sp (vaddr s) len (PageFlags_user PageFlags_rw) ph = (m, sp1, ph1)"
          by (metis prod_cases3)
        have nw: "unat (vaddr s) + unat len < 2 ^ 64" "unat end_va = unat (vaddr s) + unat len"
          using e by (auto simp: checked_add_Some_iff unat_word_ariths)
        then have "unat (vaddr s) + unat len \<le> unat (USER_ADDRESS_MAX A)" using False by (simp add: word_less_nat_alt not_less)
        with nw(1) Some m False rw assms show thesis
          by (intro mapped [of len m sp1 ph1]) (auto simp: load_segment_def e mod_FRAME_SIZE split: res.split)
      qed
    qed
  qed
qed

definition placed :: "8 word list \<Rightarrow> Segment \<Rightarrow> 'a AddressSpace \<Rightarrow> 'f Phys \<Rightarrow> 'a AddressSpace \<Rightarrow> 'f Phys \<Rightarrow> bool" where
  "placed bin s sp ph sp' ph' \<longleftrightarrow> segment_in_place bin (pages (as_arch sp')) (ph_mem ph') s \<and>
     (\<forall>va. va \<notin> segment_va s \<longrightarrow> pages (as_arch sp') va = pages (as_arch sp) va) \<and>
     (\<forall>va \<in> segment_va s. pages (as_arch sp) va = None) \<and>
     \<not> (seg_write s \<and> seg_exec s) \<and> is_aligned (vaddr s) FRAME_SIZE \<and>
     unat (vaddr s) + seg_pages s * 4096 \<le> unat (USER_ADDRESS_MAX A)"

lemma load_segment_spec:
  assumes ok: "space_ok sp ph M" and seg: "segment_within bin s" and small: "length bin < 2 ^ 64"
    and l: "load_segment A F bin base_err s sp ph = (r, sp', ph')"
  shows "space_ok sp' ph' M \<and> (\<forall>g \<in># held sp M. ph_mem ph' g = ph_mem ph g) \<and>
    (case r of Inl _ \<Rightarrow> True | Inr _ \<Rightarrow> placed bin s sp ph sp' ph')"
  using l
proof (cases rule: segment_checks)
  case refused
  with ok show ?thesis by simp
next
  case (mapped len m sp1 ph1)
  note P = seg_pages_len [OF mapped(1)]
  show ?thesis
  proof (cases m)
    case (Err e)
    note D = space_okD [OF ok]
    have "\<forall>g \<in># held sp M. ph_mem ph1 g = ph_mem ph g"
      using map_anonymous_spec [OF D(1,4) mapped(6)] Err by simp
    with map_anonymous_ok [OF ok mapped(2,6)] mapped(7) Err show ?thesis by auto
  next
    case (Ok u)
    have fe: "unat (file_offset s + file_size s) = unat (file_offset s) + unat (file_size s)"
        "unat (file_offset s) + unat (file_size s) \<le> length bin" "unat (file_size s) \<le> unat (mem_size s)"
      using seg small by (simp_all add: segment_within_def unat_word_ariths word_le_nat_alt)
    have src: "take (unat (file_size s)) (drop (unat (file_offset s)) bin) = seg_bytes bin s"
      by (simp add: seg_bytes_def)
    have "length (seg_bytes bin s) \<le> seg_pages s * 4096" using fe(3) P(3) by (simp add: seg_bytes_def)
    from place_bytes_spec [OF ok mapped(4,2) P(1) this mapped(6) [unfolded Ok]] obtain mem' where
      c: "AddressSpace_copy_in A sp1 (vaddr s) (seg_bytes bin s) ph1 = (Ok (), ph1\<lparr>ph_mem := mem'\<rparr>)"
        "space_ok sp1 (ph1\<lparr>ph_mem := mem'\<rparr>) M"
        "\<forall>i < seg_pages s. pages (as_arch sp) (page_at (vaddr s) i) = None \<and>
          (\<exists>f. pages (as_arch sp1) (page_at (vaddr s) i) = Some (f, PageFlags_user PageFlags_rw) \<and> mem' f = page_bytes (seg_bytes bin s) i)"
        "\<forall>va. va \<notin> page_at (vaddr s) ` {..<seg_pages s} \<longrightarrow> pages (as_arch sp1) va = pages (as_arch sp) va"
        "\<forall>g \<in># held sp M. mem' g = ph_mem ph g" by blast
    obtain w sp2 where w: "AddressSpace_protect_range A sp1 (vaddr s) len (segment_rights s) = (w, sp2)" by fastforce
    have res: "ph' = ph1\<lparr>ph_mem := mem'\<rparr>" "sp' = sp2" "r = (case w of Err _ \<Rightarrow> Inl (base_err + 6) | Ok _ \<Rightarrow> Inr ())"
      using mapped(7) fe(1,2) by (auto simp: Ok Let_def src c(1) w split: res.splits)
    have ok2: "space_ok sp2 (ph1\<lparr>ph_mem := mem'\<rparr>) M" by (rule protect_range_ok [OF c(2) w])
    show ?thesis
    proof (cases w)
      case Err
      with ok2 c(5) res show ?thesis by simp
    next
      case wok: (Ok y)
      have pg: "pages (as_arch sp2) = (\<lambda>va. if va \<in> segment_va s
          then map_option (\<lambda>(f, _). (f, segment_rights s)) (pages (as_arch sp1) va) else pages (as_arch sp1) va)"
        using protect_range_pages [OF space_okD(1) [OF c(2)] mapped(4) w [unfolded wok]]
        by (simp add: P(1) segment_va_def lessThan_atLeast0)
      have "segment_in_place bin (pages (as_arch sp2)) mem' s"
        unfolding segment_in_place_def
      proof (intro allI impI)
        fix i assume i: "i < seg_pages s"
        then obtain f where "pages (as_arch sp1) (page_at (vaddr s) i) = Some (f, PageFlags_user PageFlags_rw)"
          "mem' f = page_bytes (seg_bytes bin s) i" using c(3) by blast
        moreover have "page_at (vaddr s) i \<in> segment_va s" using i by (simp add: segment_va_def)
        ultimately show "\<exists>f. pages (as_arch sp2) (page_at (vaddr s) i) = Some (f, segment_rights s) \<and>
            mem' f = page_bytes (seg_bytes bin s) i" by (simp add: pg)
      qed
      moreover have "pages (as_arch sp2) va = pages (as_arch sp) va" if "va \<notin> segment_va s" for va
        using c(4) that by (simp add: pg segment_va_def)
      moreover have "pages (as_arch sp) va = None" if "va \<in> segment_va s" for va using c(3) that by (auto simp: segment_va_def)
      ultimately have "placed bin s sp ph sp2 (ph1\<lparr>ph_mem := mem'\<rparr>)"
        using mapped(3-5) P(2) by (simp add: placed_def)
      with ok2 c(5) res wok show ?thesis by simp
    qed
  qed
qed

lemma segment_in_place_mono:
  assumes "segment_in_place bin P mem s" "\<And>va f fl. P va = Some (f, fl) \<Longrightarrow> Q va = Some (f, fl) \<and> mem' f = mem f"
  shows "segment_in_place bin Q mem' s"
  using assms unfolding segment_in_place_def by metis

lemma load_loop_spec:
  assumes "space_ok sp ph M" "length bin < 2 ^ 64" "\<forall>s \<in> set segs. segment_within bin s"
    "load_loop A F bin base_err segs sp ph = (r, sp', ph')"
  shows "space_ok sp' ph' M \<and> (\<forall>g \<in># held sp M. ph_mem ph' g = ph_mem ph g) \<and>
    (case r of Inl _ \<Rightarrow> True
     | Inr _ \<Rightarrow> (\<forall>s \<in> set segs. segment_in_place bin (pages (as_arch sp')) (ph_mem ph') s \<and>
           \<not> (seg_write s \<and> seg_exec s) \<and> unat (vaddr s) + seg_pages s * 4096 \<le> unat (USER_ADDRESS_MAX A)) \<and>
         (\<forall>va. pages (as_arch sp') va \<noteq> pages (as_arch sp) va \<longrightarrow>
           pages (as_arch sp) va = None \<and> (\<exists>s \<in> set segs. va \<in> segment_va s)))"
  using assms
proof (induction segs arbitrary: sp ph)
  case (Cons s segs)
  obtain q sp1 ph1 where l: "load_segment A F bin base_err s sp ph = (q, sp1, ph1)" by (metis prod_cases3)
  have "segment_within bin s" using Cons.prems(3) by simp
  note S = load_segment_spec [OF Cons.prems(1) this Cons.prems(2) l]
  show ?case
  proof (cases q)
    case (Inl e)
    with l Cons.prems(4) S show ?thesis by auto
  next
    case (Inr u)
    with l Cons.prems(4) have rest: "load_loop A F bin base_err segs sp1 ph1 = (r, sp', ph')" by simp
    have ok1: "space_ok sp1 ph1 M" and pl: "placed bin s sp ph sp1 ph1" using S Inr by simp_all
    have within: "\<forall>s \<in> set segs. segment_within bin s" using Cons.prems(3) by simp
    note R = Cons.IH [OF ok1 Cons.prems(2) within rest]
    have keep: "pages (as_arch sp1) va = pages (as_arch sp) va" if "pages (as_arch sp) va \<noteq> None" for va
    proof -
      have "va \<notin> segment_va s" using pl that by (auto simp: placed_def)
      then show ?thesis using pl by (simp add: placed_def)
    qed
    have held: "g \<in># held sp1 M" if "g \<in># held sp M" for g
      using that keep unfolding held_iff [OF Cons.prems(1)] held_iff [OF ok1] by (metis option.distinct(1))
    have mem: "\<forall>g \<in># held sp M. ph_mem ph' g = ph_mem ph g" using R S held by simp
    show ?thesis
    proof (cases r)
      case (Inl e)
      with R mem show ?thesis by simp
    next
      case rok: (Inr v)
      have R2: "\<forall>va. pages (as_arch sp') va \<noteq> pages (as_arch sp1) va \<longrightarrow>
          pages (as_arch sp1) va = None \<and> (\<exists>s \<in> set segs. va \<in> segment_va s)" using R rok by simp
      have pg: "pages (as_arch sp') va = Some (f, fl) \<and> ph_mem ph' f = ph_mem ph1 f" if "pages (as_arch sp1) va = Some (f, fl)" for va f fl
      proof -
        have "f \<in># held sp1 M" using that held_iff [OF ok1] by blast
        moreover have "pages (as_arch sp') va = pages (as_arch sp1) va" using R2 that by (metis option.distinct(1))
        ultimately show ?thesis using R that by simp
      qed
      have "segment_in_place bin (pages (as_arch sp')) (ph_mem ph') s"
      proof (rule segment_in_place_mono [of bin "pages (as_arch sp1)" "ph_mem ph1"])
        show "segment_in_place bin (pages (as_arch sp1)) (ph_mem ph1) s" using pl by (simp add: placed_def)
      qed (rule pg)
      moreover have "pages (as_arch sp) va = None \<and> (\<exists>t \<in> set (s # segs). va \<in> segment_va t)"
        if d: "pages (as_arch sp') va \<noteq> pages (as_arch sp) va" for va
      proof (cases "va \<in> segment_va s")
        case True
        then show ?thesis using pl by (simp add: placed_def)
      next
        case False
        then have "pages (as_arch sp1) va = pages (as_arch sp) va" using pl by (simp add: placed_def)
        with R2 [rule_format, of va] d show ?thesis by simp
      qed
      ultimately show ?thesis using R mem rok pl by (simp add: placed_def)
    qed
  qed
qed auto

lemma load_into_spec:
  assumes "space_ok sp ph M" "length bin < 2 ^ 64"
    "load_into max_segments A F bin sp ph machine base_err = (r, sp', ph')"
  shows "space_ok sp' ph' M \<and> (\<forall>g \<in># held sp M. ph_mem ph' g = ph_mem ph g) \<and>
    (case r of Inl _ \<Rightarrow> True
     | Inr entry \<Rightarrow> \<exists>img. parse max_segments bin machine = Inr img \<and> entry = ei_entry img \<and>
         (\<forall>s \<in> set (ElfImage_segments img). segment_in_place bin (pages (as_arch sp')) (ph_mem ph') s \<and>
           \<not> (seg_write s \<and> seg_exec s) \<and> unat (vaddr s) + seg_pages s * 4096 \<le> unat (USER_ADDRESS_MAX A)) \<and>
         (\<forall>va. pages (as_arch sp') va \<noteq> pages (as_arch sp) va \<longrightarrow>
           pages (as_arch sp) va = None \<and> (\<exists>s \<in> set (ElfImage_segments img). va \<in> segment_va s)))"
proof (cases "parse max_segments bin machine")
  case (Inl e)
  with assms show ?thesis by (auto simp: load_into_def)
next
  case (Inr img)
  obtain q sp1 ph1 where l: "load_loop A F bin base_err (ElfImage_segments img) sp ph = (q, sp1, ph1)" by (metis prod_cases3)
  have "\<forall>s \<in> set (ElfImage_segments img). segment_within bin s" using parse_within [OF Inr assms(2)] by blast
  from load_loop_spec [OF assms(1,2) this l] assms(3) Inr l show ?thesis
    by (cases q) (auto simp: load_into_def)
qed

end

subsection \<open>The properties\<close>

text \<open>C12: The parser never reaches outside the image. Whatever bytes it is given, an image it
  accepts has at most the configured number of segments; they are the loadable program
  headers of the table the file header describes, in that order; and each one's file range
  lies inside the image, is no longer than its memory range, and that range is not empty.\<close>
theorem parse_stays_within_image:
  assumes "parse max_segments bin machine = Inr img" "length bin < 2 ^ 64"
  shows "length (ElfImage_segments img) \<le> max_segments \<and>
    (\<forall>s \<in> set (ElfImage_segments img). unat (file_offset s) + unat (file_size s) \<le> length bin \<and>
       file_size s \<le> mem_size s \<and> 0 < mem_size s) \<and>
    (\<exists>phoff phentsize phnum.
       read_addr (Machine_layout machine) bin (e_phoff (Machine_layout machine)) = Inr phoff \<and>
       read_u16 bin (e_phentsize (Machine_layout machine)) = Inr phentsize \<and>
       read_u16 bin (e_phnum (Machine_layout machine)) = Inr phnum \<and>
       ElfImage_segments img = loadable (Machine_layout machine) bin phoff (ucast phentsize) [0..<unat phnum])"
  using parse_Inr [OF assms(1)] parse_within [OF assms] unfolding segment_within_def by blast

text \<open>A two-page program for the 64-bit ARM port: text at \<^verbatim>\<open>0x400000\<close>, four bytes from the file.\<close>

definition le64 :: "64 word \<Rightarrow> 8 word list" where
  "le64 w = map (\<lambda>i. ucast (drop_bit (8 * i) w)) [0..<8]"

definition sample_elf :: "8 word list" where
  "sample_elf = [0x7f, 0x45, 0x4c, 0x46, 2, 1, 1, 0, 0, 0, 0, 0, 0, 0, 0, 0, 2, 0, 0xb7, 0, 1, 0, 0, 0] @ le64 0x400000 @ le64 64 @
     le64 0 @ [0, 0, 0, 0, 64, 0, 56, 0, 1, 0, 0, 0, 0, 0, 0, 0] @
     [1, 0, 0, 0, 5, 0, 0, 0] @ le64 120 @ le64 0x400000 @ le64 0x400000 @ le64 4 @ le64 0x1800 @ le64 0x1000 @
     [0x1f, 0x20, 0x03, 0xd5]"

definition sample_segment :: Segment where
  "sample_segment = \<lparr> file_offset = 120, vaddr = 0x400000, file_size = 4, mem_size = 0x1800,
     seg_read = True, seg_write = False, seg_exec = True \<rparr>"

lemma sample_elf_parses: "parse 1 sample_elf AArch64 = Inr \<lparr> ei_entry = 0x400000, ei_segments = [sample_segment], ei_count = 1 \<rparr>"
  by code_simp

theorem parse_stays_within_image_witness:
  "parse 1 sample_elf AArch64 = Inr \<lparr> ei_entry = 0x400000, ei_segments = [sample_segment], ei_count = 1 \<rparr> \<and>
   unat (file_offset sample_segment) + unat (file_size sample_segment) \<le> length sample_elf"
proof -
  have "length sample_elf = 124" by code_simp
  then have "length sample_elf < 2 ^ 64" by simp
  from parse_stays_within_image [OF sample_elf_parses this] sample_elf_parses show ?thesis by (simp add: ElfImage_segments_def)
qed

text \<open>C9: A program image is loaded as its segments say, or the space can be torn down without
  loss. After a successful load into a fresh address space every page of every segment has
  exactly the rights the segment asked for, none of them writable and executable, lies below
  the user bound, and reads as the file's bytes followed by zeros; nothing else is mapped;
  and the entry point is the image's. Whether the load succeeded or failed part way, no frame
  held elsewhere changed, and a teardown gives back every frame the load drew.\<close>
theorem load_into_faithful:
  assumes "bump_accounted (ph_alloc ph) M" "length bin < 2 ^ 64"
    and "load_into max_segments mock_arch bump_frames bin
           (AddressSpace_from_arch max_mappings MockAddressSpace_new asid cores) ph machine base_err = (r, sp, ph')"
  shows "(\<forall>g \<in># M. ph_mem ph' g = ph_mem ph g) \<and>
    bump_accounted (ph_alloc (snd (AddressSpace_teardown mock_arch bump_frames sp ph'))) M \<and>
    (case r of Inl _ \<Rightarrow> True
     | Inr entry \<Rightarrow> \<exists>img. parse max_segments bin machine = Inr img \<and> entry = ei_entry img \<and>
         (\<forall>s \<in> set (ElfImage_segments img). segment_in_place bin (ma_mappings (as_arch sp)) (ph_mem ph') s \<and>
           PageFlags_is_user (segment_rights s) \<and> PageFlags_readable (segment_rights s) \<and>
           (PageFlags_writable (segment_rights s) \<longleftrightarrow> seg_write s) \<and> (PageFlags_executable (segment_rights s) \<longleftrightarrow> seg_exec s) \<and>
           \<not> (seg_write s \<and> seg_exec s) \<and> unat (vaddr s) + seg_pages s * 4096 \<le>
             unat (USER_ADDRESS_MAX (mock_arch :: (MockAddressSpace, BumpFrameAllocator) ArchOps))) \<and>
         (\<forall>va. ma_mappings (as_arch sp) va \<noteq> None \<longrightarrow> (\<exists>s \<in> set (ElfImage_segments img). va \<in> segment_va s)))"
proof -
  let ?sp = "AddressSpace_from_arch max_mappings MockAddressSpace_new asid cores"
  have none: "ma_mappings MockAddressSpace_new va = None" for va by (simp add: MockAddressSpace_new_def)
  have ok: "bump_as.space_ok ?sp ph M" by (rule bump_as.from_arch_ok [OF mock_arch_new none]) (simp add: assms(1))
  note L = bump_as.load_into_spec [OF ok assms(2,3)]
  obtain sp2 ph2 where t: "AddressSpace_teardown mock_arch bump_frames sp ph' = (sp2, ph2)" by fastforce
  have "bump_accounted (ph_alloc ph2) M" using bump_as.teardown_ok [OF _ t] L by blast
  moreover have "PageFlags_is_user (segment_rights s) \<and> PageFlags_readable (segment_rights s) \<and>
      (PageFlags_writable (segment_rights s) \<longleftrightarrow> seg_write s) \<and> (PageFlags_executable (segment_rights s) \<longleftrightarrow> seg_exec s)" for s
    by (simp add: segment_rights_def Let_def PageFlags_readable_def page_flag_defs bit_simps flag_bit)
  moreover have "ma_mappings (as_arch ?sp) va = None" for va by (simp add: AddressSpace_from_arch_def none)
  ultimately show ?thesis using L t by (cases r) auto
qed

theorem load_into_faithful_witness:
  "case load_into 1 mock_arch bump_frames sample_elf (AddressSpace_from_arch 4 MockAddressSpace_new 1 1) sample_phys AArch64 100 of
     (r, sp, ph') \<Rightarrow> r = Inr 0x400000 \<and> segment_in_place sample_elf (ma_mappings (as_arch sp)) (ph_mem ph') sample_segment \<and>
       bump_accounted (ph_alloc (snd (AddressSpace_teardown mock_arch bump_frames sp ph'))) {#}"
proof -
  let ?l = "load_into 1 mock_arch bump_frames sample_elf (AddressSpace_from_arch 4 MockAddressSpace_new 1 1) sample_phys AArch64 100"
  obtain r sp ph' where l: "?l = (r, sp, ph')" by (metis prod_cases3)
  have "fst ?l = Inr 0x400000" by code_simp
  then have r: "r = Inr 0x400000" using l by simp
  have "map_ok sample_boot_map" using normalize_sound [OF sample_boot_map_normalized] by blast
  then have acc: "bump_accounted (ph_alloc sample_phys) {#}" using BumpFrameAllocator_new_accounted by (simp add: sample_phys_def)
  have "length sample_elf = 124" by code_simp
  then have "length sample_elf < 2 ^ 64" by simp
  from load_into_faithful [OF acc this l] show ?thesis
    unfolding l r sample_elf_parses by (simp add: ElfImage_segments_def)
qed

end
