(* ===== verification/Keyed.thy ===== *)
theory Keyed
  imports Prelude
begin

text \<open>
  Slot arrays searched by a field of their entries: the shape of the kernel's side tables,
  which scan \<^verbatim>\<open>iter().flatten().find(...)\<close> for the entry with a given key. With distinct
  keys such an array is a partial map; filling a free slot, writing an entry in place and
  clearing a slot are the map's insert, update and delete. The component theories state
  their operations over the arrays, as the code has them, and reason over the map.
\<close>

named_theorems keyed_simps \<open>keyed slot arrays as partial maps\<close>

definition find_key :: "('v \<Rightarrow> 'k) \<Rightarrow> 'v option list \<Rightarrow> 'k \<Rightarrow> nat option" where
  "find_key key xs k = position (\<lambda>s. case s of Some v \<Rightarrow> key v = k | None \<Rightarrow> False) xs"

definition key_lookup :: "('v \<Rightarrow> 'k) \<Rightarrow> 'v option list \<Rightarrow> 'k \<Rightarrow> 'v option" where
  "key_lookup key xs k = find (\<lambda>v. key v = k) (flatten xs)"

definition distinct_keys :: "('v \<Rightarrow> 'k) \<Rightarrow> 'v option list \<Rightarrow> bool" where
  "distinct_keys key xs \<longleftrightarrow> distinct (map key (flatten xs))"

lemma key_lookup_find_key: "key_lookup key xs k = Option.bind (find_key key xs k) (\<lambda>i. xs ! i)"
proof (induction xs)
  case (Cons x xs)
  then show ?case
    by (cases x; cases "find_key key xs k") (simp_all add: key_lookup_def find_key_def)
qed (simp add: key_lookup_def find_key_def)

lemma find_key_SomeD:
  assumes "find_key key xs k = Some i"
  obtains v where "i < length xs" "xs ! i = Some v" "key v = k" "key_lookup key xs k = Some v"
proof -
  from position_SomeD [OF assms [unfolded find_key_def]] obtain v where "i < length xs" "xs ! i = Some v" "key v = k"
    by (auto split: option.splits)
  moreover then have "key_lookup key xs k = Some v" by (simp add: key_lookup_find_key assms)
  ultimately show ?thesis by (rule that)
qed

lemma find_key_None_iff [keyed_simps]: "find_key key xs k = None \<longleftrightarrow> key_lookup key xs k = None"
proof
  assume "key_lookup key xs k = None"
  show "find_key key xs k = None"
  proof (rule ccontr)
    assume "find_key key xs k \<noteq> None"
    then obtain i where "find_key key xs k = Some i" by auto
    then obtain v where "key_lookup key xs k = Some v" by (rule find_key_SomeD)
    with \<open>key_lookup key xs k = None\<close> show False by simp
  qed
qed (simp add: key_lookup_find_key)

lemma key_lookup_SomeD: "key_lookup key xs k = Some v \<Longrightarrow> v \<in> set (flatten xs) \<and> key v = k"
  by (auto simp: key_lookup_def find_Some_iff)

lemma key_lookup_None_iff: "key_lookup key xs k = None \<longleftrightarrow> k \<notin> key ` set (flatten xs)"
  by (auto simp: key_lookup_def find_None_iff)

lemma key_lookup_iff:
  assumes "distinct_keys key xs"
  shows "key_lookup key xs k = Some v \<longleftrightarrow> v \<in> set (flatten xs) \<and> key v = k"
proof
  assume a: "v \<in> set (flatten xs) \<and> key v = k"
  then obtain w where w: "key_lookup key xs k = Some w"
    by (cases "key_lookup key xs k") (auto simp: key_lookup_None_iff)
  with key_lookup_SomeD [OF w] a assms have "w = v"
    by (auto simp: distinct_keys_def distinct_map inj_on_def)
  with w show "key_lookup key xs k = Some v" by simp
qed (rule key_lookup_SomeD)

lemma key_lookup_mem:
  "distinct_keys key xs \<Longrightarrow> v \<in> set (flatten xs) \<Longrightarrow> key_lookup key xs (key v) = Some v"
  by (simp add: key_lookup_iff)

lemma nth_in_flatten: "i < length xs \<Longrightarrow> xs ! i = Some v \<Longrightarrow> v \<in> set (flatten xs)"
  unfolding set_flatten by (metis mem_Collect_eq nth_mem)

lemma distinct_keys_mset:
  "image_mset key (mset (flatten xs)) = image_mset key (mset (flatten ys)) \<Longrightarrow> distinct_keys key xs = distinct_keys key ys"
  unfolding distinct_keys_def by (rule mset_eq_imp_distinct_iff) simp

lemma flatten_fill_set: "i < length xs \<Longrightarrow> xs ! i = None \<Longrightarrow> set (flatten (xs[i := Some v])) = insert v (set (flatten xs))"
  using arg_cong [OF mset_flatten_fill, of i xs set_mset v] by simp

lemma key_fill:
  assumes "i < length xs" "xs ! i = None" "distinct_keys key xs" "key_lookup key xs (key v) = None"
  shows "distinct_keys key (xs[i := Some v])"
    and "key_lookup key (xs[i := Some v]) = (key_lookup key xs)(key v \<mapsto> v)"
proof -
  have "mset (map key (flatten (xs[i := Some v]))) = mset (key v # map key (flatten xs))"
    by (simp add: mset_flatten_fill [OF assms(1,2)])
  from mset_eq_imp_distinct_iff [OF this] show d: "distinct_keys key (xs[i := Some v])"
    using assms(3,4) by (simp add: distinct_keys_def key_lookup_None_iff)
  show "key_lookup key (xs[i := Some v]) = (key_lookup key xs)(key v \<mapsto> v)"
  proof (rule ext, rule option_ext)
    fix k w
    show "key_lookup key (xs[i := Some v]) k = Some w \<longleftrightarrow> ((key_lookup key xs)(key v \<mapsto> v)) k = Some w"
      using assms(4) by (auto simp: key_lookup_iff [OF d] key_lookup_iff [OF assms(3)] flatten_fill_set [OF assms(1,2)]
          key_lookup_None_iff image_iff)
  qed
qed

lemma key_clear:
  assumes "i < length xs" "xs ! i = Some v" "distinct_keys key xs"
  shows "distinct_keys key (xs[i := None])"
    and "key_lookup key (xs[i := None]) = (key_lookup key xs)(key v := None)"
    and "\<And>w. w \<in> set (flatten (xs[i := None])) \<longleftrightarrow> w \<in> set (flatten xs) \<and> key w \<noteq> key v"
proof -
  have m: "mset (map key (flatten xs)) = mset (key v # map key (flatten (xs[i := None])))"
    using arg_cong [OF mset_flatten_clear [OF assms(1,2)], of "image_mset key"] by simp
  have dd: "distinct (key v # map key (flatten (xs[i := None])))"
    using assms(3) mset_eq_imp_distinct_iff [OF m] unfolding distinct_keys_def by simp
  then show d: "distinct_keys key (xs[i := None])" by (simp add: distinct_keys_def)
  have s: "set (flatten xs) = insert v (set (flatten (xs[i := None])))"
    using arg_cong [OF mset_flatten_clear [OF assms(1,2)], of set_mset] by simp
  show mem: "w \<in> set (flatten (xs[i := None])) \<longleftrightarrow> w \<in> set (flatten xs) \<and> key w \<noteq> key v" for w
    using dd s by (auto simp: image_iff)
  show "key_lookup key (xs[i := None]) = (key_lookup key xs)(key v := None)"
    by (rule ext, rule option_ext) (auto simp: key_lookup_iff [OF d] key_lookup_iff [OF assms(3)] mem)
qed

lemma key_replace:
  assumes "i < length xs" "xs ! i = Some v" "key w = key v" "distinct_keys key xs"
  shows "distinct_keys key (xs[i := Some w])"
    and "key_lookup key (xs[i := Some w]) = (key_lookup key xs)(key v \<mapsto> w)"
    and "\<And>u. u \<in> set (flatten (xs[i := Some w])) \<longleftrightarrow> u = w \<or> u \<in> set (flatten xs) \<and> key u \<noteq> key v"
proof -
  have n: "xs[i := Some w] = (xs[i := None])[i := Some w]" by simp
  have l: "key_lookup key (xs[i := None]) (key w) = None" using key_clear(2) [OF assms(1,2,4)] assms(3) by simp
  note f = key_fill [of i "xs[i := None]" key w, OF _ _ key_clear(1) [OF assms(1,2,4)] l]
  show "distinct_keys key (xs[i := Some w])" using f(1) assms(1) by simp
  show "key_lookup key (xs[i := Some w]) = (key_lookup key xs)(key v \<mapsto> w)"
    using f(2) assms(1,3) key_clear(2) [OF assms(1,2,4)] by simp
  show "u \<in> set (flatten (xs[i := Some w])) \<longleftrightarrow> u = w \<or> u \<in> set (flatten xs) \<and> key u \<noteq> key v" for u
    using flatten_fill_set [of i "xs[i := None]" w] assms(1) key_clear(3) [OF assms(1,2,4), of u] by auto
qed

lemma distinct_keys_replicate [simp]: "distinct_keys key (replicate n None)"
  by (simp add: distinct_keys_def)

lemma key_lookup_replicate [simp]: "key_lookup key (replicate n None) = Map.empty"
  by (simp add: key_lookup_def fun_eq_iff)

text \<open>How many entries satisfy a predicate, when an entry is filled, replaced or cleared.\<close>

definition count_where :: "('v \<Rightarrow> bool) \<Rightarrow> 'v option list \<Rightarrow> nat" where
  "count_where P xs = length (filter P (flatten xs))"

lemma count_where_mset: "count_where P xs = size (filter_mset P (mset (flatten xs)))"
  by (simp add: count_where_def flip: mset_filter)

lemma count_where_fill:
  "i < length xs \<Longrightarrow> xs ! i = None \<Longrightarrow> count_where P (xs[i := Some v]) = count_where P xs + (if P v then 1 else 0)"
  by (simp add: count_where_mset mset_flatten_fill)

lemma count_where_clear:
  "i < length xs \<Longrightarrow> xs ! i = Some v \<Longrightarrow> count_where P (xs[i := None]) + (if P v then 1 else 0) = count_where P xs"
  unfolding count_where_mset by (subst mset_flatten_clear [symmetric, of i xs v]) auto

lemma count_where_replace:
  assumes "i < length xs" "xs ! i = Some v"
  shows "count_where P (xs[i := Some w]) + (if P v then 1 else 0) = count_where P xs + (if P w then 1 else 0)"
  using count_where_fill [of i "xs[i := None]" P w] count_where_clear [OF assms, of P] assms(1) by simp

lemma count_where_le: "count_where P xs \<le> length xs"
  using count_some_le [of xs] length_filter_le [of P "flatten xs"] by (simp add: count_where_def length_flatten)

end
