(* ===== verification/Processes.thy ===== *)
theory Processes
  imports Elf Handles Keyed
begin

text \<open>
  Processes, \<^verbatim>\<open>kcore/src/process.rs\<close>: the container of an address space, a handle table and
  threads, its records of mapped device windows and memory grants, and the pool of processes.
  The capacities of \<^verbatim>\<open>config/kernel.config\<close> are the fields of \<open>ProcessConfig\<close>. A lookup that
  lends a process mutably (\<^verbatim>\<open>process_of_thread\<close>, \<^verbatim>\<open>process_of_id\<close>) is a search, and its user
  writes the process back through \<open>ProcessTable_set\<close>.
\<close>

definition MAX_PROCESS_WAITERS :: nat where "MAX_PROCESS_WAITERS = 4"

record ProcessConfig =
  MAX_THREADS_PER_PROCESS :: nat
  MAX_DEVICE_WINDOWS :: nat
  MAX_MEMORY_MAPPINGS :: nat
  MAX_HANDLES :: nat

record DeviceWindow =
  dw_object :: ObjectId
  dw_va :: "64 word"
  dw_pages :: "64 word"

record MemoryMapping =
  mm_object :: ObjectId
  mm_va :: "64 word"
  mm_pages :: "64 word"

datatype ProcessState = Created | PRunning | PExited "32 word"

record 'a Process =
  pr_id :: ObjectId
  pr_space :: "'a AddressSpace"
  pr_handles :: HandleTable
  pr_threads :: "ThreadId option list"
  pr_waiters :: "ThreadId option list"
  pr_state :: ProcessState
  pr_job :: "ObjectId option"
  pr_device_windows :: "DeviceWindow option list"
  pr_memory_mappings :: "MemoryMapping option list"

definition Process_new :: "ProcessConfig \<Rightarrow> ObjectId \<Rightarrow> 'a AddressSpace \<Rightarrow> 'a Process" where
  "Process_new cfg x space =
     \<lparr> pr_id = x, pr_space = space, pr_handles = HandleTable_new (MAX_HANDLES cfg),
       pr_threads = replicate (MAX_THREADS_PER_PROCESS cfg) None, pr_waiters = replicate MAX_PROCESS_WAITERS None,
       pr_state = Created, pr_job = None,
       pr_device_windows = replicate (MAX_DEVICE_WINDOWS cfg) None,
       pr_memory_mappings = replicate (MAX_MEMORY_MAPPINGS cfg) None \<rparr>"

subsection \<open>Device windows\<close>

definition Process_record_device_window :: "'a Process \<Rightarrow> ObjectId \<Rightarrow> 64 word \<Rightarrow> 64 word \<Rightarrow> unit res \<times> 'a Process" where
  "Process_record_device_window p object va n =
     (case free_slot (pr_device_windows p) of
        None \<Rightarrow> (Err LimitExceeded, p)
      | Some i \<Rightarrow> (Ok (), p\<lparr>pr_device_windows := (pr_device_windows p)[i := Some \<lparr>dw_object = object, dw_va = va, dw_pages = n\<rparr>]\<rparr>))"

fun clear_first :: "('v \<Rightarrow> bool) \<Rightarrow> 'v option list \<Rightarrow> 'v option list" where
  "clear_first P [] = []"
| "clear_first P (None # xs) = None # clear_first P xs"
| "clear_first P (Some v # xs) = (if P v then None # xs else Some v # clear_first P xs)"

definition Process_forget_device_window :: "'a Process \<Rightarrow> ObjectId \<Rightarrow> 64 word \<Rightarrow> 'a Process" where
  "Process_forget_device_window p object va =
     p\<lparr>pr_device_windows := clear_first (\<lambda>w. dw_object w = object \<and> dw_va w = va) (pr_device_windows p)\<rparr>"

fun take_windows ::
    "ObjectId \<Rightarrow> DeviceWindow option list \<Rightarrow> DeviceWindow option list \<Rightarrow> nat \<Rightarrow> DeviceWindow option list \<times> DeviceWindow option list" where
  "take_windows object [] out found = ([], out)"
| "take_windows object (None # slots) out found =
     (case take_windows object slots out found of (rest, out') \<Rightarrow> (None # rest, out'))"
| "take_windows object (Some w # slots) out found =
     (if dw_object w = object
      then (case take_windows object slots (out[found := Some w]) (found + 1) of (rest, out') \<Rightarrow> (None # rest, out'))
      else (case take_windows object slots out found of (rest, out') \<Rightarrow> (Some w # rest, out')))"

definition Process_take_device_windows :: "'a Process \<Rightarrow> ObjectId \<Rightarrow> DeviceWindow option list \<times> 'a Process" where
  "Process_take_device_windows p object =
     (case take_windows object (pr_device_windows p) (replicate (length (pr_device_windows p)) None) 0 of
        (rest, out) \<Rightarrow> (out, p\<lparr>pr_device_windows := rest\<rparr>))"

fun revoke_windows :: "('a, 'f) ArchOps \<Rightarrow> 'a AddressSpace \<Rightarrow> DeviceWindow list \<Rightarrow> 'a AddressSpace" where
  "revoke_windows A sp [] = sp"
| "revoke_windows A sp (w # ws) =
     (let sp1 = snd (AddressSpace_unmap_device_page A sp (dw_va w));
          sp2 = AddressSpace_unmap_device_pages A sp1 (dw_va w + FRAME_SIZE) (unat (dw_pages w - 1))
      in revoke_windows A sp2 ws)"

definition Process_revoke_device_windows_unless_held :: "('a, 'f) ArchOps \<Rightarrow> 'a Process \<Rightarrow> ObjectId \<Rightarrow> bool \<times> 'a Process" where
  "Process_revoke_device_windows_unless_held A p object =
     (if HandleTable_holds (pr_handles p) object then (False, p)
      else case Process_take_device_windows p object of
        (out, p1) \<Rightarrow> (True, p1\<lparr>pr_space := revoke_windows A (pr_space p1) (flatten out)\<rparr>))"

subsection \<open>Memory grants\<close>

definition Process_record_memory_mapping :: "'a Process \<Rightarrow> ObjectId \<Rightarrow> 64 word \<Rightarrow> 64 word \<Rightarrow> unit res \<times> 'a Process" where
  "Process_record_memory_mapping p object va n =
     (case free_slot (pr_memory_mappings p) of
        None \<Rightarrow> (Err LimitExceeded, p)
      | Some i \<Rightarrow> (Ok (), p\<lparr>pr_memory_mappings := (pr_memory_mappings p)[i := Some \<lparr>mm_object = object, mm_va = va, mm_pages = n\<rparr>]\<rparr>))"

definition Process_forget_memory_mapping :: "'a Process \<Rightarrow> ObjectId \<Rightarrow> 64 word \<Rightarrow> 'a Process" where
  "Process_forget_memory_mapping p object va =
     p\<lparr>pr_memory_mappings := clear_first (\<lambda>m. mm_object m = object \<and> mm_va m = va) (pr_memory_mappings p)\<rparr>"

text \<open>The addresses at which a process maps one page of an object.\<close>

definition object_page_vas :: "'a Process \<Rightarrow> ObjectId \<Rightarrow> 64 word \<Rightarrow> VirtAddr list" where
  "object_page_vas p object offset =
     map (\<lambda>m. mm_va m + offset)
       (filter (\<lambda>m. mm_object m = object \<and> offset < mm_pages m * FRAME_SIZE) (flatten (pr_memory_mappings p)))"

fun reprotect_loop :: "('a, 'f) ArchOps \<Rightarrow> 'a AddressSpace \<Rightarrow> VirtAddr list \<Rightarrow> bool \<Rightarrow> bool \<times> 'a AddressSpace" where
  "reprotect_loop A sp [] any = (any, sp)"
| "reprotect_loop A sp (va # vas) any =
     (case AddressSpace_reprotect_ro A sp va of (r, sp1) \<Rightarrow> reprotect_loop A sp1 vas (any \<or> is_ok r))"

definition Process_reprotect_object_page :: "('a, 'f) ArchOps \<Rightarrow> 'a Process \<Rightarrow> ObjectId \<Rightarrow> 64 word \<Rightarrow> bool \<times> 'a Process" where
  "Process_reprotect_object_page A p object offset =
     (case reprotect_loop A (pr_space p) (object_page_vas p object offset) False of
        (any, sp) \<Rightarrow> (any, p\<lparr>pr_space := sp\<rparr>))"

fun revoke_mappings ::
    "('a, 'f) ArchOps \<Rightarrow> 'f FrameOps \<Rightarrow> 'a AddressSpace \<Rightarrow> MemoryMapping option list \<Rightarrow> 'f Phys \<Rightarrow>
     (nat \<times> MemoryMapping option) list \<Rightarrow> MemoryMapping option list \<times> 'a AddressSpace \<times> 'f Phys" where
  "revoke_mappings A F sp mms ph [] = (mms, sp, ph)"
| "revoke_mappings A F sp mms ph ((slot, None) # found) = revoke_mappings A F sp mms ph found"
| "revoke_mappings A F sp mms ph ((slot, Some m) # found) =
     (case AddressSpace_reclaim_range A F sp (mm_va m) (mm_pages m * FRAME_SIZE) ph of
        (outcome, sp1, ph1) \<Rightarrow>
          revoke_mappings A F sp1 (if is_ok outcome then mms[slot := None] else mms) ph1 found)"

definition Process_revoke_memory_mappings_unless_held ::
    "('a, 'f) ArchOps \<Rightarrow> 'f FrameOps \<Rightarrow> 'a Process \<Rightarrow> ObjectId \<Rightarrow> 'f Phys \<Rightarrow> bool \<times> 'a Process \<times> 'f Phys" where
  "Process_revoke_memory_mappings_unless_held A F p object ph =
     (if HandleTable_holds (pr_handles p) object then (False, p, ph)
      else
        let found = map (\<lambda>s. case s of Some m \<Rightarrow> if mm_object m = object then Some m else None | None \<Rightarrow> None) (pr_memory_mappings p)
        in case revoke_mappings A F (pr_space p) (pr_memory_mappings p) ph (List.enumerate 0 found) of
             (mms, sp, ph1) \<Rightarrow> (True, p\<lparr>pr_memory_mappings := mms, pr_space := sp\<rparr>, ph1))"

fun mapped_objects :: "MemoryMapping list \<Rightarrow> nat \<Rightarrow> ObjectId list \<Rightarrow> nat \<times> ObjectId list" where
  "mapped_objects [] n out = (n, out)"
| "mapped_objects (m # ms) n out =
     (if n = length out then (n, out)
      else if mm_object m \<in> set (take n out) then mapped_objects ms n out
      else mapped_objects ms (n + 1) (out[n := mm_object m]))"

definition Process_mapped_memory_objects :: "'a Process \<Rightarrow> ObjectId list \<Rightarrow> nat \<times> ObjectId list" where
  "Process_mapped_memory_objects p out = mapped_objects (flatten (pr_memory_mappings p)) 0 out"

fun evict_loop ::
    "('a, 'f) ArchOps \<Rightarrow> 'f FrameOps \<Rightarrow> 'a AddressSpace \<Rightarrow> 'f Phys \<Rightarrow> VirtAddr list \<Rightarrow> bool \<Rightarrow> bool \<times> 'a AddressSpace \<times> 'f Phys" where
  "evict_loop A F sp ph [] any = (any, sp, ph)"
| "evict_loop A F sp ph (va # vas) any =
     (case AddressSpace_evict_page A F sp va ph of (r, sp1, ph1) \<Rightarrow> evict_loop A F sp1 ph1 vas (any \<or> is_ok r))"

definition Process_unmap_object_page ::
    "('a, 'f) ArchOps \<Rightarrow> 'f FrameOps \<Rightarrow> 'a Process \<Rightarrow> ObjectId \<Rightarrow> 64 word \<Rightarrow> 'f Phys \<Rightarrow> bool \<times> 'a Process \<times> 'f Phys" where
  "Process_unmap_object_page A F p object offset ph =
     (case evict_loop A F (pr_space p) ph (object_page_vas p object offset) False of
        (any, sp, ph1) \<Rightarrow> (any, p\<lparr>pr_space := sp\<rparr>, ph1))"

definition Process_maps_object :: "'a Process \<Rightarrow> ObjectId \<Rightarrow> bool" where
  "Process_maps_object p object \<longleftrightarrow> list_ex (\<lambda>m. mm_object m = object) (flatten (pr_memory_mappings p))"

definition Process_memory_mapping_count :: "'a Process \<Rightarrow> nat" where
  "Process_memory_mapping_count p = length (flatten (pr_memory_mappings p))"

definition Process_device_window_count :: "'a Process \<Rightarrow> nat" where
  "Process_device_window_count p = length (flatten (pr_device_windows p))"

definition Process_set_job :: "'a Process \<Rightarrow> ObjectId \<Rightarrow> 'a Process" where
  "Process_set_job p job = p\<lparr>pr_job := Some job\<rparr>"

subsection \<open>Threads, waiters and the lifecycle\<close>

definition Process_add_thread :: "'a Process \<Rightarrow> ThreadId \<Rightarrow> unit res \<times> 'a Process" where
  "Process_add_thread p t =
     (case free_slot (pr_threads p) of
        None \<Rightarrow> (Err OutOfMemory, p)
      | Some i \<Rightarrow> (Ok (), p\<lparr>pr_threads := (pr_threads p)[i := Some t]\<rparr>))"

definition Process_forget_thread :: "'a Process \<Rightarrow> ThreadId \<Rightarrow> 'a Process" where
  "Process_forget_thread p t = p\<lparr>pr_threads := map (\<lambda>s. if s = Some t then None else s) (pr_threads p)\<rparr>"

definition Process_owns_thread :: "'a Process \<Rightarrow> ThreadId \<Rightarrow> bool" where
  "Process_owns_thread p t \<longleftrightarrow> list_ex (\<lambda>u. u = t) (flatten (pr_threads p))"

definition Process_set_running :: "'a Process \<Rightarrow> 'a Process" where
  "Process_set_running p = p\<lparr>pr_state := PRunning\<rparr>"

definition Process_exit :: "'a Process \<Rightarrow> 32 word \<Rightarrow> 'a Process" where
  "Process_exit p code = p\<lparr>pr_state := PExited code\<rparr>"

definition Process_is_exited :: "'a Process \<Rightarrow> bool" where
  "Process_is_exited p = (case pr_state p of PExited _ \<Rightarrow> True | _ \<Rightarrow> False)"

definition Process_add_waiter :: "'a Process \<Rightarrow> ThreadId \<Rightarrow> unit res \<times> 'a Process" where
  "Process_add_waiter p t =
     (case free_slot (pr_waiters p) of
        None \<Rightarrow> (Err OutOfMemory, p)
      | Some i \<Rightarrow> (Ok (), p\<lparr>pr_waiters := (pr_waiters p)[i := Some t]\<rparr>))"

definition Process_take_waiters :: "'a Process \<Rightarrow> ThreadId option list \<times> 'a Process" where
  "Process_take_waiters p = (pr_waiters p, p\<lparr>pr_waiters := replicate MAX_PROCESS_WAITERS None\<rparr>)"

subsection \<open>The pool\<close>

record 'a ProcessTable =
  pt_slots :: "'a Process option list"

definition ProcessTable_new :: "nat \<Rightarrow> 'a ProcessTable" where
  "ProcessTable_new max_processes = \<lparr> pt_slots = replicate max_processes None \<rparr>"

definition ProcessTable_insert :: "'a ProcessTable \<Rightarrow> 'a Process \<Rightarrow> nat res \<times> 'a ProcessTable" where
  "ProcessTable_insert t p =
     (case free_slot (pt_slots t) of
        None \<Rightarrow> (Err OutOfMemory, t)
      | Some i \<Rightarrow> (Ok i, t\<lparr>pt_slots := (pt_slots t)[i := Some p]\<rparr>))"

definition ProcessTable_get :: "'a ProcessTable \<Rightarrow> nat \<Rightarrow> 'a Process option" where
  "ProcessTable_get t index = Option.bind (get_opt (pt_slots t) index) (\<lambda>s. s)"

definition ProcessTable_remove :: "'a ProcessTable \<Rightarrow> nat \<Rightarrow> 'a Process option \<times> 'a ProcessTable" where
  "ProcessTable_remove t index =
     (if index < length (pt_slots t) then (pt_slots t ! index, t\<lparr>pt_slots := (pt_slots t)[index := None]\<rparr>) else (None, t))"

definition ProcessTable_index_of_id :: "'a ProcessTable \<Rightarrow> ObjectId \<Rightarrow> nat option" where
  "ProcessTable_index_of_id t x = find_key pr_id (pt_slots t) x"

definition ProcessTable_process_of_thread :: "'a ProcessTable \<Rightarrow> ThreadId \<Rightarrow> 'a Process option" where
  "ProcessTable_process_of_thread t thread = find (\<lambda>p. Process_owns_thread p thread) (flatten (pt_slots t))"

definition ProcessTable_process_of_id :: "'a ProcessTable \<Rightarrow> ObjectId \<Rightarrow> 'a Process option" where
  "ProcessTable_process_of_id t x = key_lookup pr_id (pt_slots t) x"

definition ProcessTable_set :: "'a ProcessTable \<Rightarrow> 'a Process \<Rightarrow> 'a ProcessTable" where
  "ProcessTable_set t p =
     (case find_key pr_id (pt_slots t) (pr_id p) of
        None \<Rightarrow> t
      | Some i \<Rightarrow> t\<lparr>pt_slots := (pt_slots t)[i := Some p]\<rparr>)"

definition ProcessTable_forget_thread :: "'a ProcessTable \<Rightarrow> ThreadId \<Rightarrow> 'a ProcessTable" where
  "ProcessTable_forget_thread t thread =
     t\<lparr>pt_slots := map (map_option (\<lambda>p. Process_forget_thread p thread)) (pt_slots t)\<rparr>"

fun unmap_page_slots ::
    "('a, 'f) ArchOps \<Rightarrow> 'f FrameOps \<Rightarrow> ObjectId \<Rightarrow> 64 word \<Rightarrow> 'a Process option list \<Rightarrow> 'f Phys \<Rightarrow>
     nat \<times> 'a Process option list \<times> 'f Phys" where
  "unmap_page_slots A F object offset [] ph = (0, [], ph)"
| "unmap_page_slots A F object offset (None # slots) ph =
     (case unmap_page_slots A F object offset slots ph of (n, slots', ph') \<Rightarrow> (n, None # slots', ph'))"
| "unmap_page_slots A F object offset (Some p # slots) ph =
     (case Process_unmap_object_page A F p object offset ph of
        (any, p', ph1) \<Rightarrow>
          (case unmap_page_slots A F object offset slots ph1 of
             (n, slots', ph') \<Rightarrow> (if any then n + 1 else n, Some p' # slots', ph')))"

definition ProcessTable_unmap_object_page ::
    "('a, 'f) ArchOps \<Rightarrow> 'f FrameOps \<Rightarrow> 'a ProcessTable \<Rightarrow> ObjectId \<Rightarrow> 64 word \<Rightarrow> 'f Phys \<Rightarrow> nat \<times> 'a ProcessTable \<times> 'f Phys" where
  "ProcessTable_unmap_object_page A F t object offset ph =
     (case unmap_page_slots A F object offset (pt_slots t) ph of
        (n, slots, ph') \<Rightarrow> (n, t\<lparr>pt_slots := slots\<rparr>, ph'))"

definition ProcessTable_reprotect_object_page ::
    "('a, 'f) ArchOps \<Rightarrow> 'a ProcessTable \<Rightarrow> ObjectId \<Rightarrow> 64 word \<Rightarrow> nat \<times> 'a ProcessTable" where
  "ProcessTable_reprotect_object_page A t object offset =
     (let done = map (map_option (\<lambda>p. Process_reprotect_object_page A p object offset)) (pt_slots t)
      in (length (filter fst (flatten done)), t\<lparr>pt_slots := map (map_option snd) done\<rparr>))"

subsection \<open>Device windows follow the capability\<close>

lemma take_windows_spec:
  "length (filter (\<lambda>w. dw_object w = object) (flatten slots)) \<le> k \<Longrightarrow>
   take_windows object slots (map Some xs @ replicate k None) (length xs) =
     (map (\<lambda>s. case s of Some w \<Rightarrow> if dw_object w = object then None else s | None \<Rightarrow> None) slots,
      map Some (xs @ filter (\<lambda>w. dw_object w = object) (flatten slots)) @
      replicate (k - length (filter (\<lambda>w. dw_object w = object) (flatten slots))) None)"
proof (induction slots arbitrary: xs k)
  case (Cons s slots)
  show ?case
  proof (cases s)
    case None
    with Cons show ?thesis by simp
  next
    case (Some w)
    show ?thesis
    proof (cases "dw_object w = object")
      case True
      with Cons.prems Some obtain j where k: "k = Suc j" by (cases k) auto
      have "(map Some xs @ replicate k None)[length xs := Some w] = map Some (xs @ [w]) @ replicate j None"
        by (simp add: k list_update_append)
      moreover have "length xs + 1 = length (xs @ [w])" by simp
      ultimately show ?thesis using Cons.IH [of j "xs @ [w]"] Cons.prems True Some k by simp
    qed (use Cons Some in simp)
  qed
qed simp

lemma take_device_windows_spec:
  "Process_take_device_windows p object =
     (map Some (filter (\<lambda>w. dw_object w = object) (flatten (pr_device_windows p))) @
      replicate (length (pr_device_windows p) - length (filter (\<lambda>w. dw_object w = object) (flatten (pr_device_windows p)))) None,
      p\<lparr>pr_device_windows := map (\<lambda>s. case s of Some w \<Rightarrow> if dw_object w = object then None else s | None \<Rightarrow> None) (pr_device_windows p)\<rparr>)"
proof -
  have "length (filter (\<lambda>w. dw_object w = object) (flatten (pr_device_windows p))) \<le> length (pr_device_windows p)"
    by (rule order_trans [OF length_filter_le]) (simp add: length_flatten count_some_le)
  from take_windows_spec [OF this, of "[]"] show ?thesis by (simp add: Process_take_device_windows_def)
qed

definition window_vas :: "DeviceWindow \<Rightarrow> VirtAddr set" where
  "window_vas w = page_at (dw_va w) ` {..<unat (dw_pages w)}"

definition window_ok :: "DeviceWindow \<Rightarrow> bool" where
  "window_ok w \<longleftrightarrow> is_aligned (dw_va w) FRAME_SIZE \<and> 0 < dw_pages w"

lemma window_vas_split:
  assumes "0 < dw_pages w"
  shows "window_vas w = insert (dw_va w) (page_at (dw_va w + FRAME_SIZE) ` {..<unat (dw_pages w - 1)})"
proof -
  have "unat (dw_pages w) = Suc (unat (dw_pages w - 1))" using assms by (simp add: unat_minus_one word_gt_0 unat_gt_0)
  then have "window_vas w = insert (page_at (dw_va w) 0) ((page_at (dw_va w) \<circ> Suc) ` {..<unat (dw_pages w - 1)})"
    by (simp add: window_vas_def lessThan_Suc_eq_insert_0 image_image comp_def)
  moreover have "page_at (dw_va w) \<circ> Suc = page_at (dw_va w + FRAME_SIZE)" by (simp add: fun_eq_iff page_at_def algebra_simps)
  ultimately show ?thesis by (simp add: page_at_def)
qed

definition without :: "VirtAddr set \<Rightarrow> (VirtAddr \<Rightarrow> (PhysFrame \<times> PageFlags) option) \<Rightarrow> VirtAddr \<Rightarrow> (PhysFrame \<times> PageFlags) option" where
  "without X P = (\<lambda>va. if va \<in> X then None else P va)"

lemma without_simps [simp]: "without {} P = P" "without X (without Y P) = without (X \<union> Y) P"
  by (auto simp: without_def)

definition exact :: "'a AddressSpace \<Rightarrow> MemoryMapping \<Rightarrow> bool" where
  "exact sp m \<longleftrightarrow> AddressSpace_find_exact sp (mm_va m) (mm_pages m * FRAME_SIZE) \<noteq> None"

definition grant_vas :: "MemoryMapping \<Rightarrow> VirtAddr set" where
  "grant_vas m = page_at (mm_va m) ` {..<page_count (mm_pages m * FRAME_SIZE)}"

definition grants_ok :: "'a Process \<Rightarrow> bool" where
  "grants_ok p \<longleftrightarrow> distinct (map mm_va (flatten (pr_memory_mappings p)))"

definition space_accounted ::
    "MockAddressSpace AddressSpace \<Rightarrow> BumpFrameAllocator Phys \<Rightarrow> PhysFrame multiset \<Rightarrow> bool" where
  "space_accounted sp ph M \<longleftrightarrow> mock_arch_ok (as_arch sp) \<and> table_ok sp \<and>
     (\<forall>va. ma_mappings (as_arch sp) va \<noteq> None \<longrightarrow> va \<in> set (space_pages sp)) \<and>
     bump_accounted (ph_alloc ph) (resident (ma_mappings (as_arch sp)) (mset (space_pages sp)) + M)"

lemma space_accounted_iff: "bump_as.space_ok sp ph M \<longleftrightarrow> space_accounted sp ph M"
  by (simp add: bump_as.space_ok_def space_accounted_def)

lemma find_exact_iff:
  "AddressSpace_find_exact sp base len \<noteq> None \<longleftrightarrow> (\<exists>m \<in> set (flatten (as_mappings sp)). mp_base m = base \<and> mp_len m = len)"
  unfolding AddressSpace_find_exact_def position_None_iff by (auto simp: set_flatten split: option.splits)

context arch_space
begin

lemma vm_unmap_pages:
  assumes "arch_ok (as_arch sp)" "is_aligned va FRAME_SIZE"
  shows "arch_ok (as_arch (snd (vm_unmap A sp va)))" "pages (as_arch (snd (vm_unmap A sp va))) = without {va} (pages (as_arch sp))"
    and "same_table sp (snd (vm_unmap A sp va))"
proof -
  obtain u sp1 where u: "vm_unmap A sp va = (u, sp1)" by fastforce
  note U = vm_unmap_law [OF assms u]
  show "arch_ok (as_arch (snd (vm_unmap A sp va)))" "same_table sp (snd (vm_unmap A sp va))" using U(1,3) by (simp_all add: u)
  show "pages (as_arch (snd (vm_unmap A sp va))) = without {va} (pages (as_arch sp))"
    using U(4) by (cases u) (auto simp: u without_def)
qed

lemma unmap_pages_loop_pages:
  "arch_ok (as_arch sp) \<Longrightarrow> \<forall>va \<in> set vas. is_aligned va FRAME_SIZE \<Longrightarrow>
   arch_ok (as_arch (unmap_pages_loop A sp vas)) \<and>
   pages (as_arch (unmap_pages_loop A sp vas)) = without (set vas) (pages (as_arch sp)) \<and> same_table sp (unmap_pages_loop A sp vas)"
proof (induction vas arbitrary: sp)
  case (Cons va vas)
  have al: "is_aligned va FRAME_SIZE" using Cons.prems(2) by simp
  note V = vm_unmap_pages [OF Cons.prems(1) al]
  from Cons.IH [OF V(1)] Cons.prems(2) V(2) same_table_trans [OF V(3)] show ?case by simp
qed simp

lemma unmap_device_page_pages:
  assumes "arch_ok (as_arch sp)" "is_aligned va FRAME_SIZE"
  shows "arch_ok (as_arch (snd (AddressSpace_unmap_device_page A sp va))) \<and>
    pages (as_arch (snd (AddressSpace_unmap_device_page A sp va))) = without {va} (pages (as_arch sp)) \<and>
    same_table sp (snd (AddressSpace_unmap_device_page A sp va))"
proof -
  obtain u sp1 where u: "vm_unmap A sp va = (u, sp1)" by fastforce
  from vm_unmap_pages [OF assms] u show ?thesis
    by (cases u) (simp_all add: AddressSpace_unmap_device_page_def AddressSpace_shoot_down_def same_table_def)
qed

lemma unmap_device_pages_pages:
  assumes "arch_ok (as_arch sp)" "is_aligned va FRAME_SIZE"
  shows "arch_ok (as_arch (AddressSpace_unmap_device_pages A sp va n)) \<and>
    pages (as_arch (AddressSpace_unmap_device_pages A sp va n)) = without (page_at va ` {..<n}) (pages (as_arch sp)) \<and>
    same_table sp (AddressSpace_unmap_device_pages A sp va n)"
proof -
  have "\<forall>x \<in> set (map (page_at va) [0..<n]). is_aligned x FRAME_SIZE" using page_at_aligned [OF assms(2)] by auto
  from unmap_pages_loop_pages [OF assms(1) this] show ?thesis
    by (simp add: AddressSpace_unmap_device_pages_def AddressSpace_shoot_down_def same_table_def lessThan_atLeast0)
qed

lemma revoke_windows_pages:
  "arch_ok (as_arch sp) \<Longrightarrow> \<forall>w \<in> set ws. window_ok w \<Longrightarrow>
   arch_ok (as_arch (revoke_windows A sp ws)) \<and>
   pages (as_arch (revoke_windows A sp ws)) = without (\<Union>w \<in> set ws. window_vas w) (pages (as_arch sp)) \<and>
   same_table sp (revoke_windows A sp ws)"
proof (induction ws arbitrary: sp)
  case (Cons w ws)
  have al: "is_aligned (dw_va w) FRAME_SIZE" "0 < dw_pages w" using Cons.prems(2) by (simp_all add: window_ok_def)
  define sp1 where "sp1 = snd (AddressSpace_unmap_device_page A sp (dw_va w))"
  define sp2 where "sp2 = AddressSpace_unmap_device_pages A sp1 (dw_va w + FRAME_SIZE) (unat (dw_pages w - 1))"
  have al2: "is_aligned (dw_va w + FRAME_SIZE) FRAME_SIZE" using page_at_aligned [OF al(1), of 1] by (simp add: page_at_def)
  have one: "arch_ok (as_arch sp1)" "pages (as_arch sp1) = without {dw_va w} (pages (as_arch sp))" "same_table sp sp1"
    using unmap_device_page_pages [OF Cons.prems(1) al(1)] by (simp_all add: sp1_def)
  have two: "arch_ok (as_arch sp2)" "same_table sp1 sp2"
      "pages (as_arch sp2) = without (page_at (dw_va w + FRAME_SIZE) ` {..<unat (dw_pages w - 1)}) (pages (as_arch sp1))"
    using unmap_device_pages_pages [OF one(1) al2] by (simp_all add: sp2_def)
  have pg: "pages (as_arch sp2) = without (window_vas w) (pages (as_arch sp))"
    unfolding two(3) one(2) window_vas_split [OF al(2)] by (simp add: Un_commute)
  have r: "revoke_windows A sp (w # ws) = revoke_windows A sp2 ws" by (simp add: sp1_def sp2_def Let_def)
  have "\<forall>w \<in> set ws. window_ok w" using Cons.prems(2) by simp
  from Cons.IH [OF two(1) this] same_table_trans [OF same_table_trans [OF one(3) two(2)]] show ?case
    unfolding r pg by (simp add: Un_commute)
qed simp

lemma revoke_device_windows_spec:
  assumes "arch_ok (as_arch (pr_space p))" "\<forall>w \<in> set (flatten (pr_device_windows p)). window_ok w"
    "Process_revoke_device_windows_unless_held A p object = (departed, p')"
  shows "(departed \<longleftrightarrow> \<not> HandleTable_holds (pr_handles p) object) \<and>
    (if departed
     then flatten (pr_device_windows p') = filter (\<lambda>w. dw_object w \<noteq> object) (flatten (pr_device_windows p)) \<and>
       pages (as_arch (pr_space p')) =
         without (\<Union>w \<in> {w \<in> set (flatten (pr_device_windows p)). dw_object w = object}. window_vas w) (pages (as_arch (pr_space p))) \<and>
       same_table (pr_space p) (pr_space p') \<and> pr_handles p' = pr_handles p
     else p' = p)"
proof (cases "HandleTable_holds (pr_handles p) object")
  case True
  with assms(3) show ?thesis by (simp add: Process_revoke_device_windows_unless_held_def)
next
  case False
  let ?ws = "filter (\<lambda>w. dw_object w = object) (flatten (pr_device_windows p))"
  have fl: "flatten (map Some xs) = xs" for xs :: "DeviceWindow list" by (induction xs) auto
  have fm: "flatten (map (\<lambda>s. case s of Some w \<Rightarrow> if dw_object w = object then None else s | None \<Rightarrow> None) ss) =
      filter (\<lambda>w. dw_object w \<noteq> object) (flatten ss)" for ss
  proof (induction ss)
    case (Cons s ss)
    then show ?case by (cases s) auto
  qed simp
  have r: "departed" "p' = p\<lparr>pr_device_windows := map (\<lambda>s. case s of Some w \<Rightarrow> if dw_object w = object then None else s | None \<Rightarrow> None)
      (pr_device_windows p), pr_space := revoke_windows A (pr_space p) ?ws\<rparr>"
    using assms(3) False by (auto simp: Process_revoke_device_windows_unless_held_def take_device_windows_spec fl)
  have "\<forall>w \<in> set ?ws. window_ok w" using assms(2) by simp
  from revoke_windows_pages [OF assms(1) this] r False show ?thesis by (simp add: fm)
qed

text \<open>Reclaiming an exact range: the mapping's slot and its pages go, nothing else does.\<close>

lemma reclaim_range_spec:
  assumes ok: "space_ok sp ph M" and ex: "AddressSpace_find_exact sp base len \<noteq> None"
    and r: "AddressSpace_reclaim_range A F sp base len ph = (r, sp', ph')"
  shows "r = Ok ()" and "space_ok sp' ph' M"
    and "pages (as_arch sp') = without (page_at base ` {..<page_count len}) (pages (as_arch sp))"
    and "mp_base m \<noteq> base \<Longrightarrow> m \<in> set (flatten (as_mappings sp')) \<longleftrightarrow> m \<in> set (flatten (as_mappings sp))"
proof -
  show "space_ok sp' ph' M" by (rule reclaim_range_ok [OF ok r])
  obtain idx where idx: "AddressSpace_find_exact sp base len = Some idx" using ex by blast
  obtain m0 where m0: "idx < length (as_mappings sp)" "as_mappings sp ! idx = Some m0" "mp_base m0 = base" "mp_len m0 = len"
    using find_exact_SomeD [OF idx] by blast
  obtain n sp1 ph1 where u: "AddressSpace_unmap_and_free A F sp base (page_count len) ph = (n, sp1, ph1)" by (metis prod_cases3)
  show "r = Ok ()" using r idx u by (simp add: AddressSpace_reclaim_range_def)
  have "m0 \<in> set (flatten (as_mappings sp))" using nth_in_flatten [OF m0(1,2)] .
  then have mk: "mapping_ok m0" using space_okD(2) [OF ok] by (simp add: table_ok_def)
  let ?vas = "map (page_at base) [0..<page_count len]"
  let ?sp0 = "sp\<lparr>as_mappings := (as_mappings sp)[idx := None], as_mapping_count := as_mapping_count sp - 1\<rparr>"
  have vas: "?vas = mapping_pages m0" using m0(3,4) by (simp add: mapping_pages_def)
  have al: "\<forall>va \<in> set ?vas. is_aligned va FRAME_SIZE" using mk m0(3) by (auto simp: mapping_ok_def intro: page_at_aligned)
  have c: "mset (space_pages sp) = mset (mapping_pages m0) + mset (space_pages ?sp0)"
    using clear_table(2) [OF space_okD(2) [OF ok] m0(1,2), of ?sp0] by simp
  have "frames_ok (ph_alloc ph) (mset ([] @ page_frames (pages (as_arch sp)) ?vas) +
      (resident (pages (as_arch sp)) (mset (space_pages ?sp0)) + M) + tables (as_arch sp))"
    unfolding append_Nil mset_page_frames vas using space_okD(4) [OF ok] unfolding c by (simp add: ac_simps)
  note U = unmap_free_loop_spec [OF space_okD(1) [OF ok] al distinct_range this u [unfolded AddressSpace_unmap_and_free_def]]
  have e: "as_arch sp' = as_arch sp1" "as_mappings sp' = (as_mappings sp)[idx := None]"
    using r idx u U by (auto simp: AddressSpace_reclaim_range_def same_table_def)
  show "pages (as_arch sp') = without (page_at base ` {..<page_count len}) (pages (as_arch sp))"
    using U by (simp add: e(1) without_def lessThan_atLeast0)
  show "m \<in> set (flatten (as_mappings sp')) \<longleftrightarrow> m \<in> set (flatten (as_mappings sp))" if "mp_base m \<noteq> base"
    using arg_cong [OF mset_flatten_clear [OF m0(1,2)], of set_mset] that m0(3) by (auto simp: e(2))
qed

lemma shifted_nth:
  assumes "\<not> P f \<or> j \<noteq> k"
  shows "(if Suc k \<le> j \<and> j < Suc k + length found \<and> P (found ! (j - Suc k)) then y else x) =
    (if k \<le> j \<and> j < k + length (f # found) \<and> P ((f # found) ! (j - k)) then y else x)"
proof (cases "j \<le> k")
  case False
  then have "j - k = Suc (j - Suc k)" by simp
  with False show ?thesis by auto
qed (use assms in auto)

text \<open>The grants that are taken: those the address space has an exact mapping for.\<close>

abbreviation taken :: "'a AddressSpace \<Rightarrow> MemoryMapping option \<Rightarrow> bool" where
  "taken sp s \<equiv> \<exists>m. s = Some m \<and> exact sp m"

lemma revoke_mappings_spec:
  assumes "space_ok sp ph M" "distinct (map mm_va (flatten found))"
    "revoke_mappings A F sp mms ph (List.enumerate k found) = (mms', sp', ph')"
  shows "space_ok sp' ph' M \<and>
    pages (as_arch sp') = without (\<Union>m \<in> {m \<in> set (flatten found). exact sp m}. grant_vas m) (pages (as_arch sp)) \<and>
    length mms' = length mms \<and>
    (\<forall>j < length mms. mms' ! j = (if k \<le> j \<and> j < k + length found \<and> taken sp (found ! (j - k)) then None else mms ! j)) \<and>
    (\<forall>m. (\<forall>x \<in> set (flatten found). exact sp x \<longrightarrow> mm_va m \<noteq> mm_va x) \<longrightarrow> exact sp' m = exact sp m)"
  using assms
proof (induction found arbitrary: sp mms ph k)
  case (Cons f found)
  show ?case
  proof (cases "taken sp f")
    case False
    have d: "distinct (map mm_va (flatten found))" using Cons.prems(2) by (cases f) simp_all
    have "\<not> exact sp m" if "f = Some m" for m using False that by blast
    then have l: "revoke_mappings A F sp mms ph (List.enumerate (Suc k) found) = (mms', sp', ph')"
      and fl: "{m \<in> set (flatten (f # found)). exact sp m} = {m \<in> set (flatten found). exact sp m}"
      using Cons.prems(3) by (cases f; force simp: exact_def AddressSpace_reclaim_range_def)+
    note I = Cons.IH [OF Cons.prems(1) d l]
    have "mms' ! j = (if k \<le> j \<and> j < k + length (f # found) \<and> taken sp ((f # found) ! (j - k)) then None else mms ! j)"
      if "j < length mms" for j
    proof -
      have "mms' ! j = (if Suc k \<le> j \<and> j < Suc k + length found \<and> taken sp (found ! (j - Suc k)) then None else mms ! j)"
        using I that by blast
      also have "\<dots> = (if k \<le> j \<and> j < k + length (f # found) \<and> taken sp ((f # found) ! (j - k)) then None else mms ! j)"
        by (rule shifted_nth) (use False in blast)
      finally show ?thesis .
    qed
    moreover have "exact sp' m = exact sp m" if "\<forall>x \<in> set (flatten (f # found)). exact sp x \<longrightarrow> mm_va m \<noteq> mm_va x" for m
    proof -
      have "\<forall>x \<in> set (flatten found). exact sp x \<longrightarrow> mm_va m \<noteq> mm_va x" using that fl by blast
      then show ?thesis using I by blast
    qed
    ultimately show ?thesis using I unfolding fl by simp
  next
    case True
    then obtain m where f: "f = Some m" and m: "exact sp m" by blast
    obtain r sp1 ph1 where rr: "AddressSpace_reclaim_range A F sp (mm_va m) (mm_pages m * FRAME_SIZE) ph = (r, sp1, ph1)" by (metis prod_cases3)
    note R = reclaim_range_spec [OF Cons.prems(1) m [unfolded exact_def] rr]
    have keep: "exact sp1 x = exact sp x" if "mm_va x \<noteq> mm_va m" for x
      unfolding exact_def find_exact_iff using R(4) that by metis
    have d: "distinct (map mm_va (flatten found))" "mm_va m \<notin> mm_va ` set (flatten found)" using Cons.prems(2) f by auto
    have ex1: "exact sp1 x = exact sp x" if "x \<in> set (flatten found)" for x
    proof -
      have "mm_va x \<noteq> mm_va m" using d(2) that by (metis imageI)
      then show ?thesis by (rule keep)
    qed
    have l: "revoke_mappings A F sp1 (mms[k := None]) ph1 (List.enumerate (Suc k) found) = (mms', sp', ph')"
      using Cons.prems(3) f rr R(1) by simp
    note I = Cons.IH [OF R(2) d(1) l]
    have tk: "taken sp1 (found ! i) = taken sp (found ! i)" if "i < length found" for i
      using ex1 that nth_in_flatten [OF that] by metis
    have "mms' ! j = (if k \<le> j \<and> j < k + length (f # found) \<and> taken sp ((f # found) ! (j - k)) then None else mms ! j)"
      if "j < length mms" for j
    proof -
      have "mms' ! j = (if Suc k \<le> j \<and> j < Suc k + length found \<and> taken sp1 (found ! (j - Suc k)) then None else mms[k := None] ! j)"
        using I that by simp
      also have "\<dots> = (if Suc k \<le> j \<and> j < Suc k + length found \<and> taken sp (found ! (j - Suc k)) then None else mms[k := None] ! j)"
      proof (cases "Suc k \<le> j \<and> j < Suc k + length found")
        case in_range: True
        then have "j - Suc k < length found" by linarith
        from tk [OF this] show ?thesis by simp
      qed auto
      finally show ?thesis using that shifted_nth [of "taken sp" f j k found None "mms ! j"] True by (cases "j = k") auto
    qed
    moreover have fl: "{x \<in> set (flatten (f # found)). exact sp x} = insert m {x \<in> set (flatten found). exact sp1 x}"
      using f m ex1 by auto
    have "pages (as_arch sp') = without (\<Union>m \<in> {m \<in> set (flatten (f # found)). exact sp m}. grant_vas m) (pages (as_arch sp))"
      using I R(3) unfolding fl by (simp add: grant_vas_def Un_commute)
    moreover have "exact sp' x = exact sp x" if "\<forall>y \<in> set (flatten (f # found)). exact sp y \<longrightarrow> mm_va x \<noteq> mm_va y" for x
    proof -
      have "mm_va x \<noteq> mm_va m" "\<forall>y \<in> set (flatten found). exact sp1 y \<longrightarrow> mm_va x \<noteq> mm_va y"
        using that f m ex1 by auto
      then show ?thesis using I keep by simp
    qed
    ultimately show ?thesis using I by simp
  qed
qed auto

lemma revoke_memory_mappings_spec:
  assumes "space_ok (pr_space p) ph M" "grants_ok p"
    "Process_revoke_memory_mappings_unless_held A F p object ph = (departed, p', ph')"
  shows "(departed \<longleftrightarrow> \<not> HandleTable_holds (pr_handles p) object) \<and> space_ok (pr_space p') ph' M \<and> grants_ok p' \<and>
    (if departed
     then flatten (pr_memory_mappings p') =
         filter (\<lambda>m. mm_object m \<noteq> object \<or> \<not> exact (pr_space p) m) (flatten (pr_memory_mappings p)) \<and>
       (\<forall>m \<in> set (flatten (pr_memory_mappings p')). exact (pr_space p') m = exact (pr_space p) m) \<and>
       pages (as_arch (pr_space p')) =
         without (\<Union>m \<in> {m \<in> set (flatten (pr_memory_mappings p)). mm_object m = object \<and> exact (pr_space p) m}. grant_vas m)
           (pages (as_arch (pr_space p)))
     else p' = p \<and> ph' = ph)"
proof (cases "HandleTable_holds (pr_handles p) object")
  case True
  with assms show ?thesis by (simp add: Process_revoke_memory_mappings_unless_held_def)
next
  case False
  define pick :: "MemoryMapping option \<Rightarrow> MemoryMapping option" where "pick = (\<lambda>s. case s of Some m \<Rightarrow> if mm_object m = object then Some m else None | None \<Rightarrow> None)"
  define found where "found = map pick (pr_memory_mappings p)"
  let ?sp = "pr_space p"
  have fl: "flatten (map pick ss) = filter (\<lambda>m. mm_object m = object) (flatten ss)" for ss
  proof (induction ss)
    case (Cons s ss)
    then show ?case by (cases s) (auto simp: pick_def)
  qed simp
  have fm: "flatten (map (\<lambda>s. if taken ?sp (pick s) then None else s) ss) =
      filter (\<lambda>m. mm_object m \<noteq> object \<or> \<not> exact ?sp m) (flatten ss)" for ss
  proof (induction ss)
    case (Cons s ss)
    then show ?case by (cases s) (auto simp: pick_def)
  qed simp
  obtain mms sp ph1 where l: "revoke_mappings A F ?sp (pr_memory_mappings p) ph (List.enumerate 0 found) = (mms, sp, ph1)"
    by (metis prod_cases3)
  have r: "departed" "p' = p\<lparr>pr_memory_mappings := mms, pr_space := sp\<rparr>" "ph' = ph1"
    using assms(3) False l by (auto simp: Process_revoke_memory_mappings_unless_held_def found_def pick_def Let_def)
  have g: "distinct (map mm_va (flatten (pr_memory_mappings p)))" using assms(2) by (simp add: grants_ok_def)
  have d: "distinct (map mm_va (flatten found))" using g by (simp add: found_def fl distinct_map_filter)
  note S = revoke_mappings_spec [OF assms(1) d l]
  have mms: "mms = map (\<lambda>s. if taken ?sp (pick s) then None else s) (pr_memory_mappings p)"
    using S by (intro nth_equalityI) (simp_all add: found_def)
  have fl': "flatten mms = filter (\<lambda>m. mm_object m \<noteq> object \<or> \<not> exact ?sp m) (flatten (pr_memory_mappings p))"
    unfolding mms by (rule fm)
  have "exact sp m = exact ?sp m" if "m \<in> set (flatten mms)" for m
  proof -
    have m: "m \<in> set (flatten (pr_memory_mappings p))" "mm_object m \<noteq> object \<or> \<not> exact ?sp m" using that by (auto simp: fl')
    have "\<forall>x \<in> set (flatten found). exact ?sp x \<longrightarrow> mm_va m \<noteq> mm_va x"
      using m g by (auto simp: found_def fl distinct_map dest: inj_onD)
    then show ?thesis using S by blast
  qed
  moreover have "grants_ok p'" using g by (simp add: grants_ok_def r fl' distinct_map_filter)
  moreover have "{m \<in> set (flatten found). exact ?sp m} = {m \<in> set (flatten (pr_memory_mappings p)). mm_object m = object \<and> exact ?sp m}"
    by (auto simp: found_def fl)
  ultimately show ?thesis using S r False fl' by simp
qed

end

subsection \<open>The properties\<close>

text \<open>C10: A device's registers are out of reach once its capability is. When the last handle to
  a device leaves a process, every page of every window the process mapped on that device is
  taken out of its page tables and every record of those windows is dropped, while other
  pages, other devices' windows and the mapping table stay as they were; as long as the
  process holds another handle to the device nothing at all changes.\<close>
theorem device_windows_follow_capability:
  assumes "mock_arch_ok (as_arch (pr_space p))"
    and "\<forall>w \<in> set (flatten (pr_device_windows p)). is_aligned (dw_va w) FRAME_SIZE \<and> 0 < dw_pages w"
    and "Process_revoke_device_windows_unless_held (mock_arch :: (MockAddressSpace, BumpFrameAllocator) ArchOps) p object = (departed, p')"
  shows "(departed \<longleftrightarrow> \<not> HandleTable_holds (pr_handles p) object) \<and>
    (if departed
     then flatten (pr_device_windows p') = filter (\<lambda>w. dw_object w \<noteq> object) (flatten (pr_device_windows p)) \<and>
       (\<forall>va. ma_mappings (as_arch (pr_space p')) va =
         (if \<exists>w \<in> set (flatten (pr_device_windows p)). dw_object w = object \<and> va \<in> window_vas w then None
          else ma_mappings (as_arch (pr_space p)) va)) \<and>
       as_mappings (pr_space p') = as_mappings (pr_space p) \<and> pr_handles p' = pr_handles p
     else p' = p)"
proof -
  have "\<forall>w \<in> set (flatten (pr_device_windows p)). window_ok w" using assms(2) by (simp add: window_ok_def)
  from bump_as.revoke_device_windows_spec [OF assms(1) this assms(3)] show ?thesis
    by (auto simp: without_def same_table_def)
qed

definition sample_proc_cfg :: ProcessConfig where
  "sample_proc_cfg = \<lparr> MAX_THREADS_PER_PROCESS = 2, MAX_DEVICE_WINDOWS = 2, MAX_MEMORY_MAPPINGS = 2, MAX_HANDLES = 4 \<rparr>"

definition sample_driver :: "MockAddressSpace Process" where
  "sample_driver =
     (case AddressSpace_map_device_page mock_arch sample_space 0x800000 0x9000000 ReachUser sample_phys of
        (_, sp1, ph1) \<Rightarrow>
          (case AddressSpace_map_device_page mock_arch sp1 0x801000 0x9001000 ReachUser ph1 of
             (_, sp2, _) \<Rightarrow>
               snd (Process_record_device_window (Process_new sample_proc_cfg (ObjectId 3) sp2) (ObjectId 5) 0x800000 2)))"

lemma map_device_page_ok:
  "mock_arch_ok (as_arch sp) \<Longrightarrow> is_aligned f FRAME_SIZE \<Longrightarrow> AddressSpace_map_device_page mock_arch sp va f reach ph = (r, sp', ph') \<Longrightarrow>
   mock_arch_ok (as_arch sp')"
  by (auto simp: AddressSpace_map_device_page_def vm_map_def mock_arch_defs split: if_splits prod.splits)

theorem device_windows_follow_capability_witness:
  "case Process_revoke_device_windows_unless_held (mock_arch :: (MockAddressSpace, BumpFrameAllocator) ArchOps) sample_driver (ObjectId 5) of
     (departed, p') \<Rightarrow> departed \<and> ma_mappings (as_arch (pr_space sample_driver)) 0x801000 \<noteq> None \<and>
       ma_mappings (as_arch (pr_space p')) 0x801000 = None"
proof -
  let ?A = "mock_arch :: (MockAddressSpace, BumpFrameAllocator) ArchOps"
  obtain departed p' where r: "Process_revoke_device_windows_unless_held ?A sample_driver (ObjectId 5) = (departed, p')" by fastforce
  obtain r1 sp1 ph1 where s1: "AddressSpace_map_device_page ?A sample_space 0x800000 0x9000000 ReachUser sample_phys = (r1, sp1, ph1)"
    by (metis prod_cases3)
  obtain r2 sp2 ph2 where s2: "AddressSpace_map_device_page ?A sp1 0x801000 0x9001000 ReachUser ph1 = (r2, sp2, ph2)" by (metis prod_cases3)
  have "mock_arch_ok (as_arch sample_space)" using mock_arch_new by (simp add: sample_space_def AddressSpace_from_arch_def)
  moreover have al: "is_aligned (0x9000000 :: 64 word) FRAME_SIZE" "is_aligned (0x9001000 :: 64 word) FRAME_SIZE"
    "is_aligned (0x800000 :: 64 word) FRAME_SIZE" by code_simp+
  ultimately have "mock_arch_ok (as_arch sp2)" using map_device_page_ok [OF map_device_page_ok [OF _ _ s1] _ s2] by blast
  then have ok: "mock_arch_ok (as_arch (pr_space sample_driver))"
    using s1 s2 by (simp add: sample_driver_def Process_record_device_window_def Process_new_def split: option.split)
  have ws: "flatten (pr_device_windows sample_driver) = [\<lparr>dw_object = ObjectId 5, dw_va = 0x800000, dw_pages = 2\<rparr>]" by code_simp
  have c: "\<not> HandleTable_holds (pr_handles sample_driver) (ObjectId 5)" "ma_mappings (as_arch (pr_space sample_driver)) 0x801000 \<noteq> None"
    by code_simp+
  have "unat (2 :: 64 word) = 2" "0x801000 = page_at 0x800000 1" by code_simp+
  then have "0x801000 \<in> window_vas \<lparr>dw_object = ObjectId 5, dw_va = 0x800000, dw_pages = 2\<rparr>" by (simp add: window_vas_def)
  moreover have "\<forall>w \<in> set (flatten (pr_device_windows sample_driver)). is_aligned (dw_va w) FRAME_SIZE \<and> 0 < dw_pages w"
    unfolding ws using al(3) by simp
  from device_windows_follow_capability [OF ok this r] have "departed"
      "ma_mappings (as_arch (pr_space p')) 0x801000 = (if \<exists>w \<in> set (flatten (pr_device_windows sample_driver)).
        dw_object w = ObjectId 5 \<and> 0x801000 \<in> window_vas w then None else ma_mappings (as_arch (pr_space sample_driver)) 0x801000)"
    using c(1) by simp_all
  ultimately show ?thesis using c(2) unfolding r ws by simp
qed

text \<open>C11: Shared memory is out of reach once its capability is, and its frames go back. Let
  the records of a process's memory grants be at distinct addresses, and every resident page
  of its space lie in a mapping of its table and be on a frame the allocator counts (so no
  device page is inside a mapping). When the last handle to a memory object leaves the
  process, every range of that object which the table has a mapping of exactly that base and
  length for is unmapped page by page, its record goes with it, and the references the
  mapping held are returned, so the frames the process holds are again exactly those of its
  resident pages. A record with no such mapping is refused by the reclaim and is kept, its
  pages with it, so that if there is none the process no longer maps the object. All other
  grants keep their records, mappings and pages. As long as another handle is held nothing
  changes.\<close>
theorem memory_grants_follow_capability:
  assumes "space_accounted (pr_space p) ph M" "grants_ok p"
    and "Process_revoke_memory_mappings_unless_held mock_arch bump_frames p object ph = (departed, p', ph')"
  shows "(departed \<longleftrightarrow> \<not> HandleTable_holds (pr_handles p) object) \<and>
    space_accounted (pr_space p') ph' M \<and> grants_ok p' \<and>
    (if departed
     then flatten (pr_memory_mappings p') =
         filter (\<lambda>m. mm_object m \<noteq> object \<or> \<not> exact (pr_space p) m) (flatten (pr_memory_mappings p)) \<and>
       (\<forall>m \<in> set (flatten (pr_memory_mappings p')). exact (pr_space p') m = exact (pr_space p) m) \<and>
       (\<forall>va. ma_mappings (as_arch (pr_space p')) va =
         (if \<exists>m \<in> set (flatten (pr_memory_mappings p)). mm_object m = object \<and> exact (pr_space p) m \<and> va \<in> grant_vas m
          then None else ma_mappings (as_arch (pr_space p)) va)) \<and>
       (Process_maps_object p' object \<longleftrightarrow>
         (\<exists>m \<in> set (flatten (pr_memory_mappings p)). mm_object m = object \<and> \<not> exact (pr_space p) m))
     else p' = p \<and> ph' = ph)"
  using bump_as.revoke_memory_mappings_spec [unfolded space_accounted_iff, OF assms]
  by (auto simp: without_def Process_maps_object_def list_ex_iff)

definition sample_holder :: "MockAddressSpace Process \<times> BumpFrameAllocator Phys" where
  "sample_holder =
     (case AddressSpace_map_anonymous mock_arch bump_frames sample_space 0x400000 0x2000 (PageFlags_user PageFlags_rw) sample_phys of
        (_, sp, ph) \<Rightarrow> (snd (Process_record_memory_mapping (Process_new sample_proc_cfg (ObjectId 3) sp) (ObjectId 6) 0x400000 2), ph))"

theorem memory_grants_follow_capability_witness:
  "case sample_holder of (p, ph) \<Rightarrow>
     (case Process_revoke_memory_mappings_unless_held mock_arch bump_frames p (ObjectId 6) ph of
        (departed, p', ph') \<Rightarrow> departed \<and> ma_mappings (as_arch (pr_space p)) 0x401000 \<noteq> None \<and>
          ma_mappings (as_arch (pr_space p')) 0x401000 = None \<and> space_accounted (pr_space p') ph' {#})"
proof -
  obtain p ph where h: "sample_holder = (p, ph)" by fastforce
  obtain departed p' ph' where r: "Process_revoke_memory_mappings_unless_held mock_arch bump_frames p (ObjectId 6) ph = (departed, p', ph')"
    by (metis prod_cases3)
  obtain q sp ph1 where m: "AddressSpace_map_anonymous mock_arch bump_frames sample_space 0x400000 0x2000 (PageFlags_user PageFlags_rw) sample_phys
      = (q, sp, ph1)" by (metis prod_cases3)
  have "map_ok sample_boot_map" using normalize_sound [OF sample_boot_map_normalized] by blast
  then have "bump_accounted (ph_alloc sample_phys) ({#} + {#})" using BumpFrameAllocator_new_accounted by (simp add: sample_phys_def)
  then have "bump_as.space_ok sample_space sample_phys {#}"
    unfolding sample_space_def by (rule bump_as.from_arch_ok [OF mock_arch_new, rotated]) (simp add: MockAddressSpace_new_def)
  from bump_as.map_anonymous_ok [OF this _ m] have "bump_as.space_ok sp ph1 {#}" by simp
  moreover have "pr_space p = sp" "ph = ph1"
    using h m by (auto simp: sample_holder_def Process_record_memory_mapping_def Process_new_def split: option.splits)
  ultimately have ok: "space_accounted (pr_space p) ph {#}" by (simp add: space_accounted_iff)
  have e: "flatten (pr_memory_mappings (fst sample_holder)) = [\<lparr>mm_object = ObjectId 6, mm_va = 0x400000, mm_pages = 2\<rparr>]"
    "AddressSpace_find_exact (pr_space (fst sample_holder)) 0x400000 0x2000 = Some 0"
    "\<not> HandleTable_holds (pr_handles (fst sample_holder)) (ObjectId 6)"
    "ma_mappings (as_arch (pr_space (fst sample_holder))) 0x401000 \<noteq> None" by code_simp+
  have g: "grants_ok p" "exact (pr_space p) \<lparr>mm_object = ObjectId 6, mm_va = 0x400000, mm_pages = 2\<rparr>"
    using e(1,2) unfolding h fst_conv by (simp_all add: grants_ok_def exact_def FRAME_SIZE_def)
  have "page_count (2 * FRAME_SIZE) = 2" "0x401000 = page_at 0x400000 1" by code_simp+
  then have "0x401000 \<in> grant_vas \<lparr>mm_object = ObjectId 6, mm_va = 0x400000, mm_pages = 2\<rparr>" by (simp add: grant_vas_def)
  with memory_grants_follow_capability [OF ok g(1) r] e g(2) show ?thesis unfolding h fst_conv by (simp add: r)
qed

end
