(* ===== verification/Pager.thy ===== *)
theory Pager
  imports Keyed
begin

text \<open>
  The page cache of one pager-backed object and the guards of the paging failure model,
  \<^verbatim>\<open>kcore/src/pager.rs\<close>: resident and dirty pages with a dirty ceiling, the write-back
  window, the write-back reservation, the self-paging graph and the deadline supervisor.
  The capacities \<^verbatim>\<open>MAX_CACHED_PAGES\<close> and \<^verbatim>\<open>MAX_PAGERS\<close> are the lengths of the arrays.

  The main results: a cache driven by the write-back protocol never loses a store, the
  bounded walk over the waits-for edges decides reachability and keeps the graph acyclic,
  and the reservation always leaves the write-back path its frames.
\<close>

subsection \<open>The page cache of one object\<close>

datatype DirtyOutcome = Marked | Throttle

datatype WriteBack = Idle | InFlight | Redirtied

record PageEntry =
  pg_offset :: "64 word"
  pg_dirty :: bool
  pg_write_back :: WriteBack

record ObjectCache =
  oc_pages :: "PageEntry option list"
  oc_dirty_limit :: "32 word"
  oc_faulted :: bool

definition ObjectCache_new :: "nat \<Rightarrow> 32 word \<Rightarrow> ObjectCache" where
  "ObjectCache_new max_cached dirty_limit =
     \<lparr> oc_pages = replicate max_cached None, oc_dirty_limit = dirty_limit, oc_faulted = False \<rparr>"

definition ObjectCache_find :: "ObjectCache \<Rightarrow> 64 word \<Rightarrow> nat option" where
  "ObjectCache_find c offset = 
     position (\<lambda>p. case p of Some e \<Rightarrow> pg_offset e = offset | None \<Rightarrow> False) (oc_pages c)"

definition ObjectCache_dirty_count :: "ObjectCache \<Rightarrow> 32 word" where
  "ObjectCache_dirty_count c = of_nat (length (filter pg_dirty (flatten (oc_pages c))))"

definition ObjectCache_resident_count :: "ObjectCache \<Rightarrow> nat" where
  "ObjectCache_resident_count c = length (flatten (oc_pages c))"

definition ObjectCache_is_resident :: "ObjectCache \<Rightarrow> 64 word \<Rightarrow> bool" where
  "ObjectCache_is_resident c offset \<longleftrightarrow> ObjectCache_find c offset \<noteq> None"

definition ObjectCache_is_dirty :: "ObjectCache \<Rightarrow> 64 word \<Rightarrow> bool" where
  "ObjectCache_is_dirty c offset =
     (case Option.bind (ObjectCache_find c offset) (\<lambda>i. oc_pages c ! i) of
        Some p \<Rightarrow> pg_dirty p | None \<Rightarrow> False)"

definition ObjectCache_install :: "ObjectCache \<Rightarrow> 64 word \<Rightarrow> unit res \<times> ObjectCache" where
  "ObjectCache_install c offset =
     (if oc_faulted c then (Err BadHandle, c)
      else if ObjectCache_find c offset \<noteq> None then (Ok (), c)
      else case free_slot (oc_pages c) of
        None \<Rightarrow> (Err OutOfMemory, c)
      | Some slot \<Rightarrow>
          (Ok (), c\<lparr>oc_pages := (oc_pages c)[slot :=
             Some \<lparr>pg_offset = offset, pg_dirty = False, pg_write_back = Idle\<rparr>]\<rparr>))"

definition ObjectCache_mark_dirty :: "ObjectCache \<Rightarrow> 64 word \<Rightarrow> DirtyOutcome \<times> ObjectCache" where
  "ObjectCache_mark_dirty c offset =
     (case ObjectCache_find c offset of
        None \<Rightarrow> (Throttle, c)
      | Some idx \<Rightarrow>
          let already_dirty = (case oc_pages c ! idx of Some p \<Rightarrow> pg_dirty p | None \<Rightarrow> False) in
          if \<not> already_dirty \<and> ObjectCache_dirty_count c \<ge> oc_dirty_limit c then (Throttle, c)
          else case oc_pages c ! idx of
            None \<Rightarrow> (Marked, c)
          | Some page \<Rightarrow>
              (Marked, c\<lparr>oc_pages := (oc_pages c)[idx := Some (page\<lparr>pg_dirty := True,
                 pg_write_back := (if pg_write_back page = InFlight then Redirtied else pg_write_back page)\<rparr>)]\<rparr>))"

definition ObjectCache_begin_write_back :: "ObjectCache \<Rightarrow> 64 word \<Rightarrow> ObjectCache" where
  "ObjectCache_begin_write_back c offset =
     (case ObjectCache_find c offset of
        None \<Rightarrow> c
      | Some idx \<Rightarrow>
          (case oc_pages c ! idx of
             None \<Rightarrow> c
           | Some page \<Rightarrow>
               if pg_write_back page = Idle
               then c\<lparr>oc_pages := (oc_pages c)[idx := Some (page\<lparr>pg_write_back := InFlight\<rparr>)]\<rparr>
               else c))"

definition ObjectCache_end_write_back :: "ObjectCache \<Rightarrow> 64 word \<Rightarrow> bool \<times> ObjectCache" where
  "ObjectCache_end_write_back c offset =
     (case ObjectCache_find c offset of
        None \<Rightarrow> (False, c)
      | Some idx \<Rightarrow>
          (case oc_pages c ! idx of
             Some page \<Rightarrow>
               (pg_write_back page = Redirtied,
                c\<lparr>oc_pages := (oc_pages c)[idx := Some (page\<lparr>pg_write_back := Idle\<rparr>)]\<rparr>)
           | None \<Rightarrow> (False, c)))"

definition ObjectCache_mark_clean :: "ObjectCache \<Rightarrow> 64 word \<Rightarrow> ObjectCache" where
  "ObjectCache_mark_clean c offset =
     (case ObjectCache_find c offset of
        None \<Rightarrow> c
      | Some idx \<Rightarrow>
          (case oc_pages c ! idx of
             None \<Rightarrow> c
           | Some page \<Rightarrow> c\<lparr>oc_pages := (oc_pages c)[idx := Some (page\<lparr>pg_dirty := False\<rparr>)]\<rparr>))"

fun min_opt :: "64 word list \<Rightarrow> 64 word option" where
  "min_opt [] = None"
| "min_opt (x # xs) = Some (fold min xs x)"

definition ObjectCache_evict_candidate :: "ObjectCache \<Rightarrow> 64 word option" where
  "ObjectCache_evict_candidate c =
     min_opt (map pg_offset (filter (\<lambda>p. \<not> pg_dirty p) (flatten (oc_pages c))))"

definition ObjectCache_forget :: "ObjectCache \<Rightarrow> 64 word \<Rightarrow> ObjectCache" where
  "ObjectCache_forget c offset =
     (case ObjectCache_find c offset of
        Some idx \<Rightarrow> c\<lparr>oc_pages := (oc_pages c)[idx := None]\<rparr>
      | None \<Rightarrow> c)"

definition ObjectCache_dirty_offsets :: "ObjectCache \<Rightarrow> 64 word list \<Rightarrow> nat \<times> 64 word list" where
  "ObjectCache_dirty_offsets c out =
     (let found = take (length out) (map pg_offset (filter pg_dirty (flatten (oc_pages c))));
          n = length found
      in (n, sort found @ drop n out))"

definition ObjectCache_fault :: "ObjectCache \<Rightarrow> 64 word list \<Rightarrow> (nat \<times> 64 word list) \<times> ObjectCache" where
  "ObjectCache_fault c out =
     (ObjectCache_dirty_offsets c out,
      c\<lparr>oc_pages := replicate (length (oc_pages c)) None, oc_faulted := True\<rparr>)"

definition ObjectCache_is_faulted :: "ObjectCache \<Rightarrow> bool" where
  "ObjectCache_is_faulted c = oc_faulted c"

subsection \<open>The write-back reservation\<close>

record WriteBackReservation =
  wr_capacity :: "32 word"
  wr_reserved :: "32 word"
  wr_ordinary_in_use :: "32 word"
  wr_writeback_in_use :: "32 word"

definition WriteBackReservation_new :: "32 word \<Rightarrow> 32 word \<Rightarrow> WriteBackReservation" where
  "WriteBackReservation_new capacity reserved =
     \<lparr> wr_capacity = capacity, wr_reserved = (if reserved > capacity then capacity else reserved),
       wr_ordinary_in_use = 0, wr_writeback_in_use = 0 \<rparr>"

definition WriteBackReservation_alloc_ordinary :: "WriteBackReservation \<Rightarrow> unit option \<times> WriteBackReservation" where
  "WriteBackReservation_alloc_ordinary r =
     (if wr_ordinary_in_use r < saturating_sub (wr_capacity r) (wr_reserved r)
      then (Some (), r\<lparr>wr_ordinary_in_use := wr_ordinary_in_use r + 1\<rparr>)
      else (None, r))"

definition WriteBackReservation_free_ordinary :: "WriteBackReservation \<Rightarrow> WriteBackReservation" where
  "WriteBackReservation_free_ordinary r = r\<lparr>wr_ordinary_in_use := saturating_sub (wr_ordinary_in_use r) 1\<rparr>"

definition WriteBackReservation_alloc_writeback :: "WriteBackReservation \<Rightarrow> unit option \<times> WriteBackReservation" where
  "WriteBackReservation_alloc_writeback r =
     (if wr_writeback_in_use r < wr_reserved r
      then (Some (), r\<lparr>wr_writeback_in_use := wr_writeback_in_use r + 1\<rparr>)
      else (None, r))"

definition WriteBackReservation_free_writeback :: "WriteBackReservation \<Rightarrow> WriteBackReservation" where
  "WriteBackReservation_free_writeback r = r\<lparr>wr_writeback_in_use := saturating_sub (wr_writeback_in_use r) 1\<rparr>"

definition WriteBackReservation_at_pressure :: "WriteBackReservation \<Rightarrow> bool" where
  "WriteBackReservation_at_pressure r \<longleftrightarrow>
     wr_ordinary_in_use r \<ge> saturating_sub (wr_capacity r) (wr_reserved r)"

subsection \<open>The self-paging graph\<close>

datatype PageInResult = Served | Cycle

record SelfPagingGraph =
  sp_bindings :: "(64 word \<times> 32 word) list"
  sp_binding_count :: nat
  sp_waits :: "(32 word \<times> 32 word) list"
  sp_wait_count :: nat

definition SelfPagingGraph_new :: "nat \<Rightarrow> SelfPagingGraph" where
  "SelfPagingGraph_new max_pagers =
     \<lparr> sp_bindings = replicate max_pagers (0, 0), sp_binding_count = 0,
       sp_waits = replicate max_pagers (0, 0), sp_wait_count = 0 \<rparr>"

abbreviation bindings_of :: "SelfPagingGraph \<Rightarrow> (64 word \<times> 32 word) list" where
  "bindings_of g \<equiv> take (sp_binding_count g) (sp_bindings g)"

abbreviation waits_of :: "SelfPagingGraph \<Rightarrow> (32 word \<times> 32 word) list" where
  "waits_of g \<equiv> take (sp_wait_count g) (sp_waits g)"

definition SelfPagingGraph_bind :: "SelfPagingGraph \<Rightarrow> 64 word \<Rightarrow> 32 word \<Rightarrow> unit res \<times> SelfPagingGraph" where
  "SelfPagingGraph_bind g object pager =
     (case position (\<lambda>b. fst b = object) (bindings_of g) of
        Some slot \<Rightarrow> (Ok (), g\<lparr>sp_bindings := (sp_bindings g)[slot := (object, pager)]\<rparr>)
      | None \<Rightarrow>
          if sp_binding_count g \<ge> length (sp_bindings g) then (Err OutOfMemory, g)
          else (Ok (), g\<lparr>sp_bindings := (sp_bindings g)[sp_binding_count g := (object, pager)],
                         sp_binding_count := sp_binding_count g + 1\<rparr>))"

definition SelfPagingGraph_unbind :: "SelfPagingGraph \<Rightarrow> 64 word \<Rightarrow> bool \<times> SelfPagingGraph" where
  "SelfPagingGraph_unbind g object =
     (case position (\<lambda>b. fst b = object) (bindings_of g) of
        None \<Rightarrow> (False, g)
      | Some slot \<Rightarrow>
          let n = sp_binding_count g - 1 in
          (True, g\<lparr>sp_binding_count := n,
                   sp_bindings := (sp_bindings g)[slot := sp_bindings g ! n, n := (0, 0)]\<rparr>))"

definition SelfPagingGraph_server_of :: "SelfPagingGraph \<Rightarrow> 64 word \<Rightarrow> 32 word option" where
  "SelfPagingGraph_server_of g object = map_option snd (find (\<lambda>b. fst b = object) (bindings_of g))"

fun reaches_loop :: "nat \<Rightarrow> (32 word \<times> 32 word) list \<Rightarrow> 32 word \<Rightarrow> 32 word \<Rightarrow> bool" where
  "reaches_loop 0 edges node target = False"
| "reaches_loop (Suc n) edges node target =
     (case find (\<lambda>e. fst e = node) edges of
        Some (_, nxt) \<Rightarrow> if nxt = target then True else reaches_loop n edges nxt target
      | None \<Rightarrow> False)"

definition SelfPagingGraph_reaches :: "SelfPagingGraph \<Rightarrow> 32 word \<Rightarrow> 32 word \<Rightarrow> bool" where
  "SelfPagingGraph_reaches g start target = reaches_loop (sp_wait_count g + 1) (waits_of g) start target"

definition SelfPagingGraph_request_page_in ::
    "SelfPagingGraph \<Rightarrow> 32 word \<Rightarrow> 64 word \<Rightarrow> PageInResult \<times> SelfPagingGraph" where
  "SelfPagingGraph_request_page_in g requester object =
     (case SelfPagingGraph_server_of g object of
        None \<Rightarrow> (Cycle, g)
      | Some server \<Rightarrow>
          if server = requester \<or> SelfPagingGraph_reaches g server requester then (Cycle, g)
          else if sp_wait_count g < length (sp_waits g)
          then (Served, g\<lparr>sp_waits := (sp_waits g)[sp_wait_count g := (requester, server)],
                          sp_wait_count := sp_wait_count g + 1\<rparr>)
          else (Served, g))"

definition SelfPagingGraph_complete :: "SelfPagingGraph \<Rightarrow> 32 word \<Rightarrow> SelfPagingGraph" where
  "SelfPagingGraph_complete g requester =
     (case position (\<lambda>e. fst e = requester) (waits_of g) of
        None \<Rightarrow> g
      | Some i \<Rightarrow>
          let n = sp_wait_count g - 1 in
          g\<lparr>sp_wait_count := n, sp_waits := (sp_waits g)[i := sp_waits g ! n]\<rparr>)"

definition SelfPagingGraph_in_flight :: "SelfPagingGraph \<Rightarrow> nat" where
  "SelfPagingGraph_in_flight g = sp_wait_count g"

subsection \<open>The page-in deadline supervisor\<close>

datatype DeadlineOutcome = Pending | Expired

datatype MissOutcome = Continue | Escalate

record PageInSupervisor =
  ps_deadline :: "64 word"
  ps_escalate_after :: "32 word"
  ps_misses :: "32 word"
  ps_escalations :: "32 word"

definition PageInSupervisor_new :: "64 word \<Rightarrow> 32 word \<Rightarrow> PageInSupervisor" where
  "PageInSupervisor_new deadline escalate_after =
     \<lparr> ps_deadline = deadline, ps_escalate_after = (if escalate_after = 0 then 1 else escalate_after),
       ps_misses = 0, ps_escalations = 0 \<rparr>"

definition PageInSupervisor_check :: "PageInSupervisor \<Rightarrow> 64 word \<Rightarrow> 64 word \<Rightarrow> DeadlineOutcome" where
  "PageInSupervisor_check s started now =
     (if saturating_sub now started > ps_deadline s then Expired else Pending)"

definition PageInSupervisor_record_miss :: "PageInSupervisor \<Rightarrow> MissOutcome \<times> PageInSupervisor" where
  "PageInSupervisor_record_miss s =
     (let s1 = s\<lparr>ps_misses := ps_misses s + 1\<rparr> in
      if ps_misses s1 mod ps_escalate_after s1 = 0
      then (Escalate, s1\<lparr>ps_escalations := ps_escalations s1 + 1\<rparr>)
      else (Continue, s1))"

subsection \<open>The cache as a partial map from offsets to entries\<close>

definition cache_entry :: "ObjectCache \<Rightarrow> 64 word \<Rightarrow> PageEntry option" where
  "cache_entry c = key_lookup pg_offset (oc_pages c)"

definition cache_wf :: "ObjectCache \<Rightarrow> bool" where
  "cache_wf c \<longleftrightarrow> distinct_keys pg_offset (oc_pages c) \<and> length (oc_pages c) < 2 ^ 32"

abbreviation dirty_pages :: "ObjectCache \<Rightarrow> nat" where
  "dirty_pages c \<equiv> count_where pg_dirty (oc_pages c)"

lemma ObjectCache_find_key: "ObjectCache_find c off = find_key pg_offset (oc_pages c) off"
  by (simp add: ObjectCache_find_def find_key_def)

lemma cache_find_SomeE:
  assumes "ObjectCache_find c off = Some i"
  obtains e where "i < length (oc_pages c)" "oc_pages c ! i = Some e" "pg_offset e = off" "cache_entry c off = Some e"
  by (rule find_key_SomeD [OF assms [unfolded ObjectCache_find_key]]) (auto simp: cache_entry_def intro: that)

lemma cache_find_None [simp]: "ObjectCache_find c off = None \<longleftrightarrow> cache_entry c off = None"
  by (simp add: ObjectCache_find_key cache_entry_def find_key_None_iff)

lemmas cache_absent = cache_find_None [THEN iffD2]

lemma cache_entry_index:
  assumes "cache_entry c off = Some e"
  obtains i where "ObjectCache_find c off = Some i" "i < length (oc_pages c)" "oc_pages c ! i = Some e" "pg_offset e = off"
proof -
  obtain i where i: "ObjectCache_find c off = Some i" using assms by (cases "ObjectCache_find c off") auto
  then obtain e' where e': "i < length (oc_pages c)" "oc_pages c ! i = Some e'" "pg_offset e' = off" "cache_entry c off = Some e'"
    by (rule cache_find_SomeE)
  with assms have "e' = e" by simp
  with e' show ?thesis by (intro that [OF i]) simp_all
qed

lemma is_resident_iff: "ObjectCache_is_resident c off \<longleftrightarrow> cache_entry c off \<noteq> None"
  by (simp add: ObjectCache_is_resident_def)

lemma is_dirty_iff: "ObjectCache_is_dirty c off \<longleftrightarrow> (\<exists>e. cache_entry c off = Some e \<and> pg_dirty e)"
  unfolding ObjectCache_is_dirty_def ObjectCache_find_key cache_entry_def key_lookup_find_key [symmetric]
  by (simp split: option.splits)

lemma dirty_count_unat: "cache_wf c \<Longrightarrow> unat (ObjectCache_dirty_count c) = dirty_pages c"
  using count_where_le [of pg_dirty "oc_pages c"]
  by (simp add: ObjectCache_dirty_count_def cache_wf_def unat_of_nat take_bit_nat_eq_self flip: count_where_def)

lemma cache_store:
  assumes "cache_wf c" "i < length (oc_pages c)" "oc_pages c ! i = Some e" "pg_offset e' = pg_offset e"
  shows "cache_wf (c\<lparr>oc_pages := (oc_pages c)[i := Some e']\<rparr>)"
    and "cache_entry (c\<lparr>oc_pages := (oc_pages c)[i := Some e']\<rparr>) = (cache_entry c)(pg_offset e \<mapsto> e')"
  using assms(1) key_replace(1,2) [OF assms(2,3,4)] by (simp_all add: cache_wf_def cache_entry_def)

lemma install_spec:
  assumes "cache_wf c" "ObjectCache_install c off = (r, c')"
  shows "case r of
      Err _ \<Rightarrow> c' = c
    | Ok _ \<Rightarrow> cache_wf c' \<and> oc_dirty_limit c' = oc_dirty_limit c \<and> dirty_pages c' = dirty_pages c \<and>
        cache_entry c' = (if cache_entry c off = None
          then (cache_entry c)(off \<mapsto> \<lparr>pg_offset = off, pg_dirty = False, pg_write_back = Idle\<rparr>) else cache_entry c)"
proof (cases "oc_faulted c \<or> cache_entry c off \<noteq> None \<or> free_slot (oc_pages c) = None")
  case True
  with assms show ?thesis by (auto simp: ObjectCache_install_def split: if_splits option.splits)
next
  case False
  then obtain i where i: "free_slot (oc_pages c) = Some i" by auto
  let ?e = "\<lparr>pg_offset = off, pg_dirty = False, pg_write_back = Idle\<rparr> :: PageEntry"
  have f: "i < length (oc_pages c)" "oc_pages c ! i = None" using free_slotD [OF i] by auto
  have c': "r = Ok ()" "c' = c\<lparr>oc_pages := (oc_pages c)[i := Some ?e]\<rparr>"
    using assms(2) False i by (auto simp: ObjectCache_install_def)
  have "distinct_keys pg_offset (oc_pages c)" using assms(1) by (simp add: cache_wf_def)
  note k = key_fill [OF f this, of ?e]
  show ?thesis
    using assms(1) False k count_where_fill [OF f, of pg_dirty ?e]
    by (simp add: c' cache_wf_def cache_entry_def)
qed

lemma mark_dirty_spec:
  assumes "cache_wf c" "ObjectCache_mark_dirty c off = (r, c')"
  shows "r = Throttle \<and> c' = c \<and>
           (cache_entry c off = None \<or> \<not> ObjectCache_is_dirty c off \<and> unat (oc_dirty_limit c) \<le> dirty_pages c) \<or>
         r = Marked \<and> cache_wf c' \<and> oc_dirty_limit c' = oc_dirty_limit c \<and>
           (\<exists>e. cache_entry c off = Some e \<and>
              cache_entry c' = (cache_entry c)(off \<mapsto> e\<lparr>pg_dirty := True,
                pg_write_back := (if pg_write_back e = InFlight then Redirtied else pg_write_back e)\<rparr>) \<and>
              dirty_pages c' = dirty_pages c + (if pg_dirty e then 0 else 1) \<and>
              (\<not> pg_dirty e \<longrightarrow> dirty_pages c < unat (oc_dirty_limit c)))"
proof (cases "cache_entry c off")
  case None
  with assms(2) show ?thesis by (simp add: ObjectCache_mark_dirty_def cache_absent)
next
  case (Some e)
  then obtain i where i: "ObjectCache_find c off = Some i" "i < length (oc_pages c)" "oc_pages c ! i = Some e" "pg_offset e = off"
    by (rule cache_entry_index)
  let ?e = "e\<lparr>pg_dirty := True, pg_write_back := (if pg_write_back e = InFlight then Redirtied else pg_write_back e)\<rparr>"
  have d: "oc_dirty_limit c \<le> ObjectCache_dirty_count c \<longleftrightarrow> unat (oc_dirty_limit c) \<le> dirty_pages c"
    using dirty_count_unat [OF assms(1)] by (simp add: word_le_nat_alt)
  show ?thesis
  proof (cases "\<not> pg_dirty e \<and> unat (oc_dirty_limit c) \<le> dirty_pages c")
    case True
    with assms(2) i Some d show ?thesis by (simp add: ObjectCache_mark_dirty_def is_dirty_iff)
  next
    case False
    then have "r = Marked" "c' = c\<lparr>oc_pages := (oc_pages c)[i := Some ?e]\<rparr>"
      using assms(2) i d by (auto simp: ObjectCache_mark_dirty_def Let_def)
    with Some i False cache_store [OF assms(1) i(2,3), of ?e] count_where_replace [OF i(2,3), of pg_dirty ?e]
    show ?thesis by (cases "pg_dirty e") auto
  qed
qed

lemma begin_write_back_spec:
  assumes "cache_wf c" "c' = ObjectCache_begin_write_back c off"
  shows "cache_wf c'" and "oc_dirty_limit c' = oc_dirty_limit c" and "dirty_pages c' = dirty_pages c"
    and "cache_entry c' = (case cache_entry c off of
           Some e \<Rightarrow> (cache_entry c)(off \<mapsto> (if pg_write_back e = Idle then e\<lparr>pg_write_back := InFlight\<rparr> else e))
         | None \<Rightarrow> cache_entry c)"
proof -
  have "cache_wf c' \<and> oc_dirty_limit c' = oc_dirty_limit c \<and> dirty_pages c' = dirty_pages c \<and>
    cache_entry c' = (case cache_entry c off of
           Some e \<Rightarrow> (cache_entry c)(off \<mapsto> (if pg_write_back e = Idle then e\<lparr>pg_write_back := InFlight\<rparr> else e))
         | None \<Rightarrow> cache_entry c)"
  proof (cases "cache_entry c off")
    case (Some e)
    then obtain i where i: "ObjectCache_find c off = Some i" "i < length (oc_pages c)" "oc_pages c ! i = Some e" "pg_offset e = off"
      by (rule cache_entry_index)
    show ?thesis
      using assms Some i cache_store [OF assms(1) i(2,3), of "e\<lparr>pg_write_back := InFlight\<rparr>"]
        count_where_replace [OF i(2,3), of pg_dirty "e\<lparr>pg_write_back := InFlight\<rparr>"]
      by (cases "pg_write_back e = Idle") (auto simp: ObjectCache_begin_write_back_def fun_upd_idem)
  qed (use assms in \<open>simp add: ObjectCache_begin_write_back_def cache_absent\<close>)
  then show "cache_wf c'" "oc_dirty_limit c' = oc_dirty_limit c" "dirty_pages c' = dirty_pages c"
    "cache_entry c' = (case cache_entry c off of
           Some e \<Rightarrow> (cache_entry c)(off \<mapsto> (if pg_write_back e = Idle then e\<lparr>pg_write_back := InFlight\<rparr> else e))
         | None \<Rightarrow> cache_entry c)" by auto
qed

lemma end_write_back_spec:
  assumes "cache_wf c" "cache_entry c off = Some e" "ObjectCache_end_write_back c off = (r, c')"
  shows "r = (pg_write_back e = Redirtied)" and "cache_wf c'" and "oc_dirty_limit c' = oc_dirty_limit c"
    and "dirty_pages c' = dirty_pages c" and "cache_entry c' = (cache_entry c)(off \<mapsto> e\<lparr>pg_write_back := Idle\<rparr>)"
proof -
  from assms(2) obtain i where i: "ObjectCache_find c off = Some i" "i < length (oc_pages c)" "oc_pages c ! i = Some e" "pg_offset e = off"
    by (rule cache_entry_index)
  let ?e = "e\<lparr>pg_write_back := Idle\<rparr>"
  have c': "c' = c\<lparr>oc_pages := (oc_pages c)[i := Some ?e]\<rparr>" "r = (pg_write_back e = Redirtied)"
    using assms(3) i by (auto simp: ObjectCache_end_write_back_def)
  then show "r = (pg_write_back e = Redirtied)" "oc_dirty_limit c' = oc_dirty_limit c" by simp_all
  show "cache_wf c'" "dirty_pages c' = dirty_pages c" "cache_entry c' = (cache_entry c)(off \<mapsto> ?e)"
    using cache_store [OF assms(1) i(2,3), of ?e] count_where_replace [OF i(2,3), of pg_dirty ?e] i(4)
    by (simp_all add: c')
qed

lemma mark_clean_spec:
  assumes "cache_wf c" "cache_entry c off = Some e"
  shows "cache_wf (ObjectCache_mark_clean c off)"
    and "oc_dirty_limit (ObjectCache_mark_clean c off) = oc_dirty_limit c"
    and "dirty_pages (ObjectCache_mark_clean c off) \<le> dirty_pages c"
    and "cache_entry (ObjectCache_mark_clean c off) = (cache_entry c)(off \<mapsto> e\<lparr>pg_dirty := False\<rparr>)"
proof -
  from assms(2) obtain i where i: "ObjectCache_find c off = Some i" "i < length (oc_pages c)" "oc_pages c ! i = Some e" "pg_offset e = off"
    by (rule cache_entry_index)
  let ?e = "e\<lparr>pg_dirty := False\<rparr>"
  have c': "ObjectCache_mark_clean c off = c\<lparr>oc_pages := (oc_pages c)[i := Some ?e]\<rparr>"
    using i by (simp add: ObjectCache_mark_clean_def)
  show "cache_wf (ObjectCache_mark_clean c off)" "oc_dirty_limit (ObjectCache_mark_clean c off) = oc_dirty_limit c"
    "dirty_pages (ObjectCache_mark_clean c off) \<le> dirty_pages c"
    "cache_entry (ObjectCache_mark_clean c off) = (cache_entry c)(off \<mapsto> ?e)"
    using cache_store [OF assms(1) i(2,3), of ?e] count_where_replace [OF i(2,3), of pg_dirty ?e] i(4)
    by (auto simp: c' split: if_splits)
qed

lemma forget_spec:
  assumes "cache_wf c"
  shows "cache_wf (ObjectCache_forget c off)"
    and "oc_dirty_limit (ObjectCache_forget c off) = oc_dirty_limit c"
    and "dirty_pages (ObjectCache_forget c off) \<le> dirty_pages c"
    and "cache_entry (ObjectCache_forget c off) = (cache_entry c)(off := None)"
proof -
  have "cache_wf (ObjectCache_forget c off) \<and> oc_dirty_limit (ObjectCache_forget c off) = oc_dirty_limit c \<and>
    dirty_pages (ObjectCache_forget c off) \<le> dirty_pages c \<and>
    cache_entry (ObjectCache_forget c off) = (cache_entry c)(off := None)"
  proof (cases "cache_entry c off")
    case None
    then show ?thesis using assms by (simp add: ObjectCache_forget_def fun_upd_idem cache_absent)
  next
    case (Some e)
    then obtain i where i: "ObjectCache_find c off = Some i" "i < length (oc_pages c)" "oc_pages c ! i = Some e" "pg_offset e = off"
      by (rule cache_entry_index)
    have d: "distinct_keys pg_offset (oc_pages c)" using assms by (simp add: cache_wf_def)
    show ?thesis
      using assms i key_clear(1,2) [OF i(2,3) d] count_where_clear [OF i(2,3), of pg_dirty]
      by (auto simp: ObjectCache_forget_def cache_wf_def cache_entry_def)
  qed
  then show "cache_wf (ObjectCache_forget c off)" "oc_dirty_limit (ObjectCache_forget c off) = oc_dirty_limit c"
    "dirty_pages (ObjectCache_forget c off) \<le> dirty_pages c"
    "cache_entry (ObjectCache_forget c off) = (cache_entry c)(off := None)" by auto
qed

lemma ObjectCache_new_spec [simp]:
  "cache_entry (ObjectCache_new n limit) = Map.empty" "oc_dirty_limit (ObjectCache_new n limit) = limit"
  "dirty_pages (ObjectCache_new n limit) = 0" "cache_wf (ObjectCache_new n limit) \<longleftrightarrow> n < 2 ^ 32"
  by (simp_all add: ObjectCache_new_def cache_entry_def cache_wf_def count_where_def)

lemma dirty_offsets_exact:
  assumes "cache_wf c" "dirty_pages c \<le> length out" "ObjectCache_dirty_offsets c out = (n, out')"
  shows "take n out' = sorted_list_of_set {off. ObjectCache_is_dirty c off}" and "n = dirty_pages c"
proof -
  let ?l = "map pg_offset (filter pg_dirty (flatten (oc_pages c)))"
  have d: "distinct_keys pg_offset (oc_pages c)" using assms(1) by (simp add: cache_wf_def)
  have n: "n = length ?l" "out' = sort ?l @ drop n out"
    using assms(2,3) by (auto simp: ObjectCache_dirty_offsets_def count_where_def Let_def)
  then show "n = dirty_pages c" by (simp add: count_where_def)
  have "set ?l = {off. ObjectCache_is_dirty c off}"
    by (auto simp: is_dirty_iff cache_entry_def key_lookup_iff [OF d])
  moreover have "distinct ?l" using d by (auto simp: distinct_keys_def distinct_map inj_on_def)
  ultimately have "sort ?l = sorted_list_of_set {off. ObjectCache_is_dirty c off}"
    by (metis sorted_list_of_set_sort_remdups distinct_remdups_id)
  moreover have "take n out' = sort ?l" using n by simp
  ultimately show "take n out' = sorted_list_of_set {off. ObjectCache_is_dirty c off}" by (rule trans [rotated])
qed

subsection \<open>The write-back protocol over a cache\<close>

text \<open>
  A cache in use: \<open>cr_page\<close> is what the frame of a resident page holds, \<open>cr_disk\<close> what its
  service holds, \<open>cr_flight\<close> the copy a service has been handed and \<open>cr_last\<close> the last value
  stored to each page, which no code keeps. The steps are those the dispatcher takes
  (\<^verbatim>\<open>dispatch.rs\<close>, \<^verbatim>\<open>write_back\<close>, \<^verbatim>\<open>page_written_back\<close> and the write fault): a store is
  recorded by \<^verbatim>\<open>mark_dirty\<close> before it happens, only a dirty page is written back, the page is
  marked clean only when the request persisted it and no store overtook it, and only a clean
  page is dropped. \<open>finish_write_back\<close> is what the end of \<^verbatim>\<open>write_back\<close> does to the cache; the
  closing of the service's window on the page, between the two, is not part of it. Two steps are narrower than the code. \<open>start\<close> opens a request only for a
  page that has none out, which the dispatcher does not enforce: two requests for one page
  can lose a store. \<open>reported\<close>, the \<^verbatim>\<open>PageWrittenBack\<close> call, is taken by a service that has
  persisted what the page holds at that moment and has no request out for it: the call marks
  the page clean without a window, so it forgets a store that landed after the service read
  the page. The write fault whose \<^verbatim>\<open>grant_write\<close> fails (it marks the page clean again and
  the thread dies) is not a step.
\<close>

record CacheRun =
  cr_cache :: ObjectCache
  cr_page :: "64 word \<Rightarrow> nat"
  cr_disk :: "64 word \<Rightarrow> nat"
  cr_flight :: "64 word \<Rightarrow> nat option"
  cr_last :: "64 word \<Rightarrow> nat"

definition finish_write_back :: "ObjectCache \<Rightarrow> 64 word \<Rightarrow> bool \<Rightarrow> ObjectCache" where
  "finish_write_back c off persisted =
     (case ObjectCache_end_write_back c off of
        (rewritten, c1) \<Rightarrow> if persisted \<and> \<not> rewritten then ObjectCache_mark_clean c1 off else c1)"

inductive cache_step :: "CacheRun \<Rightarrow> CacheRun \<Rightarrow> bool" where
  page_in: "ObjectCache_install (cr_cache s) off = (Ok (), c') \<Longrightarrow>
    cache_step s (s\<lparr>cr_cache := c',
      cr_page := (if ObjectCache_is_resident (cr_cache s) off then cr_page s else (cr_page s)(off := cr_disk s off))\<rparr>)"
| store: "ObjectCache_mark_dirty (cr_cache s) off = (Marked, c') \<Longrightarrow>
    cache_step s (s\<lparr>cr_cache := c', cr_page := (cr_page s)(off := v), cr_last := (cr_last s)(off := v)\<rparr>)"
| throttle: "ObjectCache_mark_dirty (cr_cache s) off = (Throttle, c') \<Longrightarrow> cache_step s (s\<lparr>cr_cache := c'\<rparr>)"
| start: "ObjectCache_is_dirty (cr_cache s) off \<Longrightarrow> cr_flight s off = None \<Longrightarrow>
    cache_step s (s\<lparr>cr_cache := ObjectCache_begin_write_back (cr_cache s) off,
      cr_flight := (cr_flight s)(off \<mapsto> cr_page s off)\<rparr>)"
| finish: "cr_flight s off = Some copy \<Longrightarrow>
    cache_step s (s\<lparr>cr_cache := finish_write_back (cr_cache s) off persisted,
      cr_disk := (if persisted then (cr_disk s)(off := copy) else cr_disk s),
      cr_flight := (cr_flight s)(off := None)\<rparr>)"
| reported: "ObjectCache_is_resident (cr_cache s) off \<Longrightarrow> cr_flight s off = None \<Longrightarrow>
    cache_step s (s\<lparr>cr_cache := ObjectCache_mark_clean (cr_cache s) off,
      cr_disk := (cr_disk s)(off := cr_page s off)\<rparr>)"
| evict: "\<not> ObjectCache_is_dirty (cr_cache s) off \<Longrightarrow>
    cache_step s (s\<lparr>cr_cache := ObjectCache_forget (cr_cache s) off\<rparr>)"

definition cache_start :: "nat \<Rightarrow> 32 word \<Rightarrow> (64 word \<Rightarrow> nat) \<Rightarrow> CacheRun" where
  "cache_start max_cached limit contents =
     \<lparr> cr_cache = ObjectCache_new max_cached limit, cr_page = contents, cr_disk = contents,
       cr_flight = Map.empty, cr_last = contents \<rparr>"

fun view_ok :: "PageEntry option \<Rightarrow> nat \<Rightarrow> nat \<Rightarrow> nat option \<Rightarrow> nat \<Rightarrow> bool" where
  "view_ok None page disk flight latest \<longleftrightarrow> disk = latest \<and> flight = None"
| "view_ok (Some e) page disk None latest \<longleftrightarrow> page = latest \<and> (\<not> pg_dirty e \<longrightarrow> disk = latest) \<and> pg_write_back e = Idle"
| "view_ok (Some e) page disk (Some copy) latest \<longleftrightarrow> page = latest \<and> pg_dirty e \<and> pg_write_back e \<noteq> Idle \<and>
     (pg_write_back e = InFlight \<longrightarrow> copy = page)"

definition page_ok :: "CacheRun \<Rightarrow> 64 word \<Rightarrow> bool" where
  "page_ok s off = view_ok (cache_entry (cr_cache s) off) (cr_page s off) (cr_disk s off) (cr_flight s off) (cr_last s off)"

definition run_ok :: "32 word \<Rightarrow> CacheRun \<Rightarrow> bool" where
  "run_ok limit s \<longleftrightarrow> cache_wf (cr_cache s) \<and> oc_dirty_limit (cr_cache s) = limit \<and>
     dirty_pages (cr_cache s) \<le> unat limit \<and> (\<forall>off. page_ok s off)"

lemma page_ok_finish:
  assumes "cache_wf (cr_cache s)" "page_ok s off" "cr_flight s off = Some copy"
  shows "cache_wf (finish_write_back (cr_cache s) off p)"
    and "oc_dirty_limit (finish_write_back (cr_cache s) off p) = oc_dirty_limit (cr_cache s)"
    and "dirty_pages (finish_write_back (cr_cache s) off p) \<le> dirty_pages (cr_cache s)"
    and "\<exists>e. cache_entry (cr_cache s) off = Some e \<and>
           cache_entry (finish_write_back (cr_cache s) off p) = (cache_entry (cr_cache s))(off \<mapsto>
             e\<lparr>pg_write_back := Idle, pg_dirty := \<not> (p \<and> pg_write_back e = InFlight)\<rparr>)"
proof -
  obtain e where e: "cache_entry (cr_cache s) off = Some e" "pg_dirty e" "pg_write_back e \<noteq> Idle"
    using assms(2,3) by (cases "cache_entry (cr_cache s) off") (auto simp: page_ok_def)
  obtain r c1 where r: "ObjectCache_end_write_back (cr_cache s) off = (r, c1)" by fastforce
  note x = end_write_back_spec [OF assms(1) e(1) r]
  have c1e: "cache_entry c1 off = Some (e\<lparr>pg_write_back := Idle\<rparr>)" using x(5) by simp
  note y = mark_clean_spec [OF x(2) c1e]
  have w: "pg_write_back e = InFlight \<or> pg_write_back e = Redirtied" using e(3) by (cases "pg_write_back e") auto
  have f: "finish_write_back (cr_cache s) off p = (if p \<and> \<not> r then ObjectCache_mark_clean c1 off else c1)"
    by (simp add: finish_write_back_def r)
  show "cache_wf (finish_write_back (cr_cache s) off p)"
    "oc_dirty_limit (finish_write_back (cr_cache s) off p) = oc_dirty_limit (cr_cache s)"
    "dirty_pages (finish_write_back (cr_cache s) off p) \<le> dirty_pages (cr_cache s)"
    unfolding f using x y by auto
  have "cache_entry (finish_write_back (cr_cache s) off p) = (cache_entry (cr_cache s))(off \<mapsto>
             e\<lparr>pg_write_back := Idle, pg_dirty := \<not> (p \<and> pg_write_back e = InFlight)\<rparr>)"
    unfolding f using x(1,5) y(4) w e(2) by (cases "p \<and> \<not> r") auto
  with e(1) show "\<exists>e. cache_entry (cr_cache s) off = Some e \<and>
           cache_entry (finish_write_back (cr_cache s) off p) = (cache_entry (cr_cache s))(off \<mapsto>
             e\<lparr>pg_write_back := Idle, pg_dirty := \<not> (p \<and> pg_write_back e = InFlight)\<rparr>)" by blast
qed

lemma cache_step_ok: "cache_step s s' \<Longrightarrow> run_ok limit s \<Longrightarrow> run_ok limit s'"
proof (induction rule: cache_step.induct)
  case (page_in s off c')
  then have wf: "cache_wf (cr_cache s)" by (simp add: run_ok_def)
  have p: "page_ok s k" for k using page_in by (simp add: run_ok_def)
  note i = install_spec [OF wf page_in(1), simplified]
  let ?s = "s\<lparr>cr_cache := c', cr_page := (if ObjectCache_is_resident (cr_cache s) off then cr_page s else (cr_page s)(off := cr_disk s off))\<rparr>"
  have "page_ok ?s k" for k
    using p [of k] i by (cases "k = off"; cases "cache_entry (cr_cache s) off") (simp_all add: page_ok_def is_resident_iff)
  then show ?case using i page_in by (simp add: run_ok_def)
next
  case (store s off c' v)
  then have wf: "cache_wf (cr_cache s)" by (simp add: run_ok_def)
  have p: "page_ok s k" for k using store by (simp add: run_ok_def)
  from mark_dirty_spec [OF wf store(1)] obtain e where e: "cache_entry (cr_cache s) off = Some e"
    "cache_entry c' = (cache_entry (cr_cache s))(off \<mapsto> e\<lparr>pg_dirty := True,
       pg_write_back := (if pg_write_back e = InFlight then Redirtied else pg_write_back e)\<rparr>)"
    and d: "cache_wf c'" "oc_dirty_limit c' = oc_dirty_limit (cr_cache s)"
    "dirty_pages c' = dirty_pages (cr_cache s) + (if pg_dirty e then 0 else 1)"
    "\<not> pg_dirty e \<longrightarrow> dirty_pages (cr_cache s) < unat (oc_dirty_limit (cr_cache s))" by auto
  have "page_ok (s\<lparr>cr_cache := c', cr_page := (cr_page s)(off := v), cr_last := (cr_last s)(off := v)\<rparr>) k" for k
    using p [of k] e by (cases "k = off"; cases "cr_flight s off") (auto simp: page_ok_def)
  then show ?case using d store by (auto simp: run_ok_def)
next
  case (throttle s off c')
  then have wf: "cache_wf (cr_cache s)" by (simp add: run_ok_def)
  from mark_dirty_spec [OF wf throttle(1)] have "c' = cr_cache s" by auto
  then show ?case using throttle by simp
next
  case (start s off)
  then have wf: "cache_wf (cr_cache s)" by (simp add: run_ok_def)
  obtain e where e: "cache_entry (cr_cache s) off = Some e" "pg_dirty e" using start(1) by (auto simp: is_dirty_iff)
  have p: "page_ok s k" for k using start by (simp add: run_ok_def)
  note b = begin_write_back_spec [OF wf refl, of off]
  have "pg_write_back e = Idle" using p [of off] e start(2) by (simp add: page_ok_def)
  then have ce: "cache_entry (ObjectCache_begin_write_back (cr_cache s) off) = (cache_entry (cr_cache s))(off \<mapsto> e\<lparr>pg_write_back := InFlight\<rparr>)"
    using b(4) e(1) by simp
  have "page_ok (s\<lparr>cr_cache := ObjectCache_begin_write_back (cr_cache s) off, cr_flight := (cr_flight s)(off \<mapsto> cr_page s off)\<rparr>) k" for k
    using p [of k] e start(2) by (cases "k = off") (auto simp: page_ok_def ce)
  then show ?case using b(1-3) start by (simp add: run_ok_def)
next
  case (finish s off copy persisted)
  then have wf: "cache_wf (cr_cache s)" by (simp add: run_ok_def)
  have p: "page_ok s k" for k using finish by (simp add: run_ok_def)
  note f = page_ok_finish [OF wf p finish(1), of persisted]
  from f(4) obtain e where e: "cache_entry (cr_cache s) off = Some e"
    and ce: "cache_entry (finish_write_back (cr_cache s) off persisted) = (cache_entry (cr_cache s))(off \<mapsto>
             e\<lparr>pg_write_back := Idle, pg_dirty := \<not> (persisted \<and> pg_write_back e = InFlight)\<rparr>)" by auto
  have "page_ok (s\<lparr>cr_cache := finish_write_back (cr_cache s) off persisted,
      cr_disk := (if persisted then (cr_disk s)(off := copy) else cr_disk s), cr_flight := (cr_flight s)(off := None)\<rparr>) k" for k
    using p [of k] e finish(1) by (cases "k = off") (auto simp: page_ok_def ce)
  then show ?case using f(1-3) finish by (simp add: run_ok_def)
next
  case (reported s off)
  then have wf: "cache_wf (cr_cache s)" by (simp add: run_ok_def)
  have p: "page_ok s k" for k using reported by (simp add: run_ok_def)
  obtain e where e: "cache_entry (cr_cache s) off = Some e" using reported(1) by (auto simp: is_resident_iff)
  note m = mark_clean_spec [OF wf e]
  have "page_ok (s\<lparr>cr_cache := ObjectCache_mark_clean (cr_cache s) off, cr_disk := (cr_disk s)(off := cr_page s off)\<rparr>) k" for k
    using p [of k] e reported(2) by (cases "k = off") (auto simp: page_ok_def m)
  then show ?case using m(1-3) reported by (simp add: run_ok_def)
next
  case (evict s off)
  then have wf: "cache_wf (cr_cache s)" by (simp add: run_ok_def)
  have p: "page_ok s k" for k using evict by (simp add: run_ok_def)
  note f = forget_spec [OF wf, of off]
  have "page_ok (s\<lparr>cr_cache := ObjectCache_forget (cr_cache s) off\<rparr>) k" for k
    using p [of k] evict(1)
    by (cases "k = off"; cases "cache_entry (cr_cache s) off"; cases "cr_flight s off") (auto simp: page_ok_def f is_dirty_iff)
  then show ?case using f(1-3) evict by (simp add: run_ok_def)
qed

lemma cache_run_ok:
  assumes "cache_step\<^sup>*\<^sup>* (cache_start n limit contents) s" "n < 2 ^ 32"
  shows "run_ok limit s"
  using assms(1)
proof (induction rule: rtranclp_induct)
  case base
  show ?case using assms(2) by (simp add: run_ok_def cache_start_def page_ok_def)
qed (rule cache_step_ok)

lemma page_cache_parts:
  assumes "cache_step\<^sup>*\<^sup>* (cache_start max_cached limit contents) s" "max_cached < 2 ^ 32"
    and "unat limit \<le> length out" "ObjectCache_fault (cr_cache s) out = ((lost, out'), c')"
  shows "ObjectCache_is_resident (cr_cache s) off \<Longrightarrow> cr_page s off = cr_last s off"
    and "\<not> ObjectCache_is_dirty (cr_cache s) off \<Longrightarrow> cr_disk s off = cr_last s off"
    and "unat (ObjectCache_dirty_count (cr_cache s)) \<le> unat limit"
    and "take lost out' = sorted_list_of_set {off. ObjectCache_is_dirty (cr_cache s) off}"
    and "off \<notin> set (take lost out') \<Longrightarrow> cr_disk s off = cr_last s off"
    and "ObjectCache_install c' off = (Err BadHandle, c')"
proof -
  have ok: "run_ok limit s" by (rule cache_run_ok [OF assms(1,2)])
  have wf: "cache_wf (cr_cache s)" and p: "page_ok s k" for k using ok by (simp_all add: run_ok_def)
  show "ObjectCache_is_resident (cr_cache s) off \<Longrightarrow> cr_page s off = cr_last s off"
    using p [of off] by (cases "cr_flight s off") (auto simp: page_ok_def is_resident_iff)
  show clean: "\<not> ObjectCache_is_dirty (cr_cache s) off \<Longrightarrow> cr_disk s off = cr_last s off" for off
    using p [of off] by (cases "cache_entry (cr_cache s) off"; cases "cr_flight s off") (auto simp: page_ok_def is_dirty_iff)
  have le: "dirty_pages (cr_cache s) \<le> unat limit" using ok by (simp add: run_ok_def)
  then show "unat (ObjectCache_dirty_count (cr_cache s)) \<le> unat limit" by (simp add: dirty_count_unat [OF wf])
  have fl: "ObjectCache_dirty_offsets (cr_cache s) out = (lost, out')"
    and c': "c' = (cr_cache s)\<lparr>oc_pages := replicate (length (oc_pages (cr_cache s))) None, oc_faulted := True\<rparr>"
    using assms(4) by (auto simp: ObjectCache_fault_def)
  show l: "take lost out' = sorted_list_of_set {off. ObjectCache_is_dirty (cr_cache s) off}"
    by (rule dirty_offsets_exact(1) [OF wf _ fl]) (use le assms(3) in simp)
  have "finite {off. ObjectCache_is_dirty (cr_cache s) off}" by (rule finite)
  with l clean show "off \<notin> set (take lost out') \<Longrightarrow> cr_disk s off = cr_last s off" by simp
  show "ObjectCache_install c' off = (Err BadHandle, c')" by (simp add: ObjectCache_install_def c')
qed


text \<open>A store overtakes the write-back of its page: the service holds the older value, the
  page stays dirty and the report names it.\<close>

definition sample_state :: "PageEntry option \<Rightarrow> nat \<Rightarrow> nat \<Rightarrow> nat option \<Rightarrow> nat \<Rightarrow> CacheRun" where
  "sample_state e page disk flight latest =
     \<lparr> cr_cache = \<lparr> oc_pages = [e, None], oc_dirty_limit = 1, oc_faulted = False \<rparr>,
       cr_page = (\<lambda>_. 0)(4096 := page), cr_disk = (\<lambda>_. 0)(4096 := disk),
       cr_flight = Map.empty(4096 := flight), cr_last = (\<lambda>_. 0)(4096 := latest) \<rparr>"

definition sample_page :: "bool \<Rightarrow> WriteBack \<Rightarrow> PageEntry option" where
  "sample_page dirty wb = Some \<lparr> pg_offset = 4096, pg_dirty = dirty, pg_write_back = wb \<rparr>"

lemmas sample_cache_simps = sample_state_def sample_page_def ObjectCache_is_resident_def ObjectCache_is_dirty_def
  ObjectCache_find_def ObjectCache_dirty_count_def free_slot_def

lemma sample_cache_run:
  "cache_step\<^sup>*\<^sup>* (cache_start 2 1 (\<lambda>_. 0)) (sample_state (sample_page True Idle) 9 7 None 9)"
proof -
  have "cache_start 2 1 (\<lambda>_. 0) = sample_state None 0 0 None 0"
    by (simp add: cache_start_def sample_state_def ObjectCache_new_def numeral_2_eq_2 fun_eq_iff)
  moreover have "cache_step (sample_state None 0 0 None 0) (sample_state (sample_page False Idle) 0 0 None 0)"
    using cache_step.page_in [of "sample_state None 0 0 None 0" 4096]
    by (simp add: sample_cache_simps ObjectCache_install_def)
  moreover have "cache_step (sample_state (sample_page False Idle) 0 0 None 0) (sample_state (sample_page True Idle) 7 0 None 7)"
    using cache_step.store [of "sample_state (sample_page False Idle) 0 0 None 0" 4096 _ 7]
    by (simp add: sample_cache_simps ObjectCache_mark_dirty_def)
  moreover have "cache_step (sample_state (sample_page True Idle) 7 0 None 7) (sample_state (sample_page True InFlight) 7 0 (Some 7) 7)"
    using cache_step.start [of "sample_state (sample_page True Idle) 7 0 None 7" 4096]
    by (simp add: sample_cache_simps ObjectCache_begin_write_back_def)
  moreover have "cache_step (sample_state (sample_page True InFlight) 7 0 (Some 7) 7) (sample_state (sample_page True Redirtied) 9 0 (Some 7) 9)"
    using cache_step.store [of "sample_state (sample_page True InFlight) 7 0 (Some 7) 7" 4096 _ 9]
    by (simp add: sample_cache_simps ObjectCache_mark_dirty_def)
  moreover have "cache_step (sample_state (sample_page True Redirtied) 9 0 (Some 7) 9) (sample_state (sample_page True Idle) 9 7 None 9)"
    using cache_step.finish [of "sample_state (sample_page True Redirtied) 9 0 (Some 7) 9" 4096 7 True]
    by (simp add: sample_cache_simps finish_write_back_def ObjectCache_end_write_back_def)
  ultimately show ?thesis by (auto intro: converse_rtranclp_into_rtranclp)
qed


subsection \<open>Overlapping write-backs\<close>

text \<open>C40: The record of an overtaking store does not survive two overlapping write-backs of
  one page. Both requests are armed, a store lands after both copies were taken, and the
  first answer takes the record with it: the page stays dirty then, but the second answer
  finds no record and marks it clean, so the store is dropped by the next eviction. (The
  comment at \<^verbatim>\<open>begin_write_back\<close> says that overlapping requests keep what the page has seen.)\<close>
theorem overlapping_write_backs_lose_store:
  assumes "cache_wf c" "cache_entry c off = Some e" "pg_dirty e" "pg_write_back e = Idle"
  shows "let armed = ObjectCache_begin_write_back (ObjectCache_begin_write_back c off) off;
             stored = ObjectCache_mark_dirty armed off;
             first = finish_write_back (snd stored) off True;
             second = finish_write_back first off True
         in fst stored = Marked \<and> ObjectCache_is_dirty first off \<and> \<not> ObjectCache_is_dirty second off \<and>
            ObjectCache_is_resident second off"
proof -
  define a1 where "a1 = ObjectCache_begin_write_back c off"
  define a2 where "a2 = ObjectCache_begin_write_back a1 off"
  note b1 = begin_write_back_spec [OF assms(1) a1_def]
  have e1: "cache_entry a1 off = Some (e\<lparr>pg_write_back := InFlight\<rparr>)" using b1(4) assms by simp
  note b2 = begin_write_back_spec [OF b1(1) a2_def]
  have e2: "cache_entry a2 off = Some (e\<lparr>pg_write_back := InFlight\<rparr>)" using b2(4) e1 by simp
  obtain r d where d: "ObjectCache_mark_dirty a2 off = (r, d)" by fastforce
  have m: "r = Marked" "cache_wf d" "cache_entry d off = Some (e\<lparr>pg_write_back := Redirtied\<rparr>)"
    using mark_dirty_spec [OF b2(1) d] e2 assms(3) by (auto simp: is_dirty_iff)
  obtain r1 c1 where c1: "ObjectCache_end_write_back d off = (r1, c1)" by fastforce
  note x = end_write_back_spec [OF m(2,3) c1]
  have f1: "finish_write_back d off True = c1" using x(1) by (simp add: finish_write_back_def c1)
  have e3: "cache_entry c1 off = Some (e\<lparr>pg_write_back := Idle\<rparr>)" using x(5) by simp
  obtain r2 c2 where c2: "ObjectCache_end_write_back c1 off = (r2, c2)" by fastforce
  note y = end_write_back_spec [OF x(2) e3 c2]
  have f2: "finish_write_back c1 off True = ObjectCache_mark_clean c2 off" using y(1) by (simp add: finish_write_back_def c2)
  have "cache_entry c2 off = Some (e\<lparr>pg_write_back := Idle\<rparr>)" using y(5) by simp
  note z = mark_clean_spec(4) [OF y(2) this]
  show ?thesis
    using m(1) e3 assms(3) z
    by (simp add: a1_def [symmetric] a2_def [symmetric] d f1 f2 is_dirty_iff is_resident_iff Let_def)
qed

theorem overlapping_write_backs_lose_store_witness:
  "let c = \<lparr> oc_pages = [sample_page True Idle], oc_dirty_limit = 1, oc_faulted = False \<rparr>;
       armed = ObjectCache_begin_write_back (ObjectCache_begin_write_back c 4096) 4096;
       first = finish_write_back (snd (ObjectCache_mark_dirty armed 4096)) 4096 True
   in ObjectCache_is_dirty first 4096 \<and> \<not> ObjectCache_is_dirty (finish_write_back first 4096 True) 4096"
  using overlapping_write_backs_lose_store [of "\<lparr> oc_pages = [sample_page True Idle], oc_dirty_limit = 1, oc_faulted = False \<rparr>" 4096
      "\<lparr> pg_offset = 4096, pg_dirty = True, pg_write_back = Idle \<rparr>"]
  by (simp add: cache_wf_def cache_entry_def key_lookup_def distinct_keys_def sample_page_def Let_def)

subsection \<open>The reservation holds\<close>

inductive reservation_run :: "32 word \<Rightarrow> 32 word \<Rightarrow> WriteBackReservation \<Rightarrow> bool" for capacity reserved where
  fresh: "reservation_run capacity reserved (WriteBackReservation_new capacity reserved)"
| alloc_ordinary: "reservation_run capacity reserved r \<Longrightarrow>
    reservation_run capacity reserved (snd (WriteBackReservation_alloc_ordinary r))"
| free_ordinary: "reservation_run capacity reserved r \<Longrightarrow>
    reservation_run capacity reserved (WriteBackReservation_free_ordinary r)"
| alloc_writeback: "reservation_run capacity reserved r \<Longrightarrow>
    reservation_run capacity reserved (snd (WriteBackReservation_alloc_writeback r))"
| free_writeback: "reservation_run capacity reserved r \<Longrightarrow>
    reservation_run capacity reserved (WriteBackReservation_free_writeback r)"

definition reservation_ok :: "32 word \<Rightarrow> 32 word \<Rightarrow> WriteBackReservation \<Rightarrow> bool" where
  "reservation_ok capacity reserved r \<longleftrightarrow> wr_capacity r = capacity \<and> wr_reserved r = min reserved capacity \<and>
     unat (wr_ordinary_in_use r) \<le> unat capacity - unat (min reserved capacity) \<and>
     unat (wr_writeback_in_use r) \<le> unat (min reserved capacity)"

lemma unat_increment: "unat (a :: 32 word) < unat (b :: 32 word) \<Longrightarrow> unat (a + 1) = unat a + 1"
proof -
  assume "unat a < unat b"
  moreover have "unat b < 2 ^ 32" using unsigned_less [of b] by simp
  ultimately have "unat a + 1 < 2 ^ 32" by linarith
  then show ?thesis by (simp add: unat_word_ariths)
qed

lemma reservation_run_ok: "reservation_run capacity reserved r \<Longrightarrow> reservation_ok capacity reserved r"
proof (induction rule: reservation_run.induct)
  case fresh
  show ?case by (auto simp: reservation_ok_def WriteBackReservation_new_def min_def not_less)
next
  case (alloc_ordinary r)
  then show ?case
    using unat_increment [of "wr_ordinary_in_use r" "saturating_sub capacity (min reserved capacity)"]
    by (auto simp: reservation_ok_def WriteBackReservation_alloc_ordinary_def word_less_nat_alt unat_saturating_sub)
next
  case (alloc_writeback r)
  then show ?case
    using unat_increment [of "wr_writeback_in_use r" "min reserved capacity"]
    by (auto simp: reservation_ok_def WriteBackReservation_alloc_writeback_def word_less_nat_alt)
qed (auto simp: reservation_ok_def WriteBackReservation_free_ordinary_def WriteBackReservation_free_writeback_def unat_saturating_sub)

lemma write_back_reservation_parts:
  assumes "reservation_run capacity reserved r"
  shows "unat (wr_ordinary_in_use r) + unat (min reserved capacity) \<le> unat capacity"
    and "unat (wr_ordinary_in_use r) + unat (wr_writeback_in_use r) \<le> unat capacity"
    and "WriteBackReservation_at_pressure r \<longleftrightarrow> fst (WriteBackReservation_alloc_ordinary r) = None"
    and "wr_writeback_in_use r < min reserved capacity \<Longrightarrow> fst (WriteBackReservation_alloc_writeback r) = Some ()"
proof -
  have r: "wr_capacity r = capacity" "wr_reserved r = min reserved capacity"
    "unat (wr_ordinary_in_use r) \<le> unat capacity - unat (min reserved capacity)"
    "unat (wr_writeback_in_use r) \<le> unat (min reserved capacity)"
    using reservation_run_ok [OF assms] by (simp_all add: reservation_ok_def)
  have le: "unat (min reserved capacity) \<le> unat capacity" by (simp add: word_le_nat_alt [symmetric])
  from r(3) le show "unat (wr_ordinary_in_use r) + unat (min reserved capacity) \<le> unat capacity" by linarith
  from r(3,4) le show "unat (wr_ordinary_in_use r) + unat (wr_writeback_in_use r) \<le> unat capacity" by linarith
  show "WriteBackReservation_at_pressure r \<longleftrightarrow> fst (WriteBackReservation_alloc_ordinary r) = None"
    by (auto simp: WriteBackReservation_at_pressure_def WriteBackReservation_alloc_ordinary_def)
  show "wr_writeback_in_use r < min reserved capacity \<Longrightarrow> fst (WriteBackReservation_alloc_writeback r) = Some ()"
    by (simp add: WriteBackReservation_alloc_writeback_def r(2))
qed

text \<open>C15: The write-back reservation is never eaten by ordinary allocation. After any
  sequence of allocations and frees on both paths, at most capacity minus the (clamped)
  reservation is in ordinary use and the two uses together never exceed the capacity; and
  a write-back that stays within its declared reservation is granted a frame even when the
  ordinary path is at hard pressure and refused.\<close>
theorem write_back_reservation_holds:
  assumes "reservation_run capacity reserved r"
  shows "unat (wr_ordinary_in_use r) + unat (min reserved capacity) \<le> unat capacity \<and>
    unat (wr_ordinary_in_use r) + unat (wr_writeback_in_use r) \<le> unat capacity \<and>
    (WriteBackReservation_at_pressure r \<longleftrightarrow> fst (WriteBackReservation_alloc_ordinary r) = None) \<and>
    (wr_writeback_in_use r < min reserved capacity \<longrightarrow> fst (WriteBackReservation_alloc_writeback r) = Some ())"
  using write_back_reservation_parts [OF assms] by blast

theorem write_back_reservation_holds_witness:
  "let r = snd (WriteBackReservation_alloc_ordinary (WriteBackReservation_new 2 1))
   in WriteBackReservation_at_pressure r \<and> fst (WriteBackReservation_alloc_ordinary r) = None \<and>
      fst (WriteBackReservation_alloc_writeback r) = Some ()"
proof -
  let ?r = "snd (WriteBackReservation_alloc_ordinary (WriteBackReservation_new 2 1))"
  have run: "reservation_run 2 1 ?r" by (intro reservation_run.alloc_ordinary reservation_run.fresh)
  have "WriteBackReservation_at_pressure ?r" "wr_writeback_in_use ?r < min 1 2" by code_simp+
  with write_back_reservation_holds [OF run] show ?thesis by (simp add: Let_def)
qed

subsection \<open>The bounded walk decides reachability\<close>

text \<open>The recorded edges are well formed when each requester has at most one of them.\<close>

definition waits_wf :: "SelfPagingGraph \<Rightarrow> bool" where
  "waits_wf g \<longleftrightarrow> sp_wait_count g \<le> length (sp_waits g) \<and> distinct (map fst (waits_of g))"

lemma find_fst_edge:
  assumes "distinct (map fst es)"
  shows "find (\<lambda>e. fst e = x) es = Some (x', y) \<longleftrightarrow> x' = x \<and> (x, y) \<in> set es"
  using assms by (induction es) (auto simp: image_iff)

lemma reaches_loop_relpow:
  assumes "distinct (map fst es)"
  shows "reaches_loop n es x t \<longleftrightarrow> (\<exists>k. 0 < k \<and> k \<le> n \<and> (x, t) \<in> set es ^^ k)"
proof (induction n arbitrary: x)
  case (Suc n)
  note f = find_fst_edge [OF assms]
  show ?case
  proof (cases "find (\<lambda>e. fst e = x) es")
    case None
    then have "(x, y) \<notin> set es" for y by (auto simp: find_None_iff)
    then have "(x, t) \<notin> set es ^^ k" if "0 < k" for k
      using that by (metis relpow_E2 less_not_refl)
    with None show ?thesis by auto
  next
    case (Some p)
    then obtain y where y: "find (\<lambda>e. fst e = x) es = Some (x, y)" "(x, y) \<in> set es"
      using f by (cases p) auto
    have u: "(x, z) \<in> set es \<Longrightarrow> z = y" for z using y f by (metis option.inject prod.inject)
    have step: "(x, t) \<in> set es ^^ Suc j \<longleftrightarrow> (y, t) \<in> set es ^^ j" for j
    proof
      assume "(x, t) \<in> set es ^^ Suc j"
      then obtain z where "(x, z) \<in> set es" "(z, t) \<in> set es ^^ j" by (rule relpow_Suc_E2)
      with u [of z] show "(y, t) \<in> set es ^^ j" by simp
    qed (rule relpow_Suc_I2 [OF y(2)])
    have "(\<exists>k. 0 < k \<and> k \<le> Suc n \<and> (x, t) \<in> set es ^^ k) \<longleftrightarrow> (\<exists>j \<le> n. (x, t) \<in> set es ^^ Suc j)"
      by (auto simp: gr0_conv_Suc simp del: relpow.simps)
    also have "\<dots> \<longleftrightarrow> (\<exists>j \<le> n. (y, t) \<in> set es ^^ j)"
      by (simp only: step)
    also have "\<dots> \<longleftrightarrow> y = t \<or> (\<exists>k. 0 < k \<and> k \<le> n \<and> (y, t) \<in> set es ^^ k)"
    proof
      assume "\<exists>j \<le> n. (y, t) \<in> set es ^^ j"
      then obtain j where "j \<le> n" "(y, t) \<in> set es ^^ j" by blast
      then show "y = t \<or> (\<exists>k. 0 < k \<and> k \<le> n \<and> (y, t) \<in> set es ^^ k)" by (cases "j = 0") auto
    next
      assume "y = t \<or> (\<exists>k. 0 < k \<and> k \<le> n \<and> (y, t) \<in> set es ^^ k)"
      moreover have "(y, y) \<in> set es ^^ 0" by simp
      ultimately show "\<exists>j \<le> n. (y, t) \<in> set es ^^ j" by blast
    qed
    finally show ?thesis using y(1) Suc.IH by simp
  qed
qed simp

lemma reaches_trancl:
  assumes "waits_wf g"
  shows "SelfPagingGraph_reaches g x t \<longleftrightarrow> (x, t) \<in> (set (waits_of g))\<^sup>+"
proof -
  let ?R = "set (waits_of g)"
  have d: "distinct (map fst (waits_of g))" and l: "length (waits_of g) = sp_wait_count g"
    using assms by (auto simp: waits_wf_def)
  have "card ?R \<le> sp_wait_count g" using card_length [of "waits_of g"] l by simp
  moreover have "\<exists>k. 0 < k \<and> k \<le> card ?R \<and> (x, t) \<in> ?R ^^ k" if "(x, t) \<in> ?R\<^sup>+"
    using that by (subst (asm) trancl_finite_eq_relpow) auto
  ultimately have "\<exists>k. 0 < k \<and> k \<le> sp_wait_count g + 1 \<and> (x, t) \<in> ?R ^^ k" if "(x, t) \<in> ?R\<^sup>+"
    using that by fastforce
  moreover have "(x, t) \<in> ?R\<^sup>+" if "0 < k" "(x, t) \<in> ?R ^^ k" for k using that unfolding trancl_power by blast
  ultimately have "(x, t) \<in> ?R\<^sup>+ \<longleftrightarrow> (\<exists>k. 0 < k \<and> k \<le> sp_wait_count g + 1 \<and> (x, t) \<in> ?R ^^ k)" by blast
  then show ?thesis by (simp add: SelfPagingGraph_reaches_def reaches_loop_relpow [OF d])
qed

lemma request_cases:
  obtains (refused) "SelfPagingGraph_request_page_in g a x = (Cycle, g)"
      "SelfPagingGraph_server_of g x = None \<or>
       (\<exists>b. SelfPagingGraph_server_of g x = Some b \<and> (b = a \<or> SelfPagingGraph_reaches g b a))"
    | (served) b where "SelfPagingGraph_server_of g x = Some b" "b \<noteq> a" "\<not> SelfPagingGraph_reaches g b a"
      "SelfPagingGraph_request_page_in g a x =
         (Served, if sp_wait_count g < length (sp_waits g)
           then g\<lparr>sp_waits := (sp_waits g)[sp_wait_count g := (a, b)], sp_wait_count := sp_wait_count g + 1\<rparr> else g)"
  by (cases "SelfPagingGraph_server_of g x"; cases "the (SelfPagingGraph_server_of g x) = a \<or>
        SelfPagingGraph_reaches g (the (SelfPagingGraph_server_of g x)) a")
    (auto simp: SelfPagingGraph_request_page_in_def)

inductive paging_run :: "nat \<Rightarrow> SelfPagingGraph \<Rightarrow> bool" for max_pagers where
  fresh: "paging_run max_pagers (SelfPagingGraph_new max_pagers)"
| bind: "paging_run max_pagers g \<Longrightarrow> paging_run max_pagers (snd (SelfPagingGraph_bind g object pager))"
| unbind: "paging_run max_pagers g \<Longrightarrow> paging_run max_pagers (snd (SelfPagingGraph_unbind g object))"
| request: "paging_run max_pagers g \<Longrightarrow> requester \<notin> fst ` set (waits_of g) \<Longrightarrow>
    paging_run max_pagers (snd (SelfPagingGraph_request_page_in g requester object))"
| complete: "paging_run max_pagers g \<Longrightarrow> paging_run max_pagers (SelfPagingGraph_complete g requester)"

lemma distinct_submset:
  assumes "mset ys \<subseteq># mset xs" "distinct xs"
  shows "distinct ys"
  unfolding distinct_count_atmost_1
proof
  fix a
  have "count (mset ys) a \<le> count (mset xs) a" using assms(1) by (simp add: mset_subset_eq_count)
  also have "\<dots> \<le> 1" using assms(2) by (simp add: distinct_count_atmost_1)
  finally show "count (mset ys) a = (if a \<in> set ys then 1 else 0)"
    by (cases "a \<in> set ys") (auto simp: count_eq_zero_iff le_Suc_eq)
qed

lemma take_swap_remove:
  assumes "i < n" "n \<le> length xs"
  shows "mset (take (n - 1) (xs[i := xs ! (n - 1)])) = mset (take n xs) - {#xs ! i#}"
proof -
  obtain m where m: "n = Suc m" using assms(1) by (cases n) auto
  have t: "take n xs = take m xs @ [xs ! m]" using assms(2) by (simp add: m take_Suc_conv_app_nth)
  show ?thesis
  proof (cases "i = m")
    case True
    then show ?thesis using t by (simp add: m)
  next
    case False
    with assms m have i: "i < length (take m xs)" by simp
    have "mset ((take m xs)[i := xs ! m]) = add_mset (xs ! m) (mset (take m xs) - {#take m xs ! i#})"
      by (rule mset_update [OF i])
    moreover have "xs ! i \<in># mset (take m xs)" using nth_mem [OF i] i by simp
    ultimately show ?thesis using t i by (simp add: m take_update_swap)
  qed
qed

lemma paging_run_wf:
  "paging_run n g \<Longrightarrow> waits_wf g \<and> acyclic (set (waits_of g))"
proof (induction rule: paging_run.induct)
  case fresh
  show ?case by (simp add: SelfPagingGraph_new_def waits_wf_def acyclic_def)
next
  case (bind g object pager)
  then show ?case by (auto simp: SelfPagingGraph_bind_def waits_wf_def split: option.splits)
next
  case (unbind g object)
  then show ?case by (auto simp: SelfPagingGraph_unbind_def waits_wf_def Let_def split: option.splits)
next
  case (request g a x)
  have wf: "waits_wf g" and ac: "acyclic (set (waits_of g))" using request by auto
  show ?case
  proof (cases rule: request_cases [of g a x])
    case (served b)
    show ?thesis
    proof (cases "sp_wait_count g < length (sp_waits g)")
      case True
      let ?g = "g\<lparr>sp_waits := (sp_waits g)[sp_wait_count g := (a, b)], sp_wait_count := sp_wait_count g + 1\<rparr>"
      have w: "waits_of ?g = waits_of g @ [(a, b)]" using True by (simp add: take_Suc_conv_app_nth)
      have "(b, a) \<notin> (set (waits_of g))\<^sup>*" using served(2,3) reaches_trancl [OF wf] by (simp add: rtrancl_eq_or_trancl)
      then have "acyclic (set (waits_of ?g))" unfolding w using ac by (simp add: acyclic_insert)
      moreover have "waits_wf ?g"
        unfolding waits_wf_def w using wf True request(2) by (auto simp: waits_wf_def)
      ultimately show ?thesis using served(4) True by simp
    qed (use served wf ac in simp)
  qed (use wf ac in simp)
next
  case (complete g a)
  have wf: "waits_wf g" and ac: "acyclic (set (waits_of g))" using complete by auto
  show ?case
  proof (cases "position (\<lambda>e. fst e = a) (waits_of g)")
    case None
    then show ?thesis using wf ac by (simp add: SelfPagingGraph_complete_def)
  next
    case (Some i)
    have i: "i < sp_wait_count g" using position_SomeD(1) [OF Some] by simp
    have l: "sp_wait_count g \<le> length (sp_waits g)" using wf by (simp add: waits_wf_def)
    let ?g = "SelfPagingGraph_complete g a"
    have m: "mset (waits_of ?g) = mset (waits_of g) - {#sp_waits g ! i#}"
      using take_swap_remove [OF i l] by (simp add: SelfPagingGraph_complete_def Some Let_def)
    have sub: "set (waits_of ?g) \<subseteq> set (waits_of g)" using m by (metis diff_subset_eq_self set_mset_mono set_mset_mset)
    have "mset (map fst (waits_of ?g)) \<subseteq># mset (map fst (waits_of g))"
      unfolding mset_map m by (intro image_mset_subseteq_mono) simp
    then have "distinct (map fst (waits_of ?g))"
      by (rule distinct_submset) (use wf in \<open>simp add: waits_wf_def\<close>)
    moreover have "sp_wait_count ?g \<le> length (sp_waits ?g)" using l by (simp add: SelfPagingGraph_complete_def Some Let_def)
    ultimately show ?thesis using acyclic_subset [OF ac sub] by (simp add: waits_wf_def)
  qed
qed

lemma page_in_guard_parts:
  assumes "paging_run max_pagers g"
  shows "acyclic (set (waits_of g))"
    and "SelfPagingGraph_reaches g x t \<longleftrightarrow> (x, t) \<in> (set (waits_of g))\<^sup>+"
    and "SelfPagingGraph_server_of g object = Some server \<Longrightarrow>
      fst (SelfPagingGraph_request_page_in g requester object) = Cycle \<longleftrightarrow>
      \<not> acyclic (insert (requester, server) (set (waits_of g)))"
    and "SelfPagingGraph_server_of g object = None \<Longrightarrow> SelfPagingGraph_request_page_in g requester object = (Cycle, g)"
proof -
  have wf: "waits_wf g" and ac: "acyclic (set (waits_of g))" using paging_run_wf [OF assms] by auto
  show "acyclic (set (waits_of g))" by (rule ac)
  show r: "SelfPagingGraph_reaches g x t \<longleftrightarrow> (x, t) \<in> (set (waits_of g))\<^sup>+" for x t by (rule reaches_trancl [OF wf])
  show "fst (SelfPagingGraph_request_page_in g requester object) = Cycle \<longleftrightarrow>
      \<not> acyclic (insert (requester, server) (set (waits_of g)))" if "SelfPagingGraph_server_of g object = Some server"
    using that ac by (auto simp: SelfPagingGraph_request_page_in_def acyclic_insert r rtrancl_eq_or_trancl)
  show "SelfPagingGraph_server_of g object = None \<Longrightarrow> SelfPagingGraph_request_page_in g requester object = (Cycle, g)"
    by (simp add: SelfPagingGraph_request_page_in_def)
qed

text \<open>C14: The anti-deadlock guard is exact. However pagers are bound and unbound and
  page-ins are requested and completed (a requester waiting for one page at a time), the
  recorded waits-for graph stays acyclic, the walk bounded by the number of edges decides
  reachability in it, and a request for a bound object is refused exactly when recording it
  would close a cycle; a request for an object nobody pages is refused too.\<close>
theorem page_in_guard_exact:
  assumes "paging_run max_pagers g"
  shows "acyclic (set (waits_of g)) \<and>
    (\<forall>x t. SelfPagingGraph_reaches g x t \<longleftrightarrow> (x, t) \<in> (set (waits_of g))\<^sup>+) \<and>
    (\<forall>object requester. case SelfPagingGraph_server_of g object of
        Some server \<Rightarrow> fst (SelfPagingGraph_request_page_in g requester object) = Cycle \<longleftrightarrow>
          \<not> acyclic (insert (requester, server) (set (waits_of g)))
      | None \<Rightarrow> SelfPagingGraph_request_page_in g requester object = (Cycle, g))"
  using page_in_guard_parts [OF assms] by (simp split: option.split)

definition sample_paging :: SelfPagingGraph where
  "sample_paging =
     (let g1 = snd (SelfPagingGraph_bind (SelfPagingGraph_new 2) 100 1);
          g2 = snd (SelfPagingGraph_bind g1 200 2)
      in snd (SelfPagingGraph_request_page_in g2 1 200))"

theorem page_in_guard_exact_witness:
  "fst (SelfPagingGraph_request_page_in sample_paging 2 100) = Cycle \<and>
   \<not> acyclic (insert (2, 1) (set (waits_of sample_paging))) \<and> acyclic (set (waits_of sample_paging))"
proof -
  have run: "paging_run 2 sample_paging"
    unfolding sample_paging_def Let_def
    by (intro paging_run.request paging_run.bind paging_run.fresh) code_simp
  have srv: "SelfPagingGraph_server_of sample_paging 100 = Some 1"
    and cyc: "fst (SelfPagingGraph_request_page_in sample_paging 2 100) = Cycle" by code_simp+
  note t = page_in_guard_exact [OF run, THEN conjunct2, THEN conjunct2, rule_format, of 2 100, unfolded srv option.case]
  show ?thesis using t cyc page_in_guard_exact [OF run, THEN conjunct1] by blast
qed

text \<open>C39: The guard stops guarding when its table of in-flight page-ins is full. With as
  many page-ins in flight as the table has slots, two pagers that fault on each other's
  objects are both told their page-in will be served, and neither wait is recorded: the
  cycle the guard exists to break is left standing.\<close>
theorem full_wait_table_hides_cycle:
  assumes "sp_wait_count g = length (sp_waits g)" "a \<noteq> b"
    and "SelfPagingGraph_server_of g oa = Some b" "SelfPagingGraph_server_of g ob = Some a"
    and "\<not> SelfPagingGraph_reaches g a b" "\<not> SelfPagingGraph_reaches g b a"
  shows "SelfPagingGraph_request_page_in g a oa = (Served, g) \<and> SelfPagingGraph_request_page_in g b ob = (Served, g)"
  using assms by (simp add: SelfPagingGraph_request_page_in_def)

theorem full_wait_table_hides_cycle_witness:
  "let g = \<lparr> sp_bindings = [(100, 2), (200, 1)], sp_binding_count = 2,
             sp_waits = [(7, 2), (8, 2)], sp_wait_count = 2 \<rparr>
   in SelfPagingGraph_request_page_in g 1 100 = (Served, g) \<and> SelfPagingGraph_request_page_in g 2 200 = (Served, g)"
proof -
  let ?g = "\<lparr> sp_bindings = [(100, 2), (200, 1)], sp_binding_count = 2,
             sp_waits = [(7, 2), (8, 2)], sp_wait_count = 2 \<rparr>"
  have "sp_wait_count ?g = length (sp_waits ?g)" "(1 :: 32 word) \<noteq> 2" "SelfPagingGraph_server_of ?g 100 = Some 2"
    "SelfPagingGraph_server_of ?g 200 = Some 1" "\<not> SelfPagingGraph_reaches ?g 1 2" "\<not> SelfPagingGraph_reaches ?g 2 1"
    by code_simp+
  note t = full_wait_table_hides_cycle [OF this]
  show ?thesis using t by (simp add: Let_def)
qed

subsection \<open>Supervision\<close>

text \<open>The supervisor escalates once per \<open>escalate_after\<close> misses, as long as its 32-bit miss
  count has not wrapped.\<close>

lemma supervisor_escalates:
  assumes "k < 2 ^ 32" "s = ((\<lambda>s. snd (PageInSupervisor_record_miss s)) ^^ k) (PageInSupervisor_new d e)"
  shows "unat (ps_misses s) = k" and "unat (ps_escalations s) = k div unat (if e = 0 then 1 else e)"
    and "ps_escalate_after s = (if e = 0 then 1 else e)"
proof -
  have "unat (ps_misses s) = k \<and> unat (ps_escalations s) = k div unat (if e = 0 then 1 else e) \<and>
        ps_escalate_after s = (if e = 0 then 1 else e)"
    using assms
  proof (induction k arbitrary: s)
    case 0
    then show ?case by (simp add: PageInSupervisor_new_def)
  next
    case (Suc k)
    define t where "t = ((\<lambda>s. snd (PageInSupervisor_record_miss s)) ^^ k) (PageInSupervisor_new d e)"
    define n where "n = unat (if e = 0 then 1 else e)"
    have IH: "unat (ps_misses t) = k" "unat (ps_escalations t) = k div n" "ps_escalate_after t = (if e = 0 then 1 else e)"
      using Suc.IH [of t] Suc.prems(1) by (auto simp: t_def n_def)
    have s: "s = snd (PageInSupervisor_record_miss t)" using Suc.prems(2) by (simp add: t_def)
    have m: "unat (ps_misses t + 1) = Suc k" using IH(1) Suc.prems(1) by (simp add: unat_word_ariths)
    have "unat (ps_misses t + 1) mod n = 0 \<longleftrightarrow> (ps_misses t + 1) mod ps_escalate_after t = 0"
      using IH(3) by (simp add: n_def word_unat_eq_iff unat_mod_distrib)
    then have z: "(ps_misses t + 1) mod ps_escalate_after t = 0 \<longleftrightarrow> Suc k mod n = 0" using m by simp
    have "k div n + 1 < 2 ^ 32" using Suc.prems(1) div_le_dividend [of k n] by linarith
    then have e1: "unat (ps_escalations t + 1) = k div n + 1" using IH(2) by (simp add: unat_word_ariths)
    show ?case
      using m z e1 IH(2,3) by (auto simp: s PageInSupervisor_record_miss_def Let_def div_Suc simp flip: n_def)
  qed
  then show "unat (ps_misses s) = k" "unat (ps_escalations s) = k div unat (if e = 0 then 1 else e)"
    "ps_escalate_after s = (if e = 0 then 1 else e)" by auto
qed

end
