(* ===== verification/Memory.thy ===== *)
theory Memory
  imports Objects Frames Pager
begin

text \<open>
  Memory objects, \<^verbatim>\<open>kcore/src/memory.rs\<close>: the table of objects over one shared pool of
  frame slots, with an object's pages a contiguous run of slots, its holders, handling class,
  placement, device attachment and page cache. The capacities \<^verbatim>\<open>MAX_MEMORY_OBJECTS\<close> and
  \<^verbatim>\<open>MAX_FRAME_SLOTS\<close> are the lengths of the arrays; \<^verbatim>\<open>MAX_OBJECT_PAGES\<close> and
  \<^verbatim>\<open>MAX_CACHED_PAGES\<close> are fields of \<open>MemoryConfig\<close>.
\<close>

definition MEMORY_OBJECT_ID_BASE :: "32 word" where
  "MEMORY_OBJECT_ID_BASE = 0x1000"

definition MAX_HOLDERS :: nat where
  "MAX_HOLDERS = 4"

record MemoryConfig =
  MAX_OBJECT_PAGES :: nat
  MAX_CACHED_PAGES :: nat

record Placement =
  pl_device_contiguous :: bool
  pl_physically_contiguous :: bool
  pl_alignment :: "64 word"
  pl_address_limit :: "64 word"

definition Placement_default :: Placement where
  "Placement_default =
     \<lparr> pl_device_contiguous = False, pl_physically_contiguous = False, pl_alignment = 0, pl_address_limit = 0 \<rparr>"

fun contiguous_from :: "64 word \<Rightarrow> nat \<Rightarrow> PhysFrame option list \<Rightarrow> bool" where
  "contiguous_from base page [] = True"
| "contiguous_from base page (f # fs) =
     (case f of
        None \<Rightarrow> False
      | Some frame \<Rightarrow>
          if frame \<noteq> base + of_nat page * FRAME_SIZE then False else contiguous_from base (page + 1) fs)"

definition Placement_satisfied_by :: "Placement \<Rightarrow> PhysFrame option list \<Rightarrow> unit res" where
  "Placement_satisfied_by p frames =
     (case frames of
        Some first # _ \<Rightarrow>
          if pl_alignment p \<noteq> 0 \<and> first mod pl_alignment p \<noteq> 0 then Err OutOfMemory
          else if pl_physically_contiguous p \<and> \<not> contiguous_from first 0 frames then Err OutOfMemory
          else if pl_address_limit p \<noteq> 0 \<and>
                  (\<exists>frame \<in> set (flatten frames). frame + FRAME_SIZE - 1 > pl_address_limit p) then Err OutOfMemory
          else Ok ()
      | _ \<Rightarrow> Err OutOfMemory)"

datatype MemoryClass = Unclassified | Protected

definition MemoryClass_value :: "MemoryClass \<Rightarrow> 32 word" where
  "MemoryClass_value c = (case c of Unclassified \<Rightarrow> 0 | Protected \<Rightarrow> 1)"

definition attach_permitted :: "MemoryClass \<Rightarrow> Rights \<Rightarrow> bool" where
  "attach_permitted class device_rights =
     (case class of
        Unclassified \<Rightarrow> True
      | Protected \<Rightarrow> Rights_contains device_rights Rights_PROTECTED_DMA)"

record Attachment =
  at_device :: ObjectId
  at_address :: "64 word"
  at_len :: "64 word"
  at_scoped :: bool

record MemoryObject =
  mo_object :: ObjectId
  mo_holders :: "ObjectId option list"
  mo_base :: nat
  mo_pages :: nat
  mo_class :: MemoryClass
  mo_placement :: Placement
  mo_attached :: "Attachment option"
  mo_last_attachment :: "(ObjectId \<times> 64 word) option"
  mo_pager :: "ObjectId option"
  mo_served_by :: "ObjectId option"
  mo_faulted :: bool
  mo_cache :: ObjectCache

record MemoryTable =
  mt_objects :: "MemoryObject option list"
  mt_slots :: "PhysFrame option list"
  mt_taken :: "bool list"
  mt_next_id :: "32 word"

definition MemoryTable_new :: "nat \<Rightarrow> nat \<Rightarrow> MemoryTable" where
  "MemoryTable_new max_objects max_slots =
     \<lparr> mt_objects = replicate max_objects None, mt_slots = replicate max_slots None,
       mt_taken = replicate max_slots False, mt_next_id = MEMORY_OBJECT_ID_BASE \<rparr>"

subsection \<open>Runs of frame slots\<close>

function run_scan :: "bool list \<Rightarrow> nat \<Rightarrow> nat \<Rightarrow> nat option" where
  "run_scan taken pages at =
     (if at + pages \<le> length taken
      then case find (\<lambda>i. taken ! i) [at..<at + pages] of
             Some busy \<Rightarrow> run_scan taken pages (busy + 1)
           | None \<Rightarrow> Some at
      else None)"
  by pat_completeness auto
termination
  by (relation "measure (\<lambda>(taken, pages, at). length taken + 1 - at)") (auto simp: find_Some_iff)

declare run_scan.simps [simp del]

fun set_range :: "'a \<Rightarrow> nat \<Rightarrow> nat \<Rightarrow> 'a list \<Rightarrow> 'a list" where
  "set_range v at 0 xs = xs"
| "set_range v at (Suc n) xs = set_range v (at + 1) n (xs[at := v])"

definition MemoryTable_take_run :: "MemoryTable \<Rightarrow> nat \<Rightarrow> nat option \<times> MemoryTable" where
  "MemoryTable_take_run t pages =
     (if pages = 0 \<or> pages > length (mt_taken t) then (None, t)
      else case run_scan (mt_taken t) pages 0 of
        Some at \<Rightarrow> (Some at, t\<lparr>mt_taken := set_range True at pages (mt_taken t),
                              mt_slots := set_range None at pages (mt_slots t)\<rparr>)
      | None \<Rightarrow> (None, t))"

definition MemoryTable_free_run :: "MemoryTable \<Rightarrow> nat \<Rightarrow> nat \<Rightarrow> MemoryTable" where
  "MemoryTable_free_run t base pages =
     (let n = min (base + pages) (length (mt_taken t)) - base in
      t\<lparr>mt_taken := set_range False base n (mt_taken t), mt_slots := set_range None base n (mt_slots t)\<rparr>)"

definition MemoryTable_slots_in_use :: "MemoryTable \<Rightarrow> nat" where
  "MemoryTable_slots_in_use t = length (filter (\<lambda>b. b) (mt_taken t))"

definition MemoryTable_objects_in_use :: "MemoryTable \<Rightarrow> nat" where
  "MemoryTable_objects_in_use t = length (flatten (mt_objects t))"

definition run_of :: "PhysFrame option list \<Rightarrow> nat \<Rightarrow> nat \<Rightarrow> PhysFrame option list" where
  "run_of slots base pages = take pages (drop base slots)"

subsection \<open>Creation\<close>

fun draw_frames :: "'f FrameOps \<Rightarrow> nat \<Rightarrow> nat \<Rightarrow> PhysFrame option list \<Rightarrow> PhysMem \<Rightarrow> 'f
    \<Rightarrow> bool \<times> PhysFrame option list \<times> PhysMem \<times> 'f" where
  "draw_frames F at 0 slots mem alloc = (True, slots, mem, alloc)"
| "draw_frames F at (Suc n) slots mem alloc =
     (case alloc_frame F alloc of
        (Some frame, alloc') \<Rightarrow> draw_frames F (at + 1) n (slots[at := Some frame]) (zero_frame mem frame) alloc'
      | (None, alloc') \<Rightarrow> (False, slots, mem, alloc'))"

definition free_drawn :: "'f FrameOps \<Rightarrow> PhysFrame option list \<Rightarrow> 'f \<Rightarrow> 'f" where
  "free_drawn F frames alloc = foldl (free_frame F) alloc (flatten frames)"

definition DIRTY_LIMIT :: "MemoryConfig \<Rightarrow> 32 word" where
  "DIRTY_LIMIT cfg = of_nat (MAX_OBJECT_PAGES cfg div 2)"

definition sole_holder :: "ObjectId \<Rightarrow> ObjectId option list" where
  "sole_holder owner = (replicate MAX_HOLDERS None)[0 := Some owner]"

definition MemoryObject_new :: "MemoryConfig \<Rightarrow> ObjectId \<Rightarrow> ObjectId \<Rightarrow> nat \<Rightarrow> nat \<Rightarrow> Placement \<Rightarrow> ObjectId option \<Rightarrow> MemoryObject" where
  "MemoryObject_new cfg object owner base pages placement pager =
     \<lparr> mo_object = object, mo_holders = sole_holder owner, mo_base = base, mo_pages = pages,
       mo_class = Unclassified, mo_placement = placement, mo_attached = None, mo_last_attachment = None,
       mo_pager = pager, mo_served_by = (case pager of None \<Rightarrow> None | Some _ \<Rightarrow> Some owner),
       mo_faulted = False, mo_cache = ObjectCache_new (MAX_CACHED_PAGES cfg) (DIRTY_LIMIT cfg) \<rparr>"

definition MemoryTable_create :: "MemoryConfig \<Rightarrow> 'f FrameOps \<Rightarrow> MemoryTable \<Rightarrow> ObjectId \<Rightarrow> nat \<Rightarrow> Placement
    \<Rightarrow> PhysMem \<Rightarrow> 'f \<Rightarrow> ObjectId res \<times> MemoryTable \<times> PhysMem \<times> 'f" where
  "MemoryTable_create cfg F t owner pages placement mem alloc =
     (if pages = 0 \<or> pages > MAX_OBJECT_PAGES cfg then (Err InvalidMapping, t, mem, alloc)
      else case free_slot (mt_objects t) of
        None \<Rightarrow> (Err OutOfMemory, t, mem, alloc)
      | Some slot \<Rightarrow>
          (case MemoryTable_take_run t pages of
             (None, t1) \<Rightarrow> (Err OutOfFrameSlots, t1, mem, alloc)
           | (Some base, t1) \<Rightarrow>
               let object = ObjectId (mt_next_id t1) in
               (case draw_frames F base pages (mt_slots t1) mem alloc of
                  (False, slots, mem', alloc') \<Rightarrow>
                    (Err OutOfMemory, MemoryTable_free_run (t1\<lparr>mt_slots := slots\<rparr>) base pages, mem',
                     free_drawn F (run_of slots base pages) alloc')
                | (True, slots, mem', alloc') \<Rightarrow>
                    (case Placement_satisfied_by placement (run_of slots base pages) of
                       Err e \<Rightarrow>
                         (Err e, MemoryTable_free_run (t1\<lparr>mt_slots := slots\<rparr>) base pages, mem',
                          free_drawn F (run_of slots base pages) alloc')
                     | Ok _ \<Rightarrow>
                         (Ok object,
                          t1\<lparr>mt_slots := slots,
                             mt_objects := (mt_objects t1)[slot :=
                               Some (MemoryObject_new cfg object owner base pages placement None)],
                             mt_next_id := mt_next_id t1 + 1\<rparr>, mem', alloc')))))"

definition MemoryTable_create_paged :: "MemoryConfig \<Rightarrow> MemoryTable \<Rightarrow> ObjectId \<Rightarrow> nat \<Rightarrow> ObjectId \<Rightarrow> ObjectId res \<times> MemoryTable" where
  "MemoryTable_create_paged cfg t owner pages pager =
     (if pages = 0 \<or> pages > MAX_OBJECT_PAGES cfg then (Err InvalidMapping, t)
      else case free_slot (mt_objects t) of
        None \<Rightarrow> (Err OutOfMemory, t)
      | Some slot \<Rightarrow>
          (case MemoryTable_take_run t pages of
             (None, t1) \<Rightarrow> (Err OutOfFrameSlots, t1)
           | (Some base, t1) \<Rightarrow>
               let object = ObjectId (mt_next_id t1) in
               (Ok object,
                t1\<lparr>mt_objects := (mt_objects t1)[slot :=
                     Some (MemoryObject_new cfg object owner base pages Placement_default (Some pager))],
                   mt_next_id := mt_next_id t1 + 1\<rparr>)))"

subsection \<open>Lookups and updates of one object\<close>

definition MemoryTable_find :: "MemoryTable \<Rightarrow> ObjectId \<Rightarrow> MemoryObject option" where
  "MemoryTable_find t object = find (\<lambda>e. mo_object e = object) (flatten (mt_objects t))"

definition MemoryTable_set :: "MemoryTable \<Rightarrow> ObjectId \<Rightarrow> (MemoryObject \<Rightarrow> MemoryObject) \<Rightarrow> MemoryTable" where
  "MemoryTable_set t object f =
     (case position (\<lambda>s. case s of Some e \<Rightarrow> mo_object e = object | None \<Rightarrow> False) (mt_objects t) of
        None \<Rightarrow> t
      | Some i \<Rightarrow> t\<lparr>mt_objects := (mt_objects t)[i := map_option f (mt_objects t ! i)]\<rparr>)"

definition MemoryTable_pager_of :: "MemoryTable \<Rightarrow> ObjectId \<Rightarrow> ObjectId option" where
  "MemoryTable_pager_of t object = Option.bind (MemoryTable_find t object) mo_pager"

definition MemoryTable_served_by :: "MemoryTable \<Rightarrow> ObjectId \<Rightarrow> ObjectId option" where
  "MemoryTable_served_by t object = Option.bind (MemoryTable_find t object) mo_served_by"

definition MemoryTable_set_faulted :: "MemoryTable \<Rightarrow> ObjectId \<Rightarrow> MemoryTable" where
  "MemoryTable_set_faulted t object = MemoryTable_set t object (\<lambda>e. e\<lparr>mo_faulted := True\<rparr>)"

definition MemoryTable_evict_candidate :: "MemoryTable \<Rightarrow> ObjectId \<Rightarrow> 64 word option" where
  "MemoryTable_evict_candidate t object =
     Option.bind (MemoryTable_find t object) (\<lambda>e. ObjectCache_evict_candidate (mo_cache e))"

fun find_map :: "('a \<Rightarrow> 'b option) \<Rightarrow> 'a list \<Rightarrow> 'b option" where
  "find_map f [] = None"
| "find_map f (x # xs) = (case f x of Some y \<Rightarrow> Some y | None \<Rightarrow> find_map f xs)"

definition MemoryTable_any_evictable :: "MemoryTable \<Rightarrow> (ObjectId \<times> 64 word) option" where
  "MemoryTable_any_evictable t =
     find_map (\<lambda>e. if mo_pager e = None \<or> mo_faulted e then None
                   else map_option (\<lambda>offset. (mo_object e, offset)) (ObjectCache_evict_candidate (mo_cache e)))
       (flatten (mt_objects t))"

definition MemoryTable_any_dirty :: "MemoryConfig \<Rightarrow> MemoryTable \<Rightarrow> (ObjectId \<times> 64 word) option" where
  "MemoryTable_any_dirty cfg t =
     find_map (\<lambda>e. if mo_pager e = None \<or> mo_faulted e then None
                   else case ObjectCache_dirty_offsets (mo_cache e) (replicate (MAX_OBJECT_PAGES cfg) 0) of
                     (n, offsets) \<Rightarrow>
                       (case take n offsets of [] \<Rightarrow> None | offset # _ \<Rightarrow> Some (mo_object e, offset)))
       (flatten (mt_objects t))"

definition page_of_offset :: "64 word \<Rightarrow> nat" where
  "page_of_offset offset = unat (offset div FRAME_SIZE)"

definition MemoryTable_evict :: "MemoryTable \<Rightarrow> ObjectId \<Rightarrow> 64 word \<Rightarrow> PhysFrame option \<times> MemoryTable" where
  "MemoryTable_evict t object offset =
     (let page = page_of_offset offset in
      case MemoryTable_find t object of
        None \<Rightarrow> (None, t)
      | Some entry \<Rightarrow>
          if ObjectCache_is_dirty (mo_cache entry) offset \<or> page \<ge> mo_pages entry then (None, t)
          else case mt_slots t ! (mo_base entry + page) of
            None \<Rightarrow> (None, t)
          | Some frame \<Rightarrow>
              (Some frame,
               MemoryTable_set (t\<lparr>mt_slots := (mt_slots t)[mo_base entry + page := None]\<rparr>) object
                 (\<lambda>e. e\<lparr>mo_cache := ObjectCache_forget (mo_cache e) offset\<rparr>)))"

definition MemoryTable_is_faulted :: "MemoryTable \<Rightarrow> ObjectId \<Rightarrow> bool" where
  "MemoryTable_is_faulted t object = (case MemoryTable_find t object of Some e \<Rightarrow> mo_faulted e | None \<Rightarrow> False)"

definition MemoryTable_supply :: "MemoryTable \<Rightarrow> ObjectId \<Rightarrow> nat \<Rightarrow> PhysFrame \<Rightarrow> unit res \<times> MemoryTable" where
  "MemoryTable_supply t object page frame =
     (case MemoryTable_find t object of
        None \<Rightarrow> (Err BadHandle, t)
      | Some entry \<Rightarrow>
          if mo_pager entry = None then (Err InvalidMapping, t)
          else if page \<ge> mo_pages entry then (Err InvalidArgument, t)
          else if mt_slots t ! (mo_base entry + page) \<noteq> None then (Err AlreadyMapped, t)
          else let t1 = t\<lparr>mt_slots := (mt_slots t)[mo_base entry + page := Some frame]\<rparr> in
               case ObjectCache_install (mo_cache entry) (of_nat page * FRAME_SIZE) of
                 (Err e, c) \<Rightarrow> (Err e, MemoryTable_set t1 object (\<lambda>x. x\<lparr>mo_cache := c\<rparr>))
               | (Ok _, c) \<Rightarrow> (Ok (), MemoryTable_set t1 object (\<lambda>x. x\<lparr>mo_cache := c\<rparr>)))"

definition MemoryTable_mark_dirty :: "MemoryTable \<Rightarrow> ObjectId \<Rightarrow> 64 word \<Rightarrow> DirtyOutcome \<times> MemoryTable" where
  "MemoryTable_mark_dirty t object offset =
     (case MemoryTable_find t object of
        Some entry \<Rightarrow>
          (case ObjectCache_mark_dirty (mo_cache entry) offset of
             (r, c) \<Rightarrow> (r, MemoryTable_set t object (\<lambda>e. e\<lparr>mo_cache := c\<rparr>)))
      | None \<Rightarrow> (Throttle, t))"

definition MemoryTable_mark_clean :: "MemoryTable \<Rightarrow> ObjectId \<Rightarrow> 64 word \<Rightarrow> MemoryTable" where
  "MemoryTable_mark_clean t object offset =
     MemoryTable_set t object (\<lambda>e. e\<lparr>mo_cache := ObjectCache_mark_clean (mo_cache e) offset\<rparr>)"

definition MemoryTable_begin_write_back :: "MemoryTable \<Rightarrow> ObjectId \<Rightarrow> 64 word \<Rightarrow> MemoryTable" where
  "MemoryTable_begin_write_back t object offset =
     MemoryTable_set t object (\<lambda>e. e\<lparr>mo_cache := ObjectCache_begin_write_back (mo_cache e) offset\<rparr>)"

definition MemoryTable_end_write_back :: "MemoryTable \<Rightarrow> ObjectId \<Rightarrow> 64 word \<Rightarrow> bool \<times> MemoryTable" where
  "MemoryTable_end_write_back t object offset =
     (case MemoryTable_find t object of
        Some entry \<Rightarrow>
          (case ObjectCache_end_write_back (mo_cache entry) offset of
             (r, c) \<Rightarrow> (r, MemoryTable_set t object (\<lambda>e. e\<lparr>mo_cache := c\<rparr>)))
      | None \<Rightarrow> (False, t))"

definition MemoryTable_is_dirty :: "MemoryTable \<Rightarrow> ObjectId \<Rightarrow> 64 word \<Rightarrow> bool" where
  "MemoryTable_is_dirty t object offset =
     (case MemoryTable_find t object of Some e \<Rightarrow> ObjectCache_is_dirty (mo_cache e) offset | None \<Rightarrow> False)"

definition MemoryTable_dirty_count :: "MemoryTable \<Rightarrow> ObjectId \<Rightarrow> 32 word" where
  "MemoryTable_dirty_count t object =
     (case MemoryTable_find t object of Some e \<Rightarrow> ObjectCache_dirty_count (mo_cache e) | None \<Rightarrow> 0)"

definition MemoryTable_dirty_offsets :: "MemoryTable \<Rightarrow> ObjectId \<Rightarrow> 64 word list \<Rightarrow> nat \<times> 64 word list" where
  "MemoryTable_dirty_offsets t object out =
     (case MemoryTable_find t object of Some e \<Rightarrow> ObjectCache_dirty_offsets (mo_cache e) out | None \<Rightarrow> (0, out))"

definition MemoryTable_frame_at :: "MemoryTable \<Rightarrow> ObjectId \<Rightarrow> nat \<Rightarrow> PhysFrame option" where
  "MemoryTable_frame_at t object page =
     (case MemoryTable_find t object of
        None \<Rightarrow> None
      | Some entry \<Rightarrow> if page \<ge> mo_pages entry then None else mt_slots t ! (mo_base entry + page))"

definition MemoryTable_resident_pages :: "MemoryTable \<Rightarrow> ObjectId \<Rightarrow> nat" where
  "MemoryTable_resident_pages t object =
     (case MemoryTable_find t object of
        Some e \<Rightarrow> length (flatten (run_of (mt_slots t) (mo_base e) (mo_pages e)))
      | None \<Rightarrow> 0)"

definition MemoryTable_placement_of :: "MemoryTable \<Rightarrow> ObjectId \<Rightarrow> Placement option" where
  "MemoryTable_placement_of t object = map_option mo_placement (MemoryTable_find t object)"

subsection \<open>Classification\<close>

definition MemoryTable_classify :: "MemoryTable \<Rightarrow> ObjectId \<Rightarrow> MemoryClass \<Rightarrow> unit res \<times> MemoryTable" where
  "MemoryTable_classify t object class =
     (case MemoryTable_find t object of
        None \<Rightarrow> (Err WrongType, t)
      | Some entry \<Rightarrow>
          if MemoryClass_value class < MemoryClass_value (mo_class entry) then (Err AccessDenied, t)
          else (Ok (), MemoryTable_set t object (\<lambda>e. e\<lparr>mo_class := class\<rparr>)))"

definition MemoryTable_class_of :: "MemoryTable \<Rightarrow> ObjectId \<Rightarrow> MemoryClass option" where
  "MemoryTable_class_of t object = map_option mo_class (MemoryTable_find t object)"

subsection \<open>Holders\<close>

definition MemoryTable_set_sole_holder :: "MemoryTable \<Rightarrow> ObjectId \<Rightarrow> ObjectId \<Rightarrow> bool \<times> MemoryTable" where
  "MemoryTable_set_sole_holder t object owner =
     (case MemoryTable_find t object of
        Some _ \<Rightarrow> (True, MemoryTable_set t object (\<lambda>e. e\<lparr>mo_holders := sole_holder owner\<rparr>))
      | None \<Rightarrow> (False, t))"

definition MemoryTable_add_holder :: "MemoryTable \<Rightarrow> ObjectId \<Rightarrow> ObjectId \<Rightarrow> unit res \<times> MemoryTable" where
  "MemoryTable_add_holder t object holder =
     (case MemoryTable_find t object of
        None \<Rightarrow> (Err BadHandle, t)
      | Some entry \<Rightarrow>
          if holder \<in> set (flatten (mo_holders entry)) then (Ok (), t)
          else case free_slot (mo_holders entry) of
            Some slot \<Rightarrow> (Ok (), MemoryTable_set t object (\<lambda>e. e\<lparr>mo_holders := (mo_holders e)[slot := Some holder]\<rparr>))
          | None \<Rightarrow> (Err LimitExceeded, t))"

fun keep_holders :: "ObjectId list \<Rightarrow> nat \<Rightarrow> ObjectId option list \<Rightarrow> nat \<times> ObjectId option list" where
  "keep_holders [] n kept = (n, kept)"
| "keep_holders (held # rest) n kept = keep_holders rest (n + 1) (kept[n := Some held])"

definition MemoryTable_remove_holder :: "MemoryTable \<Rightarrow> ObjectId \<Rightarrow> ObjectId \<Rightarrow> bool \<times> MemoryTable" where
  "MemoryTable_remove_holder t object holder =
     (case MemoryTable_find t object of
        None \<Rightarrow> (False, t)
      | Some entry \<Rightarrow>
          (let cleared = map (\<lambda>slot. if slot = Some holder then None else slot) (mo_holders entry) in
           case keep_holders (flatten cleared) 0 (replicate MAX_HOLDERS None) of
             (n, kept) \<Rightarrow> (n > 0, MemoryTable_set t object (\<lambda>e. e\<lparr>mo_holders := kept\<rparr>))))"

definition MemoryTable_is_held_by :: "MemoryTable \<Rightarrow> ObjectId \<Rightarrow> ObjectId \<Rightarrow> bool" where
  "MemoryTable_is_held_by t object holder =
     (case MemoryTable_find t object of None \<Rightarrow> False | Some e \<Rightarrow> holder \<in> set (flatten (mo_holders e)))"

definition MemoryTable_holder_count :: "MemoryTable \<Rightarrow> ObjectId \<Rightarrow> nat option" where
  "MemoryTable_holder_count t object = map_option (\<lambda>e. length (flatten (mo_holders e))) (MemoryTable_find t object)"

definition MemoryTable_owner_of :: "MemoryTable \<Rightarrow> ObjectId \<Rightarrow> ObjectId option" where
  "MemoryTable_owner_of t object =
     Option.bind (MemoryTable_find t object)
       (\<lambda>e. case flatten (mo_holders e) of [] \<Rightarrow> None | h # _ \<Rightarrow> Some h)"

definition MemoryTable_objects_held_by :: "MemoryTable \<Rightarrow> ObjectId \<Rightarrow> nat \<Rightarrow> ObjectId list" where
  "MemoryTable_objects_held_by t holder out_len =
     take out_len (map mo_object (filter (\<lambda>e. holder \<in> set (flatten (mo_holders e))) (flatten (mt_objects t))))"

definition MemoryTable_pages_of :: "MemoryTable \<Rightarrow> ObjectId \<Rightarrow> nat option" where
  "MemoryTable_pages_of t object = map_option mo_pages (MemoryTable_find t object)"

definition MemoryTable_len_of :: "MemoryTable \<Rightarrow> ObjectId \<Rightarrow> 64 word option" where
  "MemoryTable_len_of t object = map_option (\<lambda>pages. of_nat pages * FRAME_SIZE) (MemoryTable_pages_of t object)"

definition MemoryTable_frames_of :: "MemoryTable \<Rightarrow> ObjectId \<Rightarrow> nat \<Rightarrow> PhysFrame list" where
  "MemoryTable_frames_of t object out_len =
     (case MemoryTable_find t object of
        None \<Rightarrow> []
      | Some e \<Rightarrow> take out_len (flatten (run_of (mt_slots t) (mo_base e) (mo_pages e))))"

subsection \<open>Destruction and device attachment\<close>

definition MemoryTable_destroy :: "'f FrameOps \<Rightarrow> MemoryTable \<Rightarrow> ObjectId \<Rightarrow> 'f \<Rightarrow> nat \<times> MemoryTable \<times> 'f" where
  "MemoryTable_destroy F t object alloc =
     (case position (\<lambda>s. case s of Some e \<Rightarrow> mo_object e = object | None \<Rightarrow> False) (mt_objects t) of
        None \<Rightarrow> (0, t, alloc)
      | Some slot \<Rightarrow>
          (case mt_objects t ! slot of
             None \<Rightarrow> (0, t\<lparr>mt_objects := (mt_objects t)[slot := None]\<rparr>, alloc)
           | Some entry \<Rightarrow>
               if mo_attached entry \<noteq> None then (0, t, alloc)
               else let frames = flatten (run_of (mt_slots t) (mo_base entry) (mo_pages entry));
                        t1 = MemoryTable_free_run t (mo_base entry) (mo_pages entry)
                    in (length frames, t1\<lparr>mt_objects := (mt_objects t1)[slot := None]\<rparr>, foldl (free_frame F) alloc frames)))"

definition MemoryTable_attach :: "MemoryTable \<Rightarrow> ObjectId \<Rightarrow> Attachment \<Rightarrow> unit res \<times> MemoryTable" where
  "MemoryTable_attach t object attachment =
     (case MemoryTable_find t object of
        None \<Rightarrow> (Err BadHandle, t)
      | Some entry \<Rightarrow>
          if mo_attached entry \<noteq> None then (Err AlreadyMapped, t)
          else (Ok (), MemoryTable_set t object (\<lambda>e. e\<lparr>mo_last_attachment := Some (at_device attachment, at_address attachment),
                                                        mo_attached := Some attachment\<rparr>)))"

definition MemoryTable_remembered_address :: "MemoryTable \<Rightarrow> ObjectId \<Rightarrow> ObjectId \<Rightarrow> 64 word option" where
  "MemoryTable_remembered_address t object device =
     Option.bind (Option.bind (MemoryTable_find t object) mo_last_attachment)
       (\<lambda>(at, address). if at = device then Some address else None)"

definition MemoryTable_forget_last_attachment :: "MemoryTable \<Rightarrow> ObjectId \<Rightarrow> MemoryTable" where
  "MemoryTable_forget_last_attachment t object = MemoryTable_set t object (\<lambda>e. e\<lparr>mo_last_attachment := None\<rparr>)"

definition MemoryTable_detach :: "MemoryTable \<Rightarrow> ObjectId \<Rightarrow> Attachment option \<times> MemoryTable" where
  "MemoryTable_detach t object =
     (Option.bind (MemoryTable_find t object) mo_attached, MemoryTable_set t object (\<lambda>e. e\<lparr>mo_attached := None\<rparr>))"

definition MemoryTable_attachment_of :: "MemoryTable \<Rightarrow> ObjectId \<Rightarrow> Attachment option" where
  "MemoryTable_attachment_of t object = Option.bind (MemoryTable_find t object) mo_attached"

definition MemoryTable_objects_attached_to :: "MemoryTable \<Rightarrow> ObjectId \<Rightarrow> nat \<Rightarrow> ObjectId list" where
  "MemoryTable_objects_attached_to t device out_len =
     take out_len (map mo_object (filter (\<lambda>e. case mo_attached e of Some a \<Rightarrow> at_device a = device | None \<Rightarrow> False)
       (flatten (mt_objects t))))"

subsection \<open>Runs: first fit\<close>

lemma length_set_range [simp]: "length (set_range v at n xs) = length xs"
  by (induction n arbitrary: at xs) auto

lemma nth_set_range:
  "i < length xs \<Longrightarrow> set_range v at n xs ! i = (if at \<le> i \<and> i < at + n then v else xs ! i)"
  by (induction n arbitrary: at xs) (auto simp: nth_list_update)

lemma set_range_id: "(\<And>i. at \<le> i \<Longrightarrow> i < at + n \<Longrightarrow> i < length xs \<Longrightarrow> xs ! i = v) \<Longrightarrow> set_range v at n xs = xs"
  by (rule nth_equalityI) (auto simp: nth_set_range)

definition run_free :: "bool list \<Rightarrow> nat \<Rightarrow> nat \<Rightarrow> bool" where
  "run_free taken pages at \<longleftrightarrow> at + pages \<le> length taken \<and> (\<forall>i. at \<le> i \<and> i < at + pages \<longrightarrow> \<not> taken ! i)"

lemma find_upt_Some:
  assumes "find P [a..<b] = Some i"
  shows "a \<le> i" "i < b" "P i"
  using assms by (auto simp: find_Some_iff)

lemma run_scan_spec:
  "case run_scan taken pages at of
     Some b \<Rightarrow> at \<le> b \<and> run_free taken pages b \<and> (\<forall>c. at \<le> c \<and> c < b \<longrightarrow> \<not> run_free taken pages c)
   | None \<Rightarrow> (\<forall>c \<ge> at. \<not> run_free taken pages c)"
proof (induction taken pages at rule: run_scan.induct)
  case (1 taken pages at)
  show ?case
  proof (cases "at + pages \<le> length taken")
    case False
    then show ?thesis by (simp add: run_scan.simps [of taken pages at] run_free_def)
  next
    case True
    show ?thesis
    proof (cases "find (\<lambda>i. taken ! i) [at..<at + pages]")
      case None
      then have "run_free taken pages at" using True by (auto simp: run_free_def find_None_iff)
      with True None show ?thesis by (auto simp: run_scan.simps [of taken pages at])
    next
      case (Some busy)
      note b = find_upt_Some [OF Some]
      have no: "\<not> run_free taken pages c" if "at \<le> c" "c \<le> busy" for c
        using that b(2,3) by (auto simp: run_free_def)
      have eq: "run_scan taken pages at = run_scan taken pages (busy + 1)"
        using True Some by (simp add: run_scan.simps [of taken pages at])
      have IH: "case run_scan taken pages (busy + 1) of
         Some b \<Rightarrow> busy + 1 \<le> b \<and> run_free taken pages b \<and> (\<forall>c. busy + 1 \<le> c \<and> c < b \<longrightarrow> \<not> run_free taken pages c)
       | None \<Rightarrow> (\<forall>c \<ge> busy + 1. \<not> run_free taken pages c)"
        by (rule 1 [OF True Some])
      show ?thesis
      proof (cases "run_scan taken pages (busy + 1)")
        case None
        with IH have "\<not> run_free taken pages c" if "busy + 1 \<le> c" for c using that by simp
        with no None show ?thesis by (simp add: eq) (metis Suc_leI not_less)
      next
        case (Some b')
        with IH have b': "busy + 1 \<le> b'" "run_free taken pages b'" by auto
        have "\<not> run_free taken pages c" if "busy + 1 \<le> c" "c < b'" for c using that IH Some by auto
        with no have "\<not> run_free taken pages c" if "at \<le> c" "c < b'" for c using that by (metis Suc_eq_plus1 not_less_eq_eq)
        with Some b' b(1) show ?thesis by (simp add: eq)
      qed
    qed
  qed
qed

lemma take_run_Some:
  assumes "MemoryTable_take_run t pages = (Some base, t')"
  shows "0 < pages" and "run_free (mt_taken t) pages base"
    and "t' = t\<lparr>mt_taken := set_range True base pages (mt_taken t), mt_slots := set_range None base pages (mt_slots t)\<rparr>"
    and "\<forall>c < base. \<not> run_free (mt_taken t) pages c"
  using assms run_scan_spec [where taken = "mt_taken t" and pages = pages and at = 0]
  by (auto simp: MemoryTable_take_run_def split: if_splits option.splits)

lemma take_run_None:
  assumes "MemoryTable_take_run t pages = (None, t')"
  shows "t' = t" and "pages = 0 \<or> (\<forall>c. \<not> run_free (mt_taken t) pages c)"
  using assms run_scan_spec [where taken = "mt_taken t" and pages = pages and at = 0]
  by (auto simp: MemoryTable_take_run_def run_free_def split: if_splits option.splits)

subsection \<open>The invariant of the table\<close>

definition in_run :: "MemoryObject \<Rightarrow> nat \<Rightarrow> bool" where
  "in_run e i \<longleftrightarrow> mo_base e \<le> i \<and> i < mo_base e + mo_pages e"

definition entries :: "MemoryTable \<Rightarrow> MemoryObject set" where
  "entries t = set (flatten (mt_objects t))"

definition mem_wf :: "MemoryConfig \<Rightarrow> MemoryTable \<Rightarrow> bool" where
  "mem_wf cfg t \<longleftrightarrow>
     distinct_keys mo_object (mt_objects t) \<and> length (mt_taken t) = length (mt_slots t) \<and>
     (\<forall>e \<in> entries t. 0 < mo_pages e \<and> mo_pages e \<le> MAX_OBJECT_PAGES cfg \<and> mo_base e + mo_pages e \<le> length (mt_slots t)) \<and>
     (\<forall>e \<in> entries t. \<forall>e' \<in> entries t. \<forall>i. in_run e i \<longrightarrow> in_run e' i \<longrightarrow> e = e') \<and>
     (\<forall>i < length (mt_slots t). mt_taken t ! i \<longleftrightarrow> (\<exists>e \<in> entries t. in_run e i)) \<and>
     (\<forall>i < length (mt_slots t). mt_slots t ! i \<noteq> None \<longrightarrow> mt_taken t ! i)"

lemma mem_wfD:
  assumes "mem_wf cfg t"
  shows "distinct_keys mo_object (mt_objects t)" "length (mt_taken t) = length (mt_slots t)"
    "\<And>e. e \<in> entries t \<Longrightarrow> 0 < mo_pages e" "\<And>e. e \<in> entries t \<Longrightarrow> mo_pages e \<le> MAX_OBJECT_PAGES cfg"
    "\<And>e. e \<in> entries t \<Longrightarrow> mo_base e + mo_pages e \<le> length (mt_slots t)"
    "\<And>e e' i. e \<in> entries t \<Longrightarrow> e' \<in> entries t \<Longrightarrow> in_run e i \<Longrightarrow> in_run e' i \<Longrightarrow> e = e'"
    "\<And>i. i < length (mt_slots t) \<Longrightarrow> mt_taken t ! i \<longleftrightarrow> (\<exists>e \<in> entries t. in_run e i)"
    "\<And>i. i < length (mt_slots t) \<Longrightarrow> mt_slots t ! i \<noteq> None \<Longrightarrow> mt_taken t ! i"
  using assms by (auto simp: mem_wf_def)

lemma find_lookup: "MemoryTable_find t = key_lookup mo_object (mt_objects t)"
  by (simp add: MemoryTable_find_def key_lookup_def fun_eq_iff)

lemma find_entry: "mem_wf cfg t \<Longrightarrow> MemoryTable_find t x = Some e \<longleftrightarrow> e \<in> entries t \<and> mo_object e = x"
  by (simp add: find_lookup key_lookup_iff mem_wfD(1) entries_def)

lemma MemoryTable_new_wf [simp]: "mem_wf cfg (MemoryTable_new n k)"
  by (simp add: mem_wf_def MemoryTable_new_def entries_def)

lemma set_position: "position (\<lambda>s. case s of Some e \<Rightarrow> mo_object e = object | None \<Rightarrow> False) xs = find_key mo_object xs object"
  by (simp add: find_key_def)

text \<open>Writing an object in place, when its run and its id stay as they are.\<close>

lemma MemoryTable_set_frame [simp]:
  "mt_slots (MemoryTable_set t x f) = mt_slots t" "mt_taken (MemoryTable_set t x f) = mt_taken t"
  "mt_next_id (MemoryTable_set t x f) = mt_next_id t" "length (mt_objects (MemoryTable_set t x f)) = length (mt_objects t)"
  by (auto simp: MemoryTable_set_def split: option.splits)

lemma set_spec:
  assumes "distinct_keys mo_object (mt_objects t)" "MemoryTable_find t x = Some e" "mo_object (f e) = x"
  shows "MemoryTable_find (MemoryTable_set t x f) = (MemoryTable_find t)(x \<mapsto> f e)"
    and "distinct_keys mo_object (mt_objects (MemoryTable_set t x f))"
    and "entries (MemoryTable_set t x f) = insert (f e) (entries t - {e})"
proof -
  obtain i where i: "find_key mo_object (mt_objects t) x = Some i"
    using assms(2) by (cases "find_key mo_object (mt_objects t) x") (auto simp: find_lookup find_key_None_iff)
  then obtain v where v: "i < length (mt_objects t)" "mt_objects t ! i = Some v" "mo_object v = x" "key_lookup mo_object (mt_objects t) x = Some v"
    by (rule find_key_SomeD)
  have "v = e" using v(4) assms(2) by (simp add: find_lookup)
  have s: "MemoryTable_set t x f = t\<lparr>mt_objects := (mt_objects t)[i := Some (f e)]\<rparr>"
    using v \<open>v = e\<close> i by (simp add: MemoryTable_set_def set_position)
  have k: "mo_object (f e) = mo_object v" using assms(3) v(3) by simp
  note r = key_replace [OF v(1,2) k assms(1)]
  show "MemoryTable_find (MemoryTable_set t x f) = (MemoryTable_find t)(x \<mapsto> f e)"
    "distinct_keys mo_object (mt_objects (MemoryTable_set t x f))"
    using r(1,2) v(3) by (simp_all add: s find_lookup)
  have "u \<in> set (flatten (mt_objects t)) \<and> mo_object u \<noteq> mo_object v \<longleftrightarrow> u \<in> entries t - {e}" for u
    using key_lookup_mem [OF assms(1), of u] v(3,4) \<open>v = e\<close> nth_in_flatten [OF v(1,2)] by (auto simp: entries_def)
  then show "entries (MemoryTable_set t x f) = insert (f e) (entries t - {e})"
    using r(3) by (auto simp: s entries_def)
qed

lemma set_None: "MemoryTable_find t x = None \<Longrightarrow> MemoryTable_set t x f = t"
  by (simp add: MemoryTable_set_def set_position find_lookup find_key_None_iff [THEN iffD2])

lemma set_wf:
  assumes "mem_wf cfg t" "\<And>e. mo_object (f e) = mo_object e" "\<And>e. mo_base (f e) = mo_base e" "\<And>e. mo_pages (f e) = mo_pages e"
  shows "mem_wf cfg (MemoryTable_set t x f)"
proof (cases "MemoryTable_find t x")
  case None
  then show ?thesis using assms(1) by (simp add: set_None)
next
  case (Some e)
  have e: "e \<in> entries t" "mo_object e = x" using Some find_entry [OF assms(1)] by auto
  have ir: "in_run (f e) = in_run e" by (simp add: in_run_def fun_eq_iff assms)
  note w = mem_wfD [OF assms(1)]
  have "mo_object (f e) = x" using assms(2) e(2) by simp
  note s = set_spec [where f = f, OF w(1) Some this]
  have d: "(\<exists>u \<in> insert (f e) (entries t - {e}). in_run u i) \<longleftrightarrow> (\<exists>u \<in> entries t. in_run u i)" for i
    using e(1) ir by auto
  have g: "\<exists>a' \<in> entries t. in_run a' i \<and> (a = f e \<and> a' = e \<or> a' = a \<and> a \<noteq> e)"
    if "a \<in> insert (f e) (entries t - {e})" "in_run a i" for a i
    using that e(1) ir by auto
  have u: "a = b" if "a \<in> insert (f e) (entries t - {e})" "b \<in> insert (f e) (entries t - {e})" "in_run a i" "in_run b i" for a b i
  proof -
    from g [OF that(1,3)] obtain a' where a': "a' \<in> entries t" "in_run a' i" "a = f e \<and> a' = e \<or> a' = a \<and> a \<noteq> e" by blast
    from g [OF that(2,4)] obtain b' where b': "b' \<in> entries t" "in_run b' i" "b = f e \<and> b' = e \<or> b' = b \<and> b \<noteq> e" by blast
    have "a' = b'" by (rule w(6) [OF a'(1) b'(1) a'(2) b'(2)])
    with a'(3) b'(3) show ?thesis by auto
  qed
  show ?thesis
    unfolding mem_wf_def s(3)
  proof (intro conjI ballI allI impI)
    fix a b i assume "a \<in> insert (f e) (entries t - {e})" "b \<in> insert (f e) (entries t - {e})" "in_run a i" "in_run b i"
    then show "a = b" by (rule u)
  qed (use s(2) w(2-5,7,8) d e(1) assms(3,4) in auto)
qed

subsection \<open>Taking and giving back a run\<close>

lemma run_split: "b + n \<le> length xs \<Longrightarrow> xs = take b xs @ run_of xs b n @ drop (b + n) xs"
  by (simp add: run_of_def) (metis append_take_drop_id drop_drop add.commute)

lemma nth_run_of: "b + n \<le> length xs \<Longrightarrow> i < n \<Longrightarrow> run_of xs b n ! i = xs ! (b + i)"
  by (simp add: run_of_def)

lemma length_run_of [simp]: "b + n \<le> length xs \<Longrightarrow> length (run_of xs b n) = n"
  by (simp add: run_of_def)

lemma flatten_none: "(\<And>i. i < length xs \<Longrightarrow> xs ! i = None) \<Longrightarrow> flatten xs = []"
  by (metis flatten_replicate_None nth_equalityI length_replicate nth_replicate)

lemma set_range_split: "b + n \<le> length xs \<Longrightarrow> set_range v b n xs = take b xs @ replicate n v @ drop (b + n) xs"
  by (rule nth_equalityI) (auto simp: nth_set_range nth_append min_def)

lemma flatten_set_range:
  "b + n \<le> length xs \<Longrightarrow> mset (flatten xs) = mset (flatten (run_of xs b n)) + mset (flatten (set_range None b n xs))"
  using arg_cong [OF run_split, of b n xs flatten] by (simp add: set_range_split)

lemma taken_run_empty:
  assumes "mem_wf cfg t" "run_free (mt_taken t) pages base"
  shows "base + pages \<le> length (mt_slots t)" and "\<And>i. base \<le> i \<Longrightarrow> i < base + pages \<Longrightarrow> mt_slots t ! i = None"
    and "set_range None base pages (mt_slots t) = mt_slots t"
proof -
  note w = mem_wfD [OF assms(1)]
  show l: "base + pages \<le> length (mt_slots t)" using assms(2) w(2) by (simp add: run_free_def)
  show n: "mt_slots t ! i = None" if "base \<le> i" "i < base + pages" for i
    using that assms(2) l w(8) [of i] by (cases "mt_slots t ! i") (auto simp: run_free_def)
  then show "set_range None base pages (mt_slots t) = mt_slots t" by (intro set_range_id) auto
qed

lemma insert_object_wf:
  assumes wf: "mem_wf cfg t" and r: "run_free (mt_taken t) pages base" and p: "0 < pages" "pages \<le> MAX_OBJECT_PAGES cfg"
    and sl: "free_slot (mt_objects t) = Some slot" and fresh: "MemoryTable_find t (mo_object e) = None"
    and e: "mo_base e = base" "mo_pages e = pages"
    and slots: "length slots = length (mt_slots t)"
      "\<And>i. i < length slots \<Longrightarrow> \<not> (base \<le> i \<and> i < base + pages) \<Longrightarrow> slots ! i = mt_slots t ! i"
    and t': "t' = t\<lparr>mt_taken := set_range True base pages (mt_taken t), mt_slots := slots,
                    mt_objects := (mt_objects t)[slot := Some e], mt_next_id := n\<rparr>"
  shows "mem_wf cfg t'" and "MemoryTable_find t' = (MemoryTable_find t)(mo_object e \<mapsto> e)" and "entries t' = insert e (entries t)"
proof -
  note w = mem_wfD [OF wf]
  have f: "slot < length (mt_objects t)" "mt_objects t ! slot = None" using free_slotD [OF sl] by auto
  have k: "key_lookup mo_object (mt_objects t) (mo_object e) = None" using fresh by (simp add: find_lookup)
  note kf = key_fill [OF f w(1) k]
  show "MemoryTable_find t' = (MemoryTable_find t)(mo_object e \<mapsto> e)" by (simp add: find_lookup t' kf(2))
  show en: "entries t' = insert e (entries t)" by (simp add: entries_def t' flatten_fill_set [OF f])
  have ir: "in_run e i \<longleftrightarrow> base \<le> i \<and> i < base + pages" for i using e by (simp add: in_run_def)
  have l: "base + pages \<le> length (mt_slots t)" by (rule taken_run_empty(1) [OF wf r])
  have dis: "\<not> in_run e' i" if "e' \<in> entries t" "in_run e i" for e' i
  proof
    assume "in_run e' i"
    then have "mt_taken t ! i" using w(7) [of i] that l ir by auto
    with r that ir show False by (simp add: run_free_def)
  qed
  have tk: "mt_taken t' ! i \<longleftrightarrow> in_run e i \<or> mt_taken t ! i" if "i < length (mt_slots t)" for i
    using that w(2) by (auto simp: t' nth_set_range ir)
  show "mem_wf cfg t'"
    unfolding mem_wf_def en
  proof (intro conjI ballI allI impI)
    fix a b i assume "a \<in> insert e (entries t)" "b \<in> insert e (entries t)" "in_run a i" "in_run b i"
    then show "a = b" using dis w(6) by (metis insertE)
  next
    fix i assume "i < length (mt_slots t')"
    then have i: "i < length (mt_slots t)" by (simp add: t' slots(1))
    show "mt_taken t' ! i = (\<exists>e \<in> insert e (entries t). in_run e i)" using tk [OF i] w(7) [OF i] by auto
    assume "mt_slots t' ! i \<noteq> None"
    then have s: "slots ! i \<noteq> None" by (simp add: t')
    show "mt_taken t' ! i"
    proof (cases "in_run e i")
      case False
      then have "mt_slots t ! i \<noteq> None" using s slots i ir by auto
      then show ?thesis using tk [OF i] w(8) [OF i] by simp
    qed (use tk [OF i] in simp)
  qed (use kf(1) w(2-5) p e l slots(1) in \<open>auto simp: t'\<close>)
qed

lemma free_run_spec:
  assumes "base + pages \<le> length (mt_taken t)"
  shows "MemoryTable_free_run t base pages =
    t\<lparr>mt_taken := set_range False base pages (mt_taken t), mt_slots := set_range None base pages (mt_slots t)\<rparr>"
  using assms by (simp add: MemoryTable_free_run_def Let_def)

lemma undo_take_run:
  assumes wf: "mem_wf cfg t" and r: "run_free (mt_taken t) pages base"
    and slots: "length slots = length (mt_slots t)"
      "\<And>i. i < length slots \<Longrightarrow> \<not> (base \<le> i \<and> i < base + pages) \<Longrightarrow> slots ! i = mt_slots t ! i"
  shows "MemoryTable_free_run (t\<lparr>mt_taken := set_range True base pages (mt_taken t), mt_slots := slots\<rparr>) base pages = t"
proof -
  note w = mem_wfD [OF wf]
  note m = taken_run_empty [OF wf r]
  have a: "set_range False base pages (set_range True base pages (mt_taken t)) = mt_taken t"
    using r w(2) m(1) by (intro nth_equalityI) (auto simp: nth_set_range run_free_def)
  have b: "set_range None base pages slots = mt_slots t"
  proof (rule nth_equalityI)
    fix i assume "i < length (set_range None base pages slots)"
    then have "i < length slots" by simp
    then show "set_range None base pages slots ! i = mt_slots t ! i"
      using slots(2) [of i] m(2) [of i] by (cases "base \<le> i \<and> i < base + pages") (auto simp: nth_set_range)
  qed (simp add: slots(1))
  show ?thesis using m(1) w(2) by (simp add: free_run_spec a b)
qed

lemma destroy_spec:
  assumes "mem_wf cfg t" "MemoryTable_find t x = Some e" "mo_attached e = None" "MemoryTable_destroy F t x alloc = (n, t', alloc')"
  defines "frames \<equiv> flatten (run_of (mt_slots t) (mo_base e) (mo_pages e))"
  shows "mem_wf cfg t'" and "MemoryTable_find t' = (MemoryTable_find t)(x := None)"
    and "alloc' = foldl (free_frame F) alloc frames" and "n = length frames"
    and "mset (flatten (mt_slots t)) = mset frames + mset (flatten (mt_slots t'))" and "entries t' = entries t - {e}"
    and "mt_next_id t' = mt_next_id t" and "length (mt_slots t') = length (mt_slots t)"
    and "mt_slots t' = set_range None (mo_base e) (mo_pages e) (mt_slots t)"
proof -
  note w = mem_wfD [OF assms(1)]
  obtain i where i: "find_key mo_object (mt_objects t) x = Some i"
    using assms(2) by (cases "find_key mo_object (mt_objects t) x") (auto simp: find_lookup find_key_None_iff)
  then obtain v where v: "i < length (mt_objects t)" "mt_objects t ! i = Some v" "mo_object v = x" "key_lookup mo_object (mt_objects t) x = Some v"
    by (rule find_key_SomeD)
  have ve: "v = e" using v(4) assms(2) by (simp add: find_lookup)
  have e: "e \<in> entries t" using assms(2) find_entry [OF assms(1)] by auto
  note l = w(5) [OF e]
  let ?t = "t\<lparr>mt_taken := set_range False (mo_base e) (mo_pages e) (mt_taken t),
              mt_slots := set_range None (mo_base e) (mo_pages e) (mt_slots t), mt_objects := (mt_objects t)[i := None]\<rparr>"
  have fr: "MemoryTable_free_run t (mo_base e) (mo_pages e) =
      t\<lparr>mt_taken := set_range False (mo_base e) (mo_pages e) (mt_taken t), mt_slots := set_range None (mo_base e) (mo_pages e) (mt_slots t)\<rparr>"
    by (rule free_run_spec) (use l w(2) in simp)
  have eqs: "n = length frames" "t' = ?t" "alloc' = foldl (free_frame F) alloc frames"
    using assms(3,4) v(2) ve i by (auto simp: MemoryTable_destroy_def set_position fr frames_def Let_def)
  then show "n = length frames" "alloc' = foldl (free_frame F) alloc frames" "mt_next_id t' = mt_next_id t"
    "length (mt_slots t') = length (mt_slots t)" "mt_slots t' = set_range None (mo_base e) (mo_pages e) (mt_slots t)" by simp_all
  note kc = key_clear [OF v(1,2) w(1)]
  show "MemoryTable_find t' = (MemoryTable_find t)(x := None)" by (simp add: eqs find_lookup kc(2) v(3))
  show en: "entries t' = entries t - {e}"
  proof -
    have iff: "mo_object u = x \<longleftrightarrow> u = e" if "u \<in> set (flatten (mt_objects t))" for u
      using key_lookup_iff [OF w(1), of x u] that v(3,4) ve by auto
    show ?thesis
    proof (rule set_eqI)
      fix u
      have "u \<in> entries t' \<longleftrightarrow> u \<in> set (flatten (mt_objects t)) \<and> mo_object u \<noteq> x"
        using kc(3) [of u] v(3) by (simp add: eqs entries_def)
      with iff [of u] show "u \<in> entries t' \<longleftrightarrow> u \<in> entries t - {e}" by (auto simp: entries_def)
    qed
  qed
  show "mset (flatten (mt_slots t)) = mset frames + mset (flatten (mt_slots t'))"
    using flatten_set_range [OF l] by (simp add: eqs frames_def)
  show "mem_wf cfg t'"
    unfolding mem_wf_def en
  proof (intro conjI ballI allI impI)
    fix a b k assume "a \<in> entries t - {e}" "b \<in> entries t - {e}" "in_run a k" "in_run b k"
    then show "a = b" using w(6) by blast
  next
    fix k assume "k < length (mt_slots t')"
    then have k: "k < length (mt_slots t)" by (simp add: eqs)
    have tk: "mt_taken t' ! k \<longleftrightarrow> \<not> in_run e k \<and> mt_taken t ! k"
      using k w(2) by (auto simp: eqs nth_set_range in_run_def)
    show "mt_taken t' ! k = (\<exists>u \<in> entries t - {e}. in_run u k)"
      using tk w(7) [OF k] w(6) e by blast
    assume s: "mt_slots t' ! k \<noteq> None"
    then show "mt_taken t' ! k" using tk k w(8) [OF k] by (auto simp: eqs nth_set_range in_run_def split: if_splits)
  qed (use kc(1) w(2-5) in \<open>auto simp: eqs\<close>)
qed

subsection \<open>Frames of the table\<close>

context frame_source
begin

lemma draw_frames_spec:
  assumes "frames_ok s M" "at + n \<le> length slots" "draw_frames F at n slots mem s = (done, slots', mem', s')"
  shows "\<exists>fs. length fs \<le> n \<and> (done \<longrightarrow> length fs = n) \<and> slots' = take at slots @ map Some fs @ drop (at + length fs) slots \<and>
      frames_ok s' (mset fs + M) \<and> distinct fs \<and> (\<forall>f \<in> set fs. f \<notin># M \<and> is_aligned f FRAME_SIZE \<and> mem' f = replicate 4096 0) \<and>
      (\<forall>g. g \<notin> set fs \<longrightarrow> mem' g = mem g)"
  using assms
proof (induction n arbitrary: at slots mem s M)
  case 0
  then show ?case by (intro exI [of _ "[]"]) auto
next
  case (Suc n)
  obtain r s1 where a: "alloc_frame F s = (r, s1)" by fastforce
  show ?case
  proof (cases r)
    case None
    have "frames_ok s1 M" by (rule alloc_exhausted [OF Suc.prems(1)]) (use a None in simp)
    then show ?thesis using Suc.prems a None by (intro exI [of _ "[]"]) auto
  next
    case (Some f)
    note af = alloc_fresh [OF Suc.prems(1) a [unfolded Some]]
    have d: "draw_frames F (at + 1) n (slots[at := Some f]) (zero_frame mem f) s1 = (done, slots', mem', s')"
      using Suc.prems(3) a Some by simp
    have l: "at + 1 + n \<le> length (slots[at := Some f])" using Suc.prems(2) by simp
    from Suc.IH [OF _ l d, of "add_mset f M"] af obtain fs where fs: "length fs \<le> n" "done \<longrightarrow> length fs = n"
      "slots' = take (at + 1) (slots[at := Some f]) @ map Some fs @ drop (at + 1 + length fs) (slots[at := Some f])"
      "frames_ok s' (mset fs + add_mset f M)" "distinct fs"
      "\<forall>g \<in> set fs. g \<notin># add_mset f M \<and> is_aligned g FRAME_SIZE \<and> mem' g = replicate 4096 0"
      "\<forall>g. g \<notin> set fs \<longrightarrow> mem' g = zero_frame mem f g" by blast
    have "f \<notin> set fs" using fs(6) by auto
    moreover then have "mem' f = replicate 4096 0" using fs(7) by (simp add: zero_frame_def)
    moreover have "take (at + 1) (slots[at := Some f]) = take at slots @ [Some f]"
      using Suc.prems(2) by (simp add: take_Suc_conv_app_nth)
    moreover have "drop (at + 1 + length fs) (slots[at := Some f]) = drop (at + 1 + length fs) slots" by simp
    ultimately show ?thesis
      using fs af by (intro exI [of _ "f # fs"]) (auto simp: zero_frame_def)
  qed
qed

text \<open>Creation either delivers zeroed frames nobody else holds, or leaves the table as it was
  and the allocator with what it held.\<close>

lemma memory_create_spec:
  assumes wf: "mem_wf cfg t" and ok: "frames_ok s M" and fresh: "MemoryTable_find t (ObjectId (mt_next_id t)) = None"
    and c: "MemoryTable_create cfg F t owner pages placement mem s = (r, t', mem', s')"
  shows "case r of
      Err _ \<Rightarrow> t' = t \<and> frames_ok s' M
    | Ok x \<Rightarrow> x = ObjectId (mt_next_id t) \<and> mt_next_id t' = mt_next_id t + 1 \<and> mem_wf cfg t' \<and>
        (\<exists>base fs. let e = MemoryObject_new cfg x owner base pages placement None in
           MemoryTable_find t' = (MemoryTable_find t)(x \<mapsto> e) \<and> entries t' = insert e (entries t) \<and>
           length fs = pages \<and> 0 < pages \<and> pages \<le> MAX_OBJECT_PAGES cfg \<and> run_free (mt_taken t) pages base \<and>
           mt_slots t' = take base (mt_slots t) @ map Some fs @ drop (base + pages) (mt_slots t) \<and>
           frames_ok s' (mset fs + M) \<and> distinct fs \<and>
           Placement_satisfied_by placement (map Some fs) = Ok () \<and>
           (\<forall>f \<in> set fs. f \<notin># M \<and> is_aligned f FRAME_SIZE \<and> mem' f = replicate 4096 0) \<and>
           (\<forall>g. g \<notin> set fs \<longrightarrow> mem' g = mem g))"
proof (cases "pages = 0 \<or> pages > MAX_OBJECT_PAGES cfg \<or> free_slot (mt_objects t) = None")
  case True
  then have "(\<exists>e. r = Err e) \<and> t' = t \<and> s' = s" using c by (auto simp: MemoryTable_create_def split: if_splits)
  with ok show ?thesis by auto
next
  case False
  then obtain slot where slot: "free_slot (mt_objects t) = Some slot" by auto
  have p: "0 < pages" "pages \<le> MAX_OBJECT_PAGES cfg" using False by auto
  obtain ro t1 where tr: "MemoryTable_take_run t pages = (ro, t1)" by fastforce
  show ?thesis
  proof (cases ro)
    case None
    then have "t1 = t" using take_run_None(1) tr by simp
    then show ?thesis using c ok p slot tr None by (auto simp: MemoryTable_create_def)
  next
    case (Some base)
    note tk = take_run_Some [OF tr [unfolded Some]]
    note em = taken_run_empty [OF wf tk(2)]
    have t1: "t1 = t\<lparr>mt_taken := set_range True base pages (mt_taken t)\<rparr>" using tk(3) em(3) by simp
    obtain dn slots mem1 s1 where d: "draw_frames F base pages (mt_slots t) mem s = (dn, slots, mem1, s1)"
      by (metis prod_cases4)
    from draw_frames_spec [OF ok em(1) d] obtain fs where fs: "length fs \<le> pages" "dn \<longrightarrow> length fs = pages"
      "slots = take base (mt_slots t) @ map Some fs @ drop (base + length fs) (mt_slots t)"
      "frames_ok s1 (mset fs + M)" "distinct fs"
      "\<forall>f \<in> set fs. f \<notin># M \<and> is_aligned f FRAME_SIZE \<and> mem1 f = replicate 4096 0"
      "\<forall>g. g \<notin> set fs \<longrightarrow> mem1 g = mem g" by blast
    have len: "length slots = length (mt_slots t)" using fs(1,3) em(1) by simp
    have out: "slots ! i = mt_slots t ! i" if "i < length slots" "\<not> (base \<le> i \<and> i < base + pages)" for i
      using that fs(1) em(1) unfolding fs(3) by (auto simp: nth_append)
    have "run_of slots base pages = map Some fs @ take (pages - length fs) (drop (base + length fs) (mt_slots t))"
      using fs(1) em(1) by (simp add: run_of_def fs(3))
    moreover have "flatten (take (pages - length fs) (drop (base + length fs) (mt_slots t))) = []"
      using em(1,2) fs(1) by (intro flatten_none) simp
    moreover have "flatten (map Some fs) = fs" by (induction fs) auto
    ultimately have run: "flatten (run_of slots base pages) = fs" by simp
    have undo: "MemoryTable_free_run (t1\<lparr>mt_slots := slots\<rparr>) base pages = t"
      using undo_take_run [OF wf tk(2) len out] by (simp add: t1)
    have fd: "frames_ok (free_drawn F (run_of slots base pages) s1) M"
      using free_all [OF fs(4)] by (simp add: free_drawn_def run)
    show ?thesis
    proof (cases "dn \<and> Placement_satisfied_by placement (run_of slots base pages) = Ok ()")
      case False
      then have "(\<exists>e. r = Err e) \<and> t' = t \<and> s' = free_drawn F (run_of slots base pages) s1"
        using c p slot tr Some d undo
        by (cases dn; cases "Placement_satisfied_by placement (run_of slots base pages)")
          (auto simp: MemoryTable_create_def t1 Let_def)
      with fd show ?thesis by auto
    next
      case True
      let ?x = "ObjectId (mt_next_id t)"
      let ?e = "MemoryObject_new cfg ?x owner base pages placement None"
      have res: "r = Ok ?x" "s' = s1" "mem' = mem1"
        "t' = t\<lparr>mt_taken := set_range True base pages (mt_taken t), mt_slots := slots,
                mt_objects := (mt_objects t)[slot := Some ?e], mt_next_id := mt_next_id t + 1\<rparr>"
        using c p slot tr Some d True by (auto simp: MemoryTable_create_def t1 Let_def)
      have e: "MemoryTable_find t (mo_object ?e) = None" "mo_base ?e = base" "mo_pages ?e = pages" "mo_object ?e = ?x"
        using fresh by (simp_all add: MemoryObject_new_def)
      note ins = insert_object_wf [OF wf tk(2) p slot e(1-3) len out res(4)]
      have lf: "length fs = pages" using True fs(2) by simp
      then have "run_of slots base pages = map Some fs" using em(1) by (simp add: run_of_def fs(3))
      then have "Placement_satisfied_by placement (map Some fs) = Ok ()" using True by simp
      then show ?thesis
        using ins e(4) lf fs(3-7) p tk(2) by (auto simp: res Let_def intro!: exI [of _ base] exI [of _ fs])
    qed
  qed
qed

end

lemma create_paged_spec:
  assumes wf: "mem_wf cfg t" and fresh: "MemoryTable_find t (ObjectId (mt_next_id t)) = None"
    and c: "MemoryTable_create_paged cfg t owner pages pager = (r, t')"
  shows "case r of
      Err _ \<Rightarrow> t' = t
    | Ok x \<Rightarrow> x = ObjectId (mt_next_id t) \<and> mt_next_id t' = mt_next_id t + 1 \<and> mem_wf cfg t' \<and> mt_slots t' = mt_slots t \<and>
        (\<exists>base. let e = MemoryObject_new cfg x owner base pages Placement_default (Some pager) in
           MemoryTable_find t' = (MemoryTable_find t)(x \<mapsto> e) \<and> entries t' = insert e (entries t) \<and>
           0 < pages \<and> pages \<le> MAX_OBJECT_PAGES cfg \<and> run_free (mt_taken t) pages base)"
proof (cases "pages = 0 \<or> pages > MAX_OBJECT_PAGES cfg \<or> free_slot (mt_objects t) = None")
  case True
  then have "(\<exists>e. r = Err e) \<and> t' = t" using c by (auto simp: MemoryTable_create_paged_def split: if_splits)
  then show ?thesis by auto
next
  case False
  then obtain slot where slot: "free_slot (mt_objects t) = Some slot" by auto
  have p: "0 < pages" "pages \<le> MAX_OBJECT_PAGES cfg" using False by auto
  obtain ro t1 where tr: "MemoryTable_take_run t pages = (ro, t1)" by fastforce
  show ?thesis
  proof (cases ro)
    case None
    then have "t1 = t" using take_run_None(1) tr by simp
    then show ?thesis using c p slot tr None by (auto simp: MemoryTable_create_paged_def)
  next
    case (Some base)
    note tk = take_run_Some [OF tr [unfolded Some]]
    note em = taken_run_empty [OF wf tk(2)]
    let ?x = "ObjectId (mt_next_id t)"
    let ?e = "MemoryObject_new cfg ?x owner base pages Placement_default (Some pager)"
    have res: "r = Ok ?x"
      "t' = t\<lparr>mt_taken := set_range True base pages (mt_taken t), mt_slots := mt_slots t,
              mt_objects := (mt_objects t)[slot := Some ?e], mt_next_id := mt_next_id t + 1\<rparr>"
      using c p slot tr Some tk(3) em(3) by (auto simp: MemoryTable_create_paged_def Let_def)
    have e: "MemoryTable_find t (mo_object ?e) = None" "mo_base ?e = base" "mo_pages ?e = pages" "mo_object ?e = ?x"
      using fresh by (simp_all add: MemoryObject_new_def)
    note ins = insert_object_wf [OF wf tk(2) p slot e(1-3) refl refl res(2)]
    show ?thesis using ins e(4) p tk(2) by (auto simp: res Let_def intro!: exI [of _ base])
  qed
qed

subsection \<open>Pages of a service-backed object\<close>

definition cache_agrees :: "PhysFrame option list \<Rightarrow> MemoryObject \<Rightarrow> bool" where
  "cache_agrees slots e \<longleftrightarrow>
     (\<forall>off. cache_entry (mo_cache e) off \<noteq> None \<longleftrightarrow>
        (\<exists>p < mo_pages e. off = of_nat p * FRAME_SIZE \<and> slots ! (mo_base e + p) \<noteq> None))"

definition backing_ok :: "MemoryConfig \<Rightarrow> PhysFrame option list \<Rightarrow> MemoryObject \<Rightarrow> bool" where
  "backing_ok cfg slots e \<longleftrightarrow>
     (if mo_pager e = None then \<forall>p < mo_pages e. slots ! (mo_base e + p) \<noteq> None
      else cache_wf (mo_cache e) \<and> \<not> oc_faulted (mo_cache e) \<and> length (oc_pages (mo_cache e)) = MAX_CACHED_PAGES cfg \<and>
           cache_agrees slots e)"

definition cfg_ok :: "MemoryConfig \<Rightarrow> bool" where
  "cfg_ok cfg \<longleftrightarrow> MAX_OBJECT_PAGES cfg \<le> MAX_CACHED_PAGES cfg \<and> MAX_CACHED_PAGES cfg < 2 ^ 32"

lemma unat_page_offset: "p < 2 ^ 32 \<Longrightarrow> unat (of_nat p * FRAME_SIZE) = p * 4096"
proof -
  assume "p < 2 ^ 32"
  then have "unat (of_nat p :: 64 word) = p" by (simp add: unat_of_nat take_bit_nat_eq_self)
  with \<open>p < 2 ^ 32\<close> show ?thesis by (simp add: unat_word_ariths unat_FRAME_SIZE)
qed

lemma page_offset_inj: "p < 2 ^ 32 \<Longrightarrow> q < 2 ^ 32 \<Longrightarrow> (of_nat p * FRAME_SIZE :: 64 word) = of_nat q * FRAME_SIZE \<longleftrightarrow> p = q"
  by (metis unat_page_offset mult_cancel2 zero_neq_numeral)

lemma page_of_page_offset: "p < 2 ^ 32 \<Longrightarrow> page_of_offset (of_nat p * FRAME_SIZE) = p"
  by (simp add: page_of_offset_def unat_div_distrib unat_page_offset unat_FRAME_SIZE)

lemma aligned_page_offset:
  assumes "is_aligned off FRAME_SIZE" "page_of_offset off < 2 ^ 32"
  shows "of_nat (page_of_offset off) * FRAME_SIZE = off"
proof -
  have "4096 dvd unat off" using assms(1) by (simp add: is_aligned_dvd)
  then show ?thesis
    using unat_page_offset [OF assms(2)] by (intro word_unat_eq_iff [THEN iffD2]) (simp add: page_of_offset_def unat_div_distrib unat_FRAME_SIZE)
qed

lemma cache_has_room:
  assumes "cfg_ok cfg" "backing_ok cfg slots e" "mo_pager e \<noteq> None" "mo_pages e \<le> MAX_OBJECT_PAGES cfg"
    and "page < mo_pages e" "slots ! (mo_base e + page) = None"
  shows "free_slot (oc_pages (mo_cache e)) \<noteq> None" and "cache_entry (mo_cache e) (of_nat page * FRAME_SIZE) = None"
proof -
  let ?c = "mo_cache e"
  have b: "cache_wf ?c" "length (oc_pages ?c) = MAX_CACHED_PAGES cfg" "cache_agrees slots e"
    using assms(2,3) by (simp_all add: backing_ok_def)
  have small: "mo_pages e < 2 ^ 32" using assms(1,4) by (simp add: cfg_ok_def)
  have d: "distinct_keys pg_offset (oc_pages ?c)" using b(1) by (simp add: cache_wf_def)
  let ?S = "(\<lambda>p. of_nat p * FRAME_SIZE) ` ({..<mo_pages e} - {page}) :: 64 word set"
  have sub: "pg_offset ` set (flatten (oc_pages ?c)) \<subseteq> ?S"
  proof
    fix off assume "off \<in> pg_offset ` set (flatten (oc_pages ?c))"
    then have "cache_entry ?c off \<noteq> None" by (simp add: cache_entry_def key_lookup_None_iff)
    then obtain p where "p < mo_pages e" "off = of_nat p * FRAME_SIZE" "slots ! (mo_base e + p) \<noteq> None"
      using b(3) by (auto simp: cache_agrees_def)
    then show "off \<in> ?S" using assms(6) by (intro image_eqI [of _ _ p]) auto
  qed
  have "count_some (oc_pages ?c) = card (set (map pg_offset (flatten (oc_pages ?c))))"
    using distinct_card [OF d [unfolded distinct_keys_def]] by (simp add: length_flatten)
  also have "\<dots> \<le> card ?S" using sub by (intro card_mono) auto
  also have "\<dots> \<le> card ({..<mo_pages e} - {page})" by (rule card_image_le) simp
  also have "\<dots> < mo_pages e" using assms(5) by simp
  finally have "count_some (oc_pages ?c) < length (oc_pages ?c)" using assms(1,4) b(2) by (simp add: cfg_ok_def)
  then show "free_slot (oc_pages ?c) \<noteq> None" by (simp add: count_some_less_iff free_slot_None_iff)
  show "cache_entry ?c (of_nat page * FRAME_SIZE) = None"
  proof (rule ccontr)
    assume "cache_entry ?c (of_nat page * FRAME_SIZE) \<noteq> None"
    then obtain p where p: "p < mo_pages e" "of_nat page * FRAME_SIZE = (of_nat p * FRAME_SIZE :: 64 word)" "slots ! (mo_base e + p) \<noteq> None"
      using b(3) by (auto simp: cache_agrees_def)
    then have "page = p" using page_offset_inj [of page p] small assms(5) by simp
    with p(3) assms(6) show False by simp
  qed
qed

subsection \<open>The invariant of a table in use\<close>

definition table_ok :: "MemoryConfig \<Rightarrow> MemoryTable \<Rightarrow> bool" where
  "table_ok cfg t \<longleftrightarrow> mem_wf cfg t \<and> distinct (flatten (mt_slots t)) \<and>
     (\<forall>e \<in> entries t. backing_ok cfg (mt_slots t) e \<and> unat (ObjectId_raw (mo_object e)) < unat (mt_next_id t))"

lemma table_okD:
  assumes "table_ok cfg t"
  shows "mem_wf cfg t" "distinct (flatten (mt_slots t))" "\<And>e. e \<in> entries t \<Longrightarrow> backing_ok cfg (mt_slots t) e"
    "\<And>e. e \<in> entries t \<Longrightarrow> unat (ObjectId_raw (mo_object e)) < unat (mt_next_id t)"
  using assms by (auto simp: table_ok_def)

lemma next_id_fresh: "table_ok cfg t \<Longrightarrow> MemoryTable_find t (ObjectId (mt_next_id t)) = None"
proof (rule ccontr)
  assume ok: "table_ok cfg t" and "MemoryTable_find t (ObjectId (mt_next_id t)) \<noteq> None"
  then obtain e where "MemoryTable_find t (ObjectId (mt_next_id t)) = Some e" by auto
  then have "e \<in> entries t" "mo_object e = ObjectId (mt_next_id t)" using find_entry [OF table_okD(1) [OF ok]] by auto
  then show False using table_okD(4) [OF ok] by fastforce
qed

lemma backing_ok_cong:
  assumes "\<And>p. p < mo_pages e \<Longrightarrow> slots ! (mo_base e + p) = slots' ! (mo_base e + p)"
  shows "backing_ok cfg slots e = backing_ok cfg slots' e"
proof -
  have "cache_agrees slots e = cache_agrees slots' e"
    unfolding cache_agrees_def using assms by (metis (no_types, lifting))
  then show ?thesis using assms by (auto simp: backing_ok_def)
qed

text \<open>An update in place that keeps the run, the pager and the set of resident pages.\<close>

definition keeps_backing :: "(MemoryObject \<Rightarrow> MemoryObject) \<Rightarrow> bool" where
  "keeps_backing f \<longleftrightarrow> (\<forall>e. mo_object (f e) = mo_object e \<and> mo_base (f e) = mo_base e \<and> mo_pages (f e) = mo_pages e \<and>
     (\<forall>cfg slots. backing_ok cfg slots e \<longrightarrow> backing_ok cfg slots (f e)))"

lemma set_table_ok:
  assumes "table_ok cfg t" "keeps_backing f"
  shows "table_ok cfg (MemoryTable_set t x f)"
proof (cases "MemoryTable_find t x")
  case None
  then show ?thesis using assms(1) by (simp add: set_None)
next
  case (Some e)
  note t = table_okD [OF assms(1)]
  have f: "mo_object (f e) = mo_object e" "mo_base (f e) = mo_base e" "mo_pages (f e) = mo_pages e" for e
    using assms(2) by (auto simp: keeps_backing_def)
  have e: "e \<in> entries t" "mo_object e = x" using Some find_entry [OF t(1)] by auto
  have "mo_object (f e) = x" using f(1) e(2) by simp
  note s = set_spec [where f = f, OF mem_wfD(1) [OF t(1)] Some this]
  have wf: "mem_wf cfg (MemoryTable_set t x f)" by (rule set_wf [OF t(1) f])
  have "backing_ok cfg (mt_slots t) (f e)" using t(3) [OF e(1)] assms(2) by (simp add: keeps_backing_def)
  with wf t(2-4) e(1) f(1) show ?thesis by (auto simp: table_ok_def s(3))
qed

lemma cache_shape [simp]:
  "oc_faulted (snd (ObjectCache_mark_dirty c off)) = oc_faulted c"
  "length (oc_pages (snd (ObjectCache_mark_dirty c off))) = length (oc_pages c)"
  "oc_faulted (ObjectCache_mark_clean c off) = oc_faulted c"
  "length (oc_pages (ObjectCache_mark_clean c off)) = length (oc_pages c)"
  "oc_faulted (ObjectCache_begin_write_back c off) = oc_faulted c"
  "length (oc_pages (ObjectCache_begin_write_back c off)) = length (oc_pages c)"
  "oc_faulted (snd (ObjectCache_end_write_back c off)) = oc_faulted c"
  "length (oc_pages (snd (ObjectCache_end_write_back c off))) = length (oc_pages c)"
  "oc_faulted (ObjectCache_forget c off) = oc_faulted c"
  "length (oc_pages (ObjectCache_forget c off)) = length (oc_pages c)"
  by (auto simp: ObjectCache_mark_dirty_def ObjectCache_mark_clean_def ObjectCache_begin_write_back_def
      ObjectCache_end_write_back_def ObjectCache_forget_def Let_def split: option.splits)

definition cache_same :: "(ObjectCache \<Rightarrow> ObjectCache) \<Rightarrow> bool" where
  "cache_same g \<longleftrightarrow> (\<forall>c. oc_faulted (g c) = oc_faulted c \<and> length (oc_pages (g c)) = length (oc_pages c) \<and>
     (cache_wf c \<longrightarrow> cache_wf (g c) \<and> (\<forall>off. cache_entry (g c) off = None \<longleftrightarrow> cache_entry c off = None)))"

lemma keeps_cache: "cache_same g \<Longrightarrow> keeps_backing (\<lambda>e. e\<lparr>mo_cache := g (mo_cache e)\<rparr>)"
  by (auto simp: keeps_backing_def cache_same_def backing_ok_def cache_agrees_def)

lemma cache_same_ops:
  "cache_same (\<lambda>c. snd (ObjectCache_mark_dirty c off))" "cache_same (\<lambda>c. ObjectCache_mark_clean c off)"
  "cache_same (\<lambda>c. ObjectCache_begin_write_back c off)" "cache_same (\<lambda>c. snd (ObjectCache_end_write_back c off))"
proof -
  have "cache_wf (snd (ObjectCache_mark_dirty c off)) \<and> (\<forall>k. cache_entry (snd (ObjectCache_mark_dirty c off)) k = None \<longleftrightarrow> cache_entry c k = None)"
    if "cache_wf c" for c
    using mark_dirty_spec [OF that surjective_pairing, of off] that by (auto split: if_splits)
  then show "cache_same (\<lambda>c. snd (ObjectCache_mark_dirty c off))" by (simp add: cache_same_def)
  have clean: "cache_wf (ObjectCache_mark_clean c off) \<and> (\<forall>k. cache_entry (ObjectCache_mark_clean c off) k = None \<longleftrightarrow> cache_entry c k = None)"
    if "cache_wf c" for c
  proof (cases "cache_entry c off")
    case None
    then show ?thesis using that by (simp add: ObjectCache_mark_clean_def cache_absent)
  next
    case (Some e)
    then show ?thesis using mark_clean_spec [OF that Some] by simp
  qed
  then show "cache_same (\<lambda>c. ObjectCache_mark_clean c off)" by (simp add: cache_same_def)
  have "cache_wf (snd (ObjectCache_end_write_back c off)) \<and> (\<forall>k. cache_entry (snd (ObjectCache_end_write_back c off)) k = None \<longleftrightarrow> cache_entry c k = None)"
    if "cache_wf c" for c
  proof (cases "cache_entry c off")
    case None
    then show ?thesis using that by (simp add: ObjectCache_end_write_back_def cache_absent)
  next
    case (Some e)
    then show ?thesis using end_write_back_spec [OF that Some surjective_pairing] by simp
  qed
  then show "cache_same (\<lambda>c. snd (ObjectCache_end_write_back c off))" by (simp add: cache_same_def)
  show "cache_same (\<lambda>c. ObjectCache_begin_write_back c off)"
    using begin_write_back_spec [OF _ refl, of _ off] by (auto simp: cache_same_def split: option.splits)
qed

lemma supply_spec:
  assumes ok: "table_ok cfg t" "cfg_ok cfg" and fresh: "frame \<notin> set (flatten (mt_slots t))"
    and s: "MemoryTable_supply t x page frame = (r, t')"
  shows "case r of
      Err _ \<Rightarrow> t' = t
    | Ok _ \<Rightarrow> table_ok cfg t' \<and> mset (flatten (mt_slots t')) = add_mset frame (mset (flatten (mt_slots t))) \<and>
        mt_next_id t' = mt_next_id t"
proof (cases "\<exists>e. MemoryTable_find t x = Some e \<and> mo_pager e \<noteq> None \<and> page < mo_pages e \<and> mt_slots t ! (mo_base e + page) = None")
  case False
  then have "(\<exists>e. r = Err e) \<and> t' = t" using s by (auto simp: MemoryTable_supply_def split: option.splits if_splits)
  then show ?thesis by auto
next
  case True
  then obtain e where f: "MemoryTable_find t x = Some e" and pg: "mo_pager e \<noteq> None" "page < mo_pages e" "mt_slots t ! (mo_base e + page) = None"
    by blast
  note t = table_okD [OF ok(1)]
  note w = mem_wfD [OF t(1)]
  have e: "e \<in> entries t" "mo_object e = x" using f find_entry [OF t(1)] by auto
  let ?i = "mo_base e + page"
  let ?off = "of_nat page * FRAME_SIZE :: 64 word"
  have i: "?i < length (mt_slots t)" using w(5) [OF e(1)] pg(2) by simp
  have small: "mo_pages e < 2 ^ 32" using w(4) [OF e(1)] ok(2) by (simp add: cfg_ok_def)
  note room = cache_has_room [OF ok(2) t(3) [OF e(1)] pg(1) w(4) [OF e(1)] pg(2,3)]
  have b: "cache_wf (mo_cache e)" "\<not> oc_faulted (mo_cache e)" "length (oc_pages (mo_cache e)) = MAX_CACHED_PAGES cfg"
    "cache_agrees (mt_slots t) e" using t(3) [OF e(1)] pg(1) by (simp_all add: backing_ok_def)
  obtain k where k: "free_slot (oc_pages (mo_cache e)) = Some k" using room(1) by auto
  obtain c where c: "ObjectCache_install (mo_cache e) ?off = (Ok (), c)" "oc_faulted c = oc_faulted (mo_cache e)"
    "length (oc_pages c) = length (oc_pages (mo_cache e))"
    using b(2) room(2) k by (auto simp: ObjectCache_install_def)
  note ins = install_spec [OF b(1) c(1), simplified]
  define t1 where "t1 = t\<lparr>mt_slots := (mt_slots t)[?i := Some frame]\<rparr>"
  define g where "g = (\<lambda>y :: MemoryObject. y\<lparr>mo_cache := c\<rparr>)"
  have res: "r = Ok ()" "t' = MemoryTable_set t1 x g"
    using s f pg c(1) by (auto simp: MemoryTable_supply_def t1_def g_def Let_def)
  have t1: "mt_objects t1 = mt_objects t" "entries t1 = entries t" "MemoryTable_find t1 = MemoryTable_find t"
    by (simp_all add: t1_def entries_def MemoryTable_find_def fun_eq_iff)
  have "in_run e ?i" using pg(2) by (simp add: in_run_def)
  then have "mt_taken t ! ?i" using w(7) [OF i] e(1) by blast
  then have wf1: "mem_wf cfg t1"
    using t(1) i unfolding mem_wf_def t1(1,2) by (auto simp: t1_def nth_list_update)
  have wf': "mem_wf cfg t'" unfolding res by (rule set_wf [OF wf1]) (simp_all add: g_def)
  have "MemoryTable_find t1 x = Some e" using f by (simp add: t1(3))
  note st = set_spec [where f = g, OF mem_wfD(1) [OF wf1] this]
  have en: "entries t' = insert (g e) (entries t - {e})" using st(3) e(2) by (simp add: res t1(2) g_def)
  have sl: "mt_slots t' = (mt_slots t)[?i := Some frame]" by (simp add: res t1_def)
  have m: "mset (flatten (mt_slots t')) = add_mset frame (mset (flatten (mt_slots t)))"
    by (simp add: sl mset_flatten_fill [OF i pg(3)])
  have "mset (flatten (mt_slots t')) = mset (frame # flatten (mt_slots t))" using m by simp
  then have d: "distinct (flatten (mt_slots t'))" using mset_eq_imp_distinct_iff t(2) fresh by fastforce
  have "cache_agrees (mt_slots t') (g e)"
    unfolding cache_agrees_def
  proof
    fix off
    have "(\<exists>p < mo_pages e. off = of_nat p * FRAME_SIZE \<and> mt_slots t' ! (mo_base e + p) \<noteq> None) \<longleftrightarrow>
        off = ?off \<or> (\<exists>p < mo_pages e. off = of_nat p * FRAME_SIZE \<and> mt_slots t ! (mo_base e + p) \<noteq> None)"
      using i pg(2) by (auto simp: sl nth_list_update)
    then show "(cache_entry (mo_cache (g e)) off \<noteq> None) =
        (\<exists>p < mo_pages (g e). off = of_nat p * FRAME_SIZE \<and> mt_slots t' ! (mo_base (g e) + p) \<noteq> None)"
      using ins room(2) b(4) by (auto simp: g_def cache_agrees_def)
  qed
  then have be: "backing_ok cfg (mt_slots t') (g e)"
    using b pg(1) c ins by (auto simp: backing_ok_def g_def)
  have bo: "backing_ok cfg (mt_slots t') u" if u: "u \<in> entries t - {e}" for u
  proof -
    have "?i \<noteq> mo_base u + p" if "p < mo_pages u" for p
      using w(6) [of u e ?i] u e(1) that pg(2) by (auto simp: in_run_def)
    then have "backing_ok cfg (mt_slots t') u = backing_ok cfg (mt_slots t) u"
      by (intro backing_ok_cong) (simp add: sl)
    then show ?thesis using t(3) u by simp
  qed
  have "table_ok cfg t'"
    unfolding table_ok_def en using wf' d be bo t(4) e(1) by (auto simp: res t1_def g_def)
  with m show ?thesis by (simp add: res t1_def)
qed

lemma evict_spec:
  assumes ok: "table_ok cfg t" "cfg_ok cfg" and al: "is_aligned off FRAME_SIZE"
    and s: "MemoryTable_evict t x off = (r, t')" and pgd: "MemoryTable_pager_of t x \<noteq> None"
  shows "case r of
      None \<Rightarrow> t' = t
    | Some frame \<Rightarrow> table_ok cfg t' \<and> mset (flatten (mt_slots t)) = add_mset frame (mset (flatten (mt_slots t'))) \<and>
        mt_next_id t' = mt_next_id t \<and> \<not> MemoryTable_is_dirty t x off \<and> MemoryTable_frame_at t x (page_of_offset off) = Some frame"
proof (cases "\<exists>e fr. MemoryTable_find t x = Some e \<and> \<not> ObjectCache_is_dirty (mo_cache e) off \<and>
    page_of_offset off < mo_pages e \<and> mt_slots t ! (mo_base e + page_of_offset off) = Some fr")
  case False
  then have "r = None \<and> t' = t" using s by (auto simp: MemoryTable_evict_def Let_def split: option.splits if_splits)
  then show ?thesis by auto
next
  case True
  define page where "page = page_of_offset off"
  from True obtain e fr where f: "MemoryTable_find t x = Some e" and pg: "\<not> ObjectCache_is_dirty (mo_cache e) off" "page < mo_pages e"
    "mt_slots t ! (mo_base e + page) = Some fr" by (auto simp: page_def)
  note t = table_okD [OF ok(1)]
  note w = mem_wfD [OF t(1)]
  have e: "e \<in> entries t" "mo_object e = x" using f find_entry [OF t(1)] by auto
  have pager: "mo_pager e \<noteq> None" using pgd f by (simp add: MemoryTable_pager_of_def)
  let ?i = "mo_base e + page"
  have i: "?i < length (mt_slots t)" using w(5) [OF e(1)] pg(2) by simp
  have small: "mo_pages e < 2 ^ 32" using w(4) [OF e(1)] ok(2) by (simp add: cfg_ok_def)
  have off: "off = of_nat page * FRAME_SIZE"
    using aligned_page_offset [OF al] small pg(2) by (simp add: page_def)
  have b: "cache_wf (mo_cache e)" "\<not> oc_faulted (mo_cache e)" "length (oc_pages (mo_cache e)) = MAX_CACHED_PAGES cfg"
    "cache_agrees (mt_slots t) e" using t(3) [OF e(1)] pager by (simp_all add: backing_ok_def)
  note fg = forget_spec [OF b(1), of off]
  define t1 where "t1 = t\<lparr>mt_slots := (mt_slots t)[?i := None]\<rparr>"
  define g where "g = (\<lambda>y :: MemoryObject. y\<lparr>mo_cache := ObjectCache_forget (mo_cache y) off\<rparr>)"
  have res: "r = Some fr" "t' = MemoryTable_set t1 x g"
    using s f pg by (auto simp: MemoryTable_evict_def t1_def g_def page_def Let_def)
  have t1: "mt_objects t1 = mt_objects t" "entries t1 = entries t" "MemoryTable_find t1 = MemoryTable_find t"
    by (simp_all add: t1_def entries_def MemoryTable_find_def fun_eq_iff)
  have wf1: "mem_wf cfg t1"
    using t(1) i unfolding mem_wf_def t1(1,2) by (auto simp: t1_def nth_list_update split: if_splits)
  have wf': "mem_wf cfg t'" unfolding res by (rule set_wf [OF wf1]) (simp_all add: g_def)
  have "MemoryTable_find t1 x = Some e" using f by (simp add: t1(3))
  note st = set_spec [where f = g, OF mem_wfD(1) [OF wf1] this]
  have en: "entries t' = insert (g e) (entries t - {e})" using st(3) e(2) by (simp add: res t1(2) g_def)
  have sl: "mt_slots t' = (mt_slots t)[?i := None]" by (simp add: res t1_def)
  have m: "mset (flatten (mt_slots t)) = add_mset fr (mset (flatten (mt_slots t')))"
    by (simp add: sl mset_flatten_clear [OF i pg(3)])
  then have "mset (flatten (mt_slots t)) = mset (fr # flatten (mt_slots t'))" by simp
  from mset_eq_imp_distinct_iff [OF this] have d: "distinct (flatten (mt_slots t'))" using t(2) by simp
  have "cache_agrees (mt_slots t') (g e)"
    unfolding cache_agrees_def
  proof
    fix k
    have "(\<exists>p < mo_pages e. k = of_nat p * FRAME_SIZE \<and> mt_slots t' ! (mo_base e + p) \<noteq> None) \<longleftrightarrow>
        k \<noteq> off \<and> (\<exists>p < mo_pages e. k = of_nat p * FRAME_SIZE \<and> mt_slots t ! (mo_base e + p) \<noteq> None)"
    proof -
      have "mt_slots t' ! (mo_base e + p) \<noteq> None \<longleftrightarrow> of_nat p * FRAME_SIZE \<noteq> off \<and> mt_slots t ! (mo_base e + p) \<noteq> None"
        if "p < mo_pages e" for p
        using i pg(2) small page_offset_inj [of p page] that by (auto simp: sl nth_list_update off)
      then show ?thesis by blast
    qed
    then show "(cache_entry (mo_cache (g e)) k \<noteq> None) =
        (\<exists>p < mo_pages (g e). k = of_nat p * FRAME_SIZE \<and> mt_slots t' ! (mo_base (g e) + p) \<noteq> None)"
      using fg(4) b(4) by (auto simp: g_def cache_agrees_def)
  qed
  then have be: "backing_ok cfg (mt_slots t') (g e)"
    using b pager fg(1) by (auto simp: backing_ok_def g_def)
  have bo: "backing_ok cfg (mt_slots t') u" if u: "u \<in> entries t - {e}" for u
  proof -
    have "?i \<noteq> mo_base u + p" if "p < mo_pages u" for p
      using w(6) [of u e ?i] u e(1) that pg(2) by (auto simp: in_run_def)
    then have "backing_ok cfg (mt_slots t') u = backing_ok cfg (mt_slots t) u"
      by (intro backing_ok_cong) (simp add: sl)
    then show ?thesis using t(3) u by simp
  qed
  have "table_ok cfg t'"
    unfolding table_ok_def en using wf' d be bo t(4) e(1) by (auto simp: res t1_def g_def)
  with m f pg show ?thesis
    by (simp add: res t1_def MemoryTable_is_dirty_def MemoryTable_frame_at_def page_def)
qed

end
