(* ===== verification/MemoryRuns.thy ===== *)
theory MemoryRuns
  imports Memory Channels Ports
begin

text \<open>
  The memory table in use. A run is any sequence of the operations the system calls perform
  on the table: creation of kernel-backed and service-backed objects, the supply of pages by
  a pager (\<open>supply_step\<close>: what the \<^verbatim>\<open>MemorySupply\<close> call does to the table and the allocator),
  reclaim of clean pages (\<open>reclaim_step\<close>, likewise of \<^verbatim>\<open>reclaim_one_page\<close>), destruction, and the changes of holders, class, attachment
  and dirty state. The runs are interpreted on the kernel's frame allocator. The last part
  looks at the ids the table mints next to those of the channel table.
\<close>

datatype MemOp =
    OpCreate ObjectId nat Placement
  | OpCreatePaged ObjectId nat ObjectId
  | OpSupply ObjectId nat
  | OpReclaim
  | OpDestroy ObjectId
  | OpClassify ObjectId MemoryClass
  | OpTransfer ObjectId ObjectId
  | OpShare ObjectId ObjectId
  | OpRelease ObjectId ObjectId
  | OpAttach ObjectId Attachment
  | OpDetach ObjectId
  | OpForget ObjectId
  | OpStore ObjectId "64 word"
  | OpClean ObjectId "64 word"
  | OpBeginWriteBack ObjectId "64 word"
  | OpEndWriteBack ObjectId "64 word"
  | OpFault ObjectId

definition supply_step :: "'f FrameOps \<Rightarrow> MemoryTable \<Rightarrow> ObjectId \<Rightarrow> nat \<Rightarrow> 'f \<Rightarrow> unit res \<times> MemoryTable \<times> 'f" where
  "supply_step F t object page alloc =
     (case alloc_frame F alloc of
        (None, alloc') \<Rightarrow> (Err OutOfMemory, t, alloc')
      | (Some frame, alloc') \<Rightarrow>
          (case MemoryTable_supply t object page frame of
             (Ok _, t') \<Rightarrow> (Ok (), t', alloc')
           | (Err e, t') \<Rightarrow> (Err e, t', free_frame F alloc' frame)))"

definition reclaim_step :: "'f FrameOps \<Rightarrow> MemoryTable \<Rightarrow> 'f \<Rightarrow> bool \<times> MemoryTable \<times> 'f" where
  "reclaim_step F t alloc =
     (case MemoryTable_any_evictable t of
        None \<Rightarrow> (False, t, alloc)
      | Some (object, offset) \<Rightarrow>
          (case MemoryTable_evict t object offset of
             (None, t') \<Rightarrow> (False, t', alloc)
           | (Some frame, t') \<Rightarrow> (True, t', free_frame F alloc frame)))"

fun mem_exec :: "MemoryConfig \<Rightarrow> 'f FrameOps \<Rightarrow> MemoryTable \<times> PhysMem \<times> 'f \<Rightarrow> MemOp \<Rightarrow> MemoryTable \<times> PhysMem \<times> 'f" where
  "mem_exec cfg F (t, mem, a) (OpCreate owner pages placement) = snd (MemoryTable_create cfg F t owner pages placement mem a)"
| "mem_exec cfg F (t, mem, a) (OpCreatePaged owner pages pager) = (snd (MemoryTable_create_paged cfg t owner pages pager), mem, a)"
| "mem_exec cfg F (t, mem, a) (OpSupply x page) = (case supply_step F t x page a of (_, t', a') \<Rightarrow> (t', mem, a'))"
| "mem_exec cfg F (t, mem, a) OpReclaim = (case reclaim_step F t a of (_, t', a') \<Rightarrow> (t', mem, a'))"
| "mem_exec cfg F (t, mem, a) (OpDestroy x) = (case MemoryTable_destroy F t x a of (_, t', a') \<Rightarrow> (t', mem, a'))"
| "mem_exec cfg F (t, mem, a) (OpClassify x c) = (snd (MemoryTable_classify t x c), mem, a)"
| "mem_exec cfg F (t, mem, a) (OpTransfer x h) = (snd (MemoryTable_set_sole_holder t x h), mem, a)"
| "mem_exec cfg F (t, mem, a) (OpShare x h) = (snd (MemoryTable_add_holder t x h), mem, a)"
| "mem_exec cfg F (t, mem, a) (OpRelease x h) = (snd (MemoryTable_remove_holder t x h), mem, a)"
| "mem_exec cfg F (t, mem, a) (OpAttach x at) = (snd (MemoryTable_attach t x at), mem, a)"
| "mem_exec cfg F (t, mem, a) (OpDetach x) = (snd (MemoryTable_detach t x), mem, a)"
| "mem_exec cfg F (t, mem, a) (OpForget x) = (MemoryTable_forget_last_attachment t x, mem, a)"
| "mem_exec cfg F (t, mem, a) (OpStore x off) = (snd (MemoryTable_mark_dirty t x off), mem, a)"
| "mem_exec cfg F (t, mem, a) (OpClean x off) = (MemoryTable_mark_clean t x off, mem, a)"
| "mem_exec cfg F (t, mem, a) (OpBeginWriteBack x off) = (MemoryTable_begin_write_back t x off, mem, a)"
| "mem_exec cfg F (t, mem, a) (OpEndWriteBack x off) = (snd (MemoryTable_end_write_back t x off), mem, a)"
| "mem_exec cfg F (t, mem, a) (OpFault x) = (MemoryTable_set_faulted t x, mem, a)"

definition mem_run :: "MemoryConfig \<Rightarrow> 'f FrameOps \<Rightarrow> MemoryTable \<times> PhysMem \<times> 'f \<Rightarrow> MemOp list \<Rightarrow> MemoryTable \<times> PhysMem \<times> 'f" where
  "mem_run cfg F s ops = foldl (mem_exec cfg F) s ops"

subsection \<open>Updates in place keep the invariant\<close>

lemma keeps_simple:
  "keeps_backing (\<lambda>e. e\<lparr>mo_faulted := b\<rparr>)" "keeps_backing (\<lambda>e. e\<lparr>mo_class := c\<rparr>)"
  "keeps_backing (\<lambda>e. e\<lparr>mo_attached := a\<rparr>)" "keeps_backing (\<lambda>e. e\<lparr>mo_last_attachment := l\<rparr>)"
  "keeps_backing (\<lambda>e. e\<lparr>mo_last_attachment := l, mo_attached := a\<rparr>)"
  "keeps_backing (\<lambda>e. e\<lparr>mo_holders := h e\<rparr>)"
  by (auto simp: keeps_backing_def backing_ok_def cache_agrees_def)

lemma set_cong_entry:
  assumes "MemoryTable_find t x = Some e" "f e = g e"
  shows "MemoryTable_set t x f = MemoryTable_set t x g"
proof -
  obtain i where i: "find_key mo_object (mt_objects t) x = Some i"
    using assms(1) by (cases "find_key mo_object (mt_objects t) x") (auto simp: find_lookup find_key_None_iff)
  then obtain v where "mt_objects t ! i = Some v" "key_lookup mo_object (mt_objects t) x = Some v" by (rule find_key_SomeD)
  with assms i show ?thesis by (simp add: MemoryTable_set_def set_position find_lookup)
qed

text \<open>Every operation that only writes an object in place is such an update.\<close>

lemma in_place_ops:
  "\<exists>f. keeps_backing f \<and> snd (MemoryTable_classify t x c) = MemoryTable_set t x f"
  "\<exists>f. keeps_backing f \<and> snd (MemoryTable_set_sole_holder t x h) = MemoryTable_set t x f"
  "\<exists>f. keeps_backing f \<and> snd (MemoryTable_add_holder t x h) = MemoryTable_set t x f"
  "\<exists>f. keeps_backing f \<and> snd (MemoryTable_remove_holder t x h) = MemoryTable_set t x f"
  "\<exists>f. keeps_backing f \<and> snd (MemoryTable_attach t x at) = MemoryTable_set t x f"
  "\<exists>f. keeps_backing f \<and> snd (MemoryTable_detach t x) = MemoryTable_set t x f"
  "\<exists>f. keeps_backing f \<and> MemoryTable_forget_last_attachment t x = MemoryTable_set t x f"
  "\<exists>f. keeps_backing f \<and> snd (MemoryTable_mark_dirty t x off) = MemoryTable_set t x f"
  "\<exists>f. keeps_backing f \<and> MemoryTable_mark_clean t x off = MemoryTable_set t x f"
  "\<exists>f. keeps_backing f \<and> MemoryTable_begin_write_back t x off = MemoryTable_set t x f"
  "\<exists>f. keeps_backing f \<and> snd (MemoryTable_end_write_back t x off) = MemoryTable_set t x f"
  "\<exists>f. keeps_backing f \<and> MemoryTable_set_faulted t x = MemoryTable_set t x f"
proof -
  have idf: "\<exists>f. keeps_backing f \<and> t = MemoryTable_set t x f"
  proof (cases "MemoryTable_find t x")
    case None
    then show ?thesis using keeps_simple(1) [of True] by (metis set_None)
  next
    case (Some e)
    obtain i where i: "find_key mo_object (mt_objects t) x = Some i"
      using Some by (cases "find_key mo_object (mt_objects t) x") (auto simp: find_lookup find_key_None_iff)
    then obtain v where "i < length (mt_objects t)" "mt_objects t ! i = Some v" by (rule find_key_SomeD)
    then have "MemoryTable_set t x (\<lambda>e. e) = t" using i by (simp add: MemoryTable_set_def set_position list_update_same_conv)
    moreover have "keeps_backing (\<lambda>e. e)" by (simp add: keeps_backing_def)
    ultimately show ?thesis by metis
  qed
  show "\<exists>f. keeps_backing f \<and> snd (MemoryTable_classify t x c) = MemoryTable_set t x f"
    using idf keeps_simple(2) [of c] by (auto simp: MemoryTable_classify_def split: option.splits)
  show "\<exists>f. keeps_backing f \<and> snd (MemoryTable_set_sole_holder t x h) = MemoryTable_set t x f"
    using idf keeps_simple(6) [of "\<lambda>_. sole_holder h"] by (auto simp: MemoryTable_set_sole_holder_def split: option.splits)
  show "\<exists>f. keeps_backing f \<and> snd (MemoryTable_add_holder t x h) = MemoryTable_set t x f"
    using idf keeps_simple(6) by (fastforce simp: MemoryTable_add_holder_def split: option.splits)
  show "\<exists>f. keeps_backing f \<and> snd (MemoryTable_remove_holder t x h) = MemoryTable_set t x f"
    using idf keeps_simple(6) by (fastforce simp: MemoryTable_remove_holder_def Let_def split: option.splits prod.splits)
  show "\<exists>f. keeps_backing f \<and> snd (MemoryTable_attach t x at) = MemoryTable_set t x f"
    using idf keeps_simple(5) by (fastforce simp: MemoryTable_attach_def split: option.splits)
  show "\<exists>f. keeps_backing f \<and> snd (MemoryTable_detach t x) = MemoryTable_set t x f"
    using keeps_simple(3) by (fastforce simp: MemoryTable_detach_def)
  show "\<exists>f. keeps_backing f \<and> MemoryTable_forget_last_attachment t x = MemoryTable_set t x f"
    using keeps_simple(4) by (fastforce simp: MemoryTable_forget_last_attachment_def)
  show "\<exists>f. keeps_backing f \<and> MemoryTable_set_faulted t x = MemoryTable_set t x f"
    using keeps_simple(1) by (fastforce simp: MemoryTable_set_faulted_def)
  show "\<exists>f. keeps_backing f \<and> MemoryTable_mark_clean t x off = MemoryTable_set t x f"
    using keeps_cache [OF cache_same_ops(2)] by (fastforce simp: MemoryTable_mark_clean_def)
  show "\<exists>f. keeps_backing f \<and> MemoryTable_begin_write_back t x off = MemoryTable_set t x f"
    using keeps_cache [OF cache_same_ops(3)] by (fastforce simp: MemoryTable_begin_write_back_def)
  show "\<exists>f. keeps_backing f \<and> snd (MemoryTable_mark_dirty t x off) = MemoryTable_set t x f"
  proof (cases "MemoryTable_find t x")
    case None
    then show ?thesis using idf by (simp add: MemoryTable_mark_dirty_def)
  next
    case (Some e)
    have "snd (MemoryTable_mark_dirty t x off) = MemoryTable_set t x (\<lambda>e. e\<lparr>mo_cache := snd (ObjectCache_mark_dirty (mo_cache e) off)\<rparr>)"
      using Some by (auto simp: MemoryTable_mark_dirty_def split: prod.splits intro!: set_cong_entry)
    then show ?thesis using keeps_cache [OF cache_same_ops(1), of off] by blast
  qed
  show "\<exists>f. keeps_backing f \<and> snd (MemoryTable_end_write_back t x off) = MemoryTable_set t x f"
  proof (cases "MemoryTable_find t x")
    case None
    then show ?thesis using idf by (simp add: MemoryTable_end_write_back_def)
  next
    case (Some e)
    have "snd (MemoryTable_end_write_back t x off) = MemoryTable_set t x (\<lambda>e. e\<lparr>mo_cache := snd (ObjectCache_end_write_back (mo_cache e) off)\<rparr>)"
      using Some by (auto simp: MemoryTable_end_write_back_def split: prod.splits intro!: set_cong_entry)
    then show ?thesis using keeps_cache [OF cache_same_ops(4), of off] by blast
  qed
qed

subsection \<open>Reclaim takes a clean page of a service-backed object\<close>

lemma find_map_SomeD: "find_map f xs = Some y \<Longrightarrow> \<exists>x \<in> set xs. f x = Some y"
  by (induction xs) (auto split: option.splits)

lemma fold_min_mem: "fold min xs (x :: 'a :: linorder) \<in> insert x (set xs)"
  by (induction xs arbitrary: x) (auto simp: min_def split: if_splits)

lemma min_opt_mem: "min_opt xs = Some m \<Longrightarrow> m \<in> set xs"
  using fold_min_mem by (cases xs) auto

lemma evict_candidate_clean:
  assumes "cache_wf c" "ObjectCache_evict_candidate c = Some off"
  shows "\<exists>p. cache_entry c off = Some p \<and> \<not> pg_dirty p"
proof -
  have d: "distinct_keys pg_offset (oc_pages c)" using assms(1) by (simp add: cache_wf_def)
  from min_opt_mem [OF assms(2) [unfolded ObjectCache_evict_candidate_def]]
  obtain p where "p \<in> set (flatten (oc_pages c))" "\<not> pg_dirty p" "pg_offset p = off" by auto
  then show ?thesis using key_lookup_iff [OF d, of off p] by (auto simp: cache_entry_def)
qed

lemma any_evictable_spec:
  assumes ok: "table_ok cfg t" "cfg_ok cfg" and s: "MemoryTable_any_evictable t = Some (x, off)"
  shows "is_aligned off FRAME_SIZE" and "MemoryTable_pager_of t x \<noteq> None" and "\<not> MemoryTable_is_dirty t x off"
    and "MemoryTable_frame_at t x (page_of_offset off) \<noteq> None"
    and "fst (MemoryTable_evict t x off) = MemoryTable_frame_at t x (page_of_offset off)"
proof -
  note t = table_okD [OF ok(1)]
  from find_map_SomeD [OF s [unfolded MemoryTable_any_evictable_def]]
  obtain e where e: "e \<in> entries t" "mo_pager e \<noteq> None" "mo_object e = x" "ObjectCache_evict_candidate (mo_cache e) = Some off"
    by (auto simp: entries_def split: if_splits)
  have f: "MemoryTable_find t x = Some e" using e find_entry [OF t(1)] by simp
  have b: "cache_wf (mo_cache e)" "cache_agrees (mt_slots t) e" using t(3) [OF e(1)] e(2) by (auto simp: backing_ok_def)
  from evict_candidate_clean [OF b(1) e(4)] obtain p where p: "cache_entry (mo_cache e) off = Some p" "\<not> pg_dirty p" by blast
  have nd: "\<not> ObjectCache_is_dirty (mo_cache e) off" using p by (simp add: is_dirty_iff)
  have "cache_entry (mo_cache e) off \<noteq> None" using p(1) by simp
  with b(2) obtain k where k: "k < mo_pages e" "off = of_nat k * FRAME_SIZE" "mt_slots t ! (mo_base e + k) \<noteq> None"
    unfolding cache_agrees_def by blast
  have small: "k < 2 ^ 32" using mem_wfD(4) [OF t(1) e(1)] ok(2) k(1) by (simp add: cfg_ok_def)
  have pg: "page_of_offset off = k" using page_of_page_offset [OF small] k(2) by simp
  show "is_aligned off FRAME_SIZE" using unat_page_offset [OF small] k(2) by (simp add: is_aligned_dvd)
  show "MemoryTable_pager_of t x \<noteq> None" using e(2) f by (simp add: MemoryTable_pager_of_def)
  show "\<not> MemoryTable_is_dirty t x off" using nd f by (simp add: MemoryTable_is_dirty_def)
  show "MemoryTable_frame_at t x (page_of_offset off) \<noteq> None" using k f pg by (simp add: MemoryTable_frame_at_def)
  show "fst (MemoryTable_evict t x off) = MemoryTable_frame_at t x (page_of_offset off)"
    using k f pg nd by (auto simp: MemoryTable_evict_def MemoryTable_frame_at_def split: option.splits)
qed

subsection \<open>Every step keeps the table and the allocator in step\<close>

lemma new_object_ok:
  assumes ok: "table_ok cfg t" and wf: "mem_wf cfg t'" and en: "entries t' = insert e (entries t)"
    and run: "run_free (mt_taken t) (mo_pages e) (mo_base e)"
    and same: "\<And>i. i < length (mt_slots t) \<Longrightarrow> \<not> in_run e i \<Longrightarrow> mt_slots t' ! i = mt_slots t ! i"
    and d: "distinct (flatten (mt_slots t'))" and be: "backing_ok cfg (mt_slots t') e"
    and x: "mo_object e = ObjectId (mt_next_id t)" "mt_next_id t' = mt_next_id t + 1" "unat (mt_next_id t) + 1 < 2 ^ 32"
  shows "table_ok cfg t'"
proof -
  note t = table_okD [OF ok]
  note w = mem_wfD [OF t(1)]
  have nx: "unat (mt_next_id t') = unat (mt_next_id t) + 1" using x(2,3) by (simp add: unat_word_ariths)
  have "backing_ok cfg (mt_slots t') u" if u: "u \<in> entries t" for u
  proof -
    have "mt_slots t' ! (mo_base u + p) = mt_slots t ! (mo_base u + p)" if "p < mo_pages u" for p
    proof (rule same)
      show l: "mo_base u + p < length (mt_slots t)" using w(5) [OF u] that by simp
      have "in_run u (mo_base u + p)" using that by (simp add: in_run_def)
      then have "mt_taken t ! (mo_base u + p)" using w(7) [OF l] u by blast
      then show "\<not> in_run e (mo_base u + p)" using run by (auto simp: run_free_def in_run_def)
    qed
    then have "backing_ok cfg (mt_slots t') u = backing_ok cfg (mt_slots t) u" by (intro backing_ok_cong) simp
    then show ?thesis using t(3) [OF u] by simp
  qed
  then show ?thesis using wf d be t(4) nx x(1) by (fastforce simp: table_ok_def en)
qed

context frame_source
begin

definition mem_ok :: "MemoryConfig \<Rightarrow> MemoryTable \<times> PhysMem \<times> 'f \<Rightarrow> PhysFrame multiset \<Rightarrow> bool" where
  "mem_ok cfg s M \<longleftrightarrow> (case s of (t, _, a) \<Rightarrow> table_ok cfg t \<and> frames_ok a (mset (flatten (mt_slots t)) + M))"

lemma create_ok:
  assumes ok: "mem_ok cfg (t, mem, a) M" and n: "unat (mt_next_id t) + 1 < 2 ^ 32"
    and c: "MemoryTable_create cfg F t owner pages placement mem a = (r, t', mem', a')"
  shows "mem_ok cfg (t', mem', a') M \<and> unat (mt_next_id t') \<le> unat (mt_next_id t) + 1"
proof -
  have tok: "table_ok cfg t" and fo: "frames_ok a (mset (flatten (mt_slots t)) + M)" using ok by (simp_all add: mem_ok_def)
  note cs = memory_create_spec [OF table_okD(1) [OF tok] fo next_id_fresh [OF tok] c]
  show ?thesis
  proof (cases r)
    case (Err e)
    with cs tok show ?thesis by (simp add: mem_ok_def)
  next
    case (Ok x)
    with cs obtain base fs where x: "x = ObjectId (mt_next_id t)" "mt_next_id t' = mt_next_id t + 1" "mem_wf cfg t'"
      and en: "entries t' = insert (MemoryObject_new cfg x owner base pages placement None) (entries t)"
      and fs: "length fs = pages" "run_free (mt_taken t) pages base"
        "mt_slots t' = take base (mt_slots t) @ map Some fs @ drop (base + pages) (mt_slots t)"
        "frames_ok a' (mset fs + (mset (flatten (mt_slots t)) + M))" "distinct fs"
        "\<forall>f \<in> set fs. f \<notin># mset (flatten (mt_slots t)) + M"
      by (auto simp: Let_def)
    let ?e = "MemoryObject_new cfg x owner base pages placement None"
    note em = taken_run_empty [OF table_okD(1) [OF tok] fs(2)]
    have fl: "flatten (map Some fs) = fs" by (induction fs) auto
    have "flatten (mt_slots t) = flatten (take base (mt_slots t)) @ flatten (run_of (mt_slots t) base pages) @ flatten (drop (base + pages) (mt_slots t))"
      using arg_cong [OF run_split [OF em(1)], of flatten] by simp
    moreover have "flatten (run_of (mt_slots t) base pages) = []"
      using em by (intro flatten_none) (auto simp: run_of_def)
    ultimately have m: "mset (flatten (mt_slots t')) = mset fs + mset (flatten (mt_slots t))"
      by (simp add: fs(3) fl)
    have m': "mset (flatten (mt_slots t')) = mset (fs @ flatten (mt_slots t))" using m by simp
    have d: "distinct (flatten (mt_slots t'))"
      unfolding mset_eq_imp_distinct_iff [OF m'] using fs(5,6) table_okD(2) [OF tok] by auto
    have e: "mo_base ?e = base" "mo_pages ?e = pages" "mo_object ?e = x" "mo_pager ?e = None" by (simp_all add: MemoryObject_new_def)
    have be: "backing_ok cfg (mt_slots t') ?e"
      using em(1) fs(1) by (auto simp: backing_ok_def e fs(3) nth_append)
    have run: "run_free (mt_taken t) (mo_pages ?e) (mo_base ?e)" using fs(2) by (simp add: e)
    have same: "mt_slots t' ! i = mt_slots t ! i" if "i < length (mt_slots t)" "\<not> in_run ?e i" for i
      using that em(1) fs(1) unfolding fs(3) in_run_def e(1,2) by (auto simp: nth_append)
    have obj: "mo_object ?e = ObjectId (mt_next_id t)" using e(3) x(1) by simp
    have "table_ok cfg t'"
    proof (rule new_object_ok [OF tok x(3) en run _ d be obj x(2) n])
      fix i assume "i < length (mt_slots t)" "\<not> in_run ?e i"
      then show "mt_slots t' ! i = mt_slots t ! i" by (rule same)
    qed
    moreover have "frames_ok a' (mset (flatten (mt_slots t')) + M)" using fs(4) by (simp add: m add.assoc)
    moreover have "unat (mt_next_id t') = unat (mt_next_id t) + 1" using x(2) n by (simp add: unat_word_ariths)
    ultimately show ?thesis by (simp add: mem_ok_def)
  qed
qed

lemma create_paged_ok:
  assumes ok: "mem_ok cfg (t, mem, a) M" "cfg_ok cfg" and n: "unat (mt_next_id t) + 1 < 2 ^ 32"
    and c: "MemoryTable_create_paged cfg t owner pages pager = (r, t')"
  shows "mem_ok cfg (t', mem, a) M \<and> unat (mt_next_id t') \<le> unat (mt_next_id t) + 1"
proof -
  have tok: "table_ok cfg t" and fo: "frames_ok a (mset (flatten (mt_slots t)) + M)" using ok(1) by (simp_all add: mem_ok_def)
  note cs = create_paged_spec [OF table_okD(1) [OF tok] next_id_fresh [OF tok] c]
  show ?thesis
  proof (cases r)
    case (Err e)
    with cs tok fo show ?thesis by (simp add: mem_ok_def)
  next
    case (Ok x)
    with cs obtain base where x: "x = ObjectId (mt_next_id t)" "mt_next_id t' = mt_next_id t + 1" "mem_wf cfg t'" "mt_slots t' = mt_slots t"
      and en: "entries t' = insert (MemoryObject_new cfg x owner base pages Placement_default (Some pager)) (entries t)"
      and r: "run_free (mt_taken t) pages base"
      by (auto simp: Let_def)
    let ?e = "MemoryObject_new cfg x owner base pages Placement_default (Some pager)"
    note em = taken_run_empty [OF table_okD(1) [OF tok] r]
    have e: "mo_base ?e = base" "mo_pages ?e = pages" "mo_object ?e = x" "mo_pager ?e = Some pager"
      "mo_cache ?e = ObjectCache_new (MAX_CACHED_PAGES cfg) (DIRTY_LIMIT cfg)"
      by (simp_all add: MemoryObject_new_def)
    have "cache_agrees (mt_slots t') ?e" using em(2) by (auto simp: cache_agrees_def e x(4))
    then have be: "backing_ok cfg (mt_slots t') ?e"
      using ok(2) unfolding backing_ok_def e by (simp add: cfg_ok_def) (simp add: ObjectCache_new_def)
    have run: "run_free (mt_taken t) (mo_pages ?e) (mo_base ?e)" using r by (simp add: e)
    have d: "distinct (flatten (mt_slots t'))" using table_okD(2) [OF tok] by (simp add: x(4))
    have same: "mt_slots t' ! i = mt_slots t ! i" for i by (simp add: x(4))
    have obj: "mo_object ?e = ObjectId (mt_next_id t)" using e(3) x(1) by simp
    have "table_ok cfg t'" by (rule new_object_ok [OF tok x(3) en run same d be obj x(2) n])
    with fo show ?thesis using x(2,4) n by (simp add: mem_ok_def unat_word_ariths)
  qed
qed

lemma supply_ok:
  assumes ok: "mem_ok cfg (t, mem, a) M" "cfg_ok cfg" and c: "supply_step F t x page a = (r, t', a')"
  shows "mem_ok cfg (t', mem, a') M \<and> mt_next_id t' = mt_next_id t"
proof -
  have tok: "table_ok cfg t" and fo: "frames_ok a (mset (flatten (mt_slots t)) + M)" using ok(1) by (simp_all add: mem_ok_def)
  obtain fr a1 where al: "alloc_frame F a = (fr, a1)" by fastforce
  show ?thesis
  proof (cases fr)
    case None
    then show ?thesis using c al alloc_exhausted [OF fo] tok by (auto simp: supply_step_def mem_ok_def)
  next
    case (Some f)
    note af = alloc_fresh [OF fo al [unfolded Some]]
    have fresh: "f \<notin> set (flatten (mt_slots t))" using af by auto
    obtain r1 t1 where s: "MemoryTable_supply t x page f = (r1, t1)" by fastforce
    note sp = supply_spec [OF tok ok(2) fresh s]
    show ?thesis
    proof (cases r1)
      case (Err e)
      then have "t' = t" "a' = free_frame F a1 f" using c al Some s sp by (auto simp: supply_step_def)
      then show ?thesis using tok af free_held by (auto simp: mem_ok_def)
    next
      case (Ok u)
      then have "t' = t1" "a' = a1" using c al Some s by (auto simp: supply_step_def)
      then show ?thesis using af sp Ok by (simp add: mem_ok_def)
    qed
  qed
qed

lemma reclaim_ok:
  assumes ok: "mem_ok cfg (t, mem, a) M" "cfg_ok cfg" and c: "reclaim_step F t a = (r, t', a')"
  shows "mem_ok cfg (t', mem, a') M \<and> mt_next_id t' = mt_next_id t"
proof -
  have tok: "table_ok cfg t" and fo: "frames_ok a (mset (flatten (mt_slots t)) + M)" using ok(1) by (simp_all add: mem_ok_def)
  show ?thesis
  proof (cases "MemoryTable_any_evictable t")
    case None
    then show ?thesis using c ok(1) by (simp add: reclaim_step_def)
  next
    case (Some p)
    then obtain x off where s: "MemoryTable_any_evictable t = Some (x, off)" by (cases p) auto
    note ev = any_evictable_spec [OF tok ok(2) s]
    obtain fo' t1 where e: "MemoryTable_evict t x off = (fo', t1)" by fastforce
    then obtain f where f: "fo' = Some f" using ev(4,5) by auto
    note sp = evict_spec [OF tok ok(2) ev(1) e ev(2), unfolded f option.case]
    have "t' = t1" "a' = free_frame F a f" using c s e f by (auto simp: reclaim_step_def)
    moreover have "frames_ok (free_frame F a f) (mset (flatten (mt_slots t1)) + M)"
      using fo sp by (intro free_held) simp
    ultimately show ?thesis using sp by (simp add: mem_ok_def)
  qed
qed

lemma destroy_ok:
  assumes ok: "mem_ok cfg (t, mem, a) M" and c: "MemoryTable_destroy F t x a = (n, t', a')"
  shows "mem_ok cfg (t', mem, a') M \<and> mt_next_id t' = mt_next_id t"
proof -
  have tok: "table_ok cfg t" and fo: "frames_ok a (mset (flatten (mt_slots t)) + M)" using ok by (simp_all add: mem_ok_def)
  note t = table_okD [OF tok]
  show ?thesis
  proof (cases "\<exists>e. MemoryTable_find t x = Some e \<and> mo_attached e = None")
    case False
    have "t' = t \<and> a' = a"
    proof (cases "find_key mo_object (mt_objects t) x")
      case None
      then show ?thesis using c by (simp add: MemoryTable_destroy_def set_position)
    next
      case (Some i)
      then obtain v where v: "mt_objects t ! i = Some v" "key_lookup mo_object (mt_objects t) x = Some v" by (rule find_key_SomeD)
      then have "mo_attached v \<noteq> None" using False by (auto simp: find_lookup)
      then show ?thesis using c v Some by (auto simp: MemoryTable_destroy_def set_position)
    qed
    with ok show ?thesis by simp
  next
    case True
    then obtain e where e: "MemoryTable_find t x = Some e" "mo_attached e = None" by blast
    note d = destroy_spec [OF t(1) e c]
    let ?fs = "flatten (run_of (mt_slots t) (mo_base e) (mo_pages e))"
    have en: "e \<in> entries t" using e(1) find_entry [OF t(1)] by simp
    have "frames_ok a (mset ?fs + (mset (flatten (mt_slots t')) + M))" using fo d(5) by (simp add: ac_simps)
    then have "frames_ok a' (mset (flatten (mt_slots t')) + M)" using free_all d(3) by simp
    moreover have "mset (flatten (mt_slots t)) = mset (?fs @ flatten (mt_slots t'))" using d(5) by simp
    then have "distinct (flatten (mt_slots t'))" using mset_eq_imp_distinct_iff t(2) by (metis distinct_append)
    moreover have "backing_ok cfg (mt_slots t') u" if u: "u \<in> entries t - {e}" for u
    proof -
      have "mt_slots t' ! (mo_base u + p) = mt_slots t ! (mo_base u + p)" if "p < mo_pages u" for p
      proof -
        have "\<not> in_run e (mo_base u + p)" using mem_wfD(6) [OF t(1), of u e "mo_base u + p"] u en that by (auto simp: in_run_def)
        then show ?thesis using mem_wfD(5) [OF t(1), of u] u that by (auto simp: d(9) nth_set_range in_run_def)
      qed
      then have "backing_ok cfg (mt_slots t') u = backing_ok cfg (mt_slots t) u" by (intro backing_ok_cong) simp
      then show ?thesis using t(3) u by simp
    qed
    ultimately show ?thesis using d(1,6,7) t(4) by (simp add: mem_ok_def table_ok_def)
  qed
qed

lemma in_place_ok:
  assumes "mem_ok cfg (t, mem, a) M" "\<exists>f. keeps_backing f \<and> t' = MemoryTable_set t x f"
  shows "mem_ok cfg (t', mem, a) M \<and> mt_next_id t' = mt_next_id t"
  using assms set_table_ok by (auto simp: mem_ok_def)

lemma mem_exec_ok:
  assumes "mem_ok cfg s M" "cfg_ok cfg" "unat (mt_next_id (fst s)) + 1 < 2 ^ 32"
  shows "mem_ok cfg (mem_exec cfg F s p) M \<and> unat (mt_next_id (fst (mem_exec cfg F s p))) \<le> unat (mt_next_id (fst s)) + 1"
proof -
  obtain t mem a where s: "s = (t, mem, a)" by (cases s) auto
  have ok: "mem_ok cfg (t, mem, a) M" and n: "unat (mt_next_id t) + 1 < 2 ^ 32" using assms s by auto
  note ip = in_place_ok [OF ok in_place_ops(1)] in_place_ok [OF ok in_place_ops(2)] in_place_ok [OF ok in_place_ops(3)]
    in_place_ok [OF ok in_place_ops(4)] in_place_ok [OF ok in_place_ops(5)] in_place_ok [OF ok in_place_ops(6)]
    in_place_ok [OF ok in_place_ops(7)] in_place_ok [OF ok in_place_ops(8)] in_place_ok [OF ok in_place_ops(9)]
    in_place_ok [OF ok in_place_ops(10)] in_place_ok [OF ok in_place_ops(11)] in_place_ok [OF ok in_place_ops(12)]
  show ?thesis
  proof (cases p)
    case (OpCreate owner pages placement)
    then show ?thesis using create_ok [OF ok n] by (cases "MemoryTable_create cfg F t owner pages placement mem a") (auto simp: s)
  next
    case (OpCreatePaged owner pages pager)
    then show ?thesis using create_paged_ok [OF ok assms(2) n] by (cases "MemoryTable_create_paged cfg t owner pages pager") (auto simp: s)
  next
    case (OpSupply x page)
    then show ?thesis using supply_ok [OF ok assms(2)] by (cases "supply_step F t x page a") (auto simp: s)
  next
    case OpReclaim
    then show ?thesis using reclaim_ok [OF ok assms(2)] by (cases "reclaim_step F t a") (auto simp: s)
  next
    case (OpDestroy x)
    then show ?thesis using destroy_ok [OF ok] by (cases "MemoryTable_destroy F t x a") (auto simp: s)
  qed (use ip in \<open>simp_all add: s\<close>)
qed

lemma mem_run_ok:
  assumes "mem_ok cfg s M" "cfg_ok cfg" "unat (mt_next_id (fst s)) + length ops < 2 ^ 32"
  shows "mem_ok cfg (mem_run cfg F s ops) M"
  using assms(1,3)
proof (induction ops arbitrary: s)
  case (Cons p ops)
  have "unat (mt_next_id (fst s)) + 1 < 2 ^ 32" using Cons.prems(2) by simp
  note st = mem_exec_ok [OF Cons.prems(1) assms(2) this, of p]
  have "mem_ok cfg (mem_run cfg F (mem_exec cfg F s p) ops) M"
    by (rule Cons.IH) (use st Cons.prems(2) in auto)
  then show ?case by (simp add: mem_run_def)
qed (simp add: mem_run_def)

end

subsection \<open>What a run guarantees\<close>

lemma flatten_nth_inj:
  assumes "distinct (flatten xs)" "i < length xs" "j < length xs" "xs ! i = Some v" "xs ! j = Some v"
  shows "i = j"
proof (rule ccontr)
  assume ne: "i \<noteq> j"
  have "mset (flatten xs) = add_mset v (mset (flatten (xs[i := None])))" using mset_flatten_clear [OF assms(2,4)] by simp
  moreover have "v \<in> set (flatten (xs[i := None]))" using assms(3,5) ne by (intro nth_in_flatten [of j]) auto
  ultimately have "count (mset (flatten xs)) v \<ge> 2" by (simp add: Suc_le_eq)
  then show False using assms(1) by (metis distinct_count_atmost_1 not_less_eq_eq numeral_2_eq_2 One_nat_def order_refl le_zero_eq nat.distinct(1))
qed

lemma frames_of_slot:
  assumes "mem_wf cfg t" "f \<in> set (MemoryTable_frames_of t x n)"
  shows "\<exists>e i. MemoryTable_find t x = Some e \<and> in_run e i \<and> i < length (mt_slots t) \<and> mt_slots t ! i = Some f"
proof -
  obtain e where e: "MemoryTable_find t x = Some e" "f \<in> set (flatten (run_of (mt_slots t) (mo_base e) (mo_pages e)))"
    using assms(2) by (cases "MemoryTable_find t x") (auto simp: MemoryTable_frames_of_def dest: in_set_takeD)
  have l: "mo_base e + mo_pages e \<le> length (mt_slots t)" using mem_wfD(5) [OF assms(1)] e(1) find_entry [OF assms(1)] by auto
  from e(2) obtain k where "k < mo_pages e" "run_of (mt_slots t) (mo_base e) (mo_pages e) ! k = Some f"
    using l by (auto simp: set_flatten in_set_conv_nth)
  then have "mt_slots t ! (mo_base e + k) = Some f" "in_run e (mo_base e + k)" using l by (auto simp: nth_run_of in_run_def)
  with e(1) l \<open>k < mo_pages e\<close> show ?thesis by (intro exI [of _ e] exI [of _ "mo_base e + k"]) simp
qed

lemma frames_disjoint:
  assumes "table_ok cfg t" "x \<noteq> y"
  shows "set (MemoryTable_frames_of t x n) \<inter> set (MemoryTable_frames_of t y k) = {}"
proof (rule ccontr)
  note t = table_okD [OF assms(1)]
  assume "set (MemoryTable_frames_of t x n) \<inter> set (MemoryTable_frames_of t y k) \<noteq> {}"
  then obtain f where "f \<in> set (MemoryTable_frames_of t x n)" "f \<in> set (MemoryTable_frames_of t y k)" by blast
  with frames_of_slot [OF t(1)] obtain e i e' j where
    a: "MemoryTable_find t x = Some e" "in_run e i" "i < length (mt_slots t)" "mt_slots t ! i = Some f" and
    b: "MemoryTable_find t y = Some e'" "in_run e' j" "j < length (mt_slots t)" "mt_slots t ! j = Some f" by metis
  have "i = j" by (rule flatten_nth_inj [OF t(2) a(3) b(3) a(4) b(4)])
  moreover have "e \<in> entries t" "mo_object e = x" "e' \<in> entries t" "mo_object e' = y"
    using a(1) b(1) find_entry [OF t(1)] by auto
  ultimately show False using mem_wfD(6) [OF t(1), of e e' i] a(2) b(2) assms(2) by auto
qed

lemma slots_in_use_sum:
  assumes "mem_wf cfg t"
  shows "MemoryTable_slots_in_use t = (\<Sum>e \<in> entries t. mo_pages e)"
proof -
  note w = mem_wfD [OF assms]
  have "MemoryTable_slots_in_use t = card {i. i < length (mt_taken t) \<and> mt_taken t ! i}"
    by (simp add: MemoryTable_slots_in_use_def length_filter_conv_card)
  also have "{i. i < length (mt_taken t) \<and> mt_taken t ! i} = (\<Union>e \<in> entries t. {mo_base e..<mo_base e + mo_pages e})"
    using w(2,5,7) by (force simp: in_run_def)
  also have "card \<dots> = (\<Sum>e \<in> entries t. card {mo_base e..<mo_base e + mo_pages e})"
    using w(6) by (intro card_UN_disjoint) (fastforce simp: entries_def in_run_def)+
  finally show ?thesis by simp
qed

lemma fresh_table_ok: "table_ok cfg (MemoryTable_new n k)"
  by (simp add: table_ok_def) (simp add: MemoryTable_new_def entries_def)

lemma fresh_table_next_id: "unat (mt_next_id (MemoryTable_new n k)) = 4096"
  by (simp add: MemoryTable_new_def MEMORY_OBJECT_ID_BASE_def)

lemma run_table_ok:
  assumes "cfg_ok cfg" "bump_accounted a M" "length ops < 2 ^ 32 - 4096"
    and "mem_run cfg bump_frames (MemoryTable_new max_objects max_slots, mem, a) ops = (t, mem', a')"
  shows "table_ok cfg t" and "bump_accounted a' (mset (flatten (mt_slots t)) + M)"
proof -
  have "mset (flatten (mt_slots (MemoryTable_new max_objects max_slots))) = {#}" by (simp add: MemoryTable_new_def)
  then have "bump_acc.mem_ok cfg (MemoryTable_new max_objects max_slots, mem, a) M"
    using assms(2) fresh_table_ok by (simp add: bump_acc.mem_ok_def)
  from bump_acc.mem_run_ok [OF this assms(1), of ops] have "bump_acc.mem_ok cfg (t, mem', a') M"
    using assms(3) by (simp add: fresh_table_next_id assms(4))
  then show "table_ok cfg t" "bump_accounted a' (mset (flatten (mt_slots t)) + M)" by (simp_all add: bump_acc.mem_ok_def)
qed

lemma memory_table_parts:
  assumes "cfg_ok cfg" "bump_accounted a M" "length ops < 2 ^ 32 - 4096"
    and "mem_run cfg bump_frames (MemoryTable_new max_objects max_slots, mem, a) ops = (t, mem', a')"
  shows "bump_accounted a' (mset (flatten (mt_slots t)) + M)"
    and "x \<noteq> y \<Longrightarrow> set (MemoryTable_frames_of t x n) \<inter> set (MemoryTable_frames_of t y k) = {}"
    and "MemoryTable_find t x = Some e \<Longrightarrow> mo_pager e = None \<Longrightarrow> page < mo_pages e \<Longrightarrow> MemoryTable_frame_at t x page \<noteq> None"
    and "MemoryTable_find t x = Some e \<Longrightarrow> mo_pager e = Some p \<Longrightarrow> page < mo_pages e \<Longrightarrow>
      MemoryTable_frame_at t x page \<noteq> None \<longleftrightarrow> ObjectCache_is_resident (mo_cache e) (of_nat page * FRAME_SIZE)"
    and "MemoryTable_slots_in_use t = (\<Sum>e \<in> entries t. mo_pages e)"
proof -
  note ok = run_table_ok(1) [OF assms] and fr = run_table_ok(2) [OF assms]
  show "bump_accounted a' (mset (flatten (mt_slots t)) + M)" by (rule fr)
  show "x \<noteq> y \<Longrightarrow> set (MemoryTable_frames_of t x n) \<inter> set (MemoryTable_frames_of t y k) = {}" by (rule frames_disjoint [OF ok])
  note t = table_okD [OF ok]
  show "MemoryTable_frame_at t x page \<noteq> None" if "MemoryTable_find t x = Some e" "mo_pager e = None" "page < mo_pages e"
    using that t(3) [of e] find_entry [OF t(1), of x e] by (simp add: MemoryTable_frame_at_def backing_ok_def)
  show "MemoryTable_frame_at t x page \<noteq> None \<longleftrightarrow> ObjectCache_is_resident (mo_cache e) (of_nat page * FRAME_SIZE)"
    if "MemoryTable_find t x = Some e" "mo_pager e = Some p" "page < mo_pages e"
  proof -
    have e: "e \<in> entries t" using that(1) find_entry [OF t(1)] by simp
    have ag: "cache_agrees (mt_slots t) e" using t(3) [OF e] that(2) by (simp add: backing_ok_def)
    have small: "q < 2 ^ 32" if "q < mo_pages e" for q
      using mem_wfD(4) [OF t(1) e] assms(1) that by (simp add: cfg_ok_def)
    have "(\<exists>q < mo_pages e. of_nat page * FRAME_SIZE = (of_nat q * FRAME_SIZE :: 64 word) \<and> mt_slots t ! (mo_base e + q) \<noteq> None) \<longleftrightarrow>
        mt_slots t ! (mo_base e + page) \<noteq> None"
      using page_offset_inj [OF small small] that(3) by metis
    then show ?thesis using ag that by (simp add: is_resident_iff cache_agrees_def MemoryTable_frame_at_def)
  qed
  show "MemoryTable_slots_in_use t = (\<Sum>e \<in> entries t. mo_pages e)" by (rule slots_in_use_sum [OF t(1)])
qed

text \<open>C7: The memory table and the frame allocator stay in step, in a configuration whose cache
  holds as many pages as an object may have (\<open>MAX_OBJECT_PAGES\<close> at most \<open>MAX_CACHED_PAGES\<close>: true
  of the defaults, 16 and 64, but not enforced by the ranges the configuration allows). After
  any run of fewer than 2^32 - 4096 operations on a fresh table, so that its 32-bit id counter
  does not wrap (creations, page supplies, reclaims, destructions, changes of holders, class,
  attachment and dirty state, in any order and whatever each answers), the frames the table
  has drawn and not returned are exactly those in its slots, beside what others hold; no frame
  belongs to two objects; a kernel-backed object has every page resident; a page of a
  service-backed object is in its cache exactly when the object has a frame for it; and the
  slots in use are the pages of the live objects.\<close>
theorem memory_table_sound:
  assumes "cfg_ok cfg" "bump_accounted a M" "length ops < 2 ^ 32 - 4096"
    and "mem_run cfg bump_frames (MemoryTable_new max_objects max_slots, mem, a) ops = (t, mem', a')"
  shows "bump_accounted a' (mset (flatten (mt_slots t)) + M) \<and>
    (\<forall>x y n k. x \<noteq> y \<longrightarrow> set (MemoryTable_frames_of t x n) \<inter> set (MemoryTable_frames_of t y k) = {}) \<and>
    (\<forall>x e page. MemoryTable_find t x = Some e \<and> mo_pager e = None \<and> page < mo_pages e \<longrightarrow> MemoryTable_frame_at t x page \<noteq> None) \<and>
    (\<forall>x e p page. MemoryTable_find t x = Some e \<and> mo_pager e = Some p \<and> page < mo_pages e \<longrightarrow>
      (MemoryTable_frame_at t x page \<noteq> None \<longleftrightarrow> ObjectCache_is_resident (mo_cache e) (of_nat page * FRAME_SIZE))) \<and>
    MemoryTable_slots_in_use t = (\<Sum>e \<in> entries t. mo_pages e)"
  by (intro conjI allI impI; (elim conjE)?; (rule memory_table_parts [OF assms]; assumption))

definition sample_cfg :: MemoryConfig where
  "sample_cfg = \<lparr> MAX_OBJECT_PAGES = 4, MAX_CACHED_PAGES = 4 \<rparr>"

definition sample_mem_ops :: "MemOp list" where
  "sample_mem_ops = [OpCreate (ObjectId 7) 2 Placement_default, OpCreatePaged (ObjectId 7) 2 (ObjectId 9),
     OpSupply (ObjectId 0x1001) 1, OpDestroy (ObjectId 0x1000)]"

definition sample_mem_run :: "MemoryTable \<times> PhysMem \<times> BumpFrameAllocator" where
  "sample_mem_run = mem_run sample_cfg bump_frames (MemoryTable_new 2 8, \<lambda>_. [], BumpFrameAllocator_new 4 2 sample_boot_map) sample_mem_ops"

lemma sample_boot_accounted: "bump_accounted (BumpFrameAllocator_new nf ns sample_boot_map) {#}"
  by (rule BumpFrameAllocator_new_accounted) code_simp

theorem memory_table_sound_witness:
  "case sample_mem_run of (t, _, a) \<Rightarrow>
     bump_accounted a (mset (flatten (mt_slots t))) \<and> length (flatten (mt_slots t)) = 1 \<and>
     MemoryTable_frame_at t (ObjectId 0x1001) 1 \<noteq> None"
proof -
  obtain t m a where r: "sample_mem_run = (t, m, a)" by (cases sample_mem_run) auto
  have c: "cfg_ok sample_cfg" by (simp add: cfg_ok_def sample_cfg_def)
  have l: "length sample_mem_ops < 2 ^ 32 - 4096" by (simp add: sample_mem_ops_def)
  note th = memory_table_sound [OF c sample_boot_accounted l r [unfolded sample_mem_run_def]]
  have "case sample_mem_run of (t, _, a) \<Rightarrow> length (flatten (mt_slots t)) = 1 \<and> MemoryTable_frame_at t (ObjectId 0x1001) 1 \<noteq> None"
    by code_simp
  with th show ?thesis unfolding r by simp
qed

text \<open>C13: Creating a memory object hands over zeroed memory that nobody else holds, or changes
  nothing. On success the new object has exactly the pages asked for, all resident, every
  frame page-aligned, filled with zeros, held by nobody before and placed where the request
  said, and the creator is its only holder. On every failure (a bad size, a full table, no
  run of slots, memory running out part way, a placement the frames do not satisfy) the
  table is what it was and every frame drawn has gone back.\<close>
theorem memory_create_zeroed_or_undone:
  assumes "table_ok cfg t" "bump_accounted a (mset (flatten (mt_slots t)) + M)"
    and "MemoryTable_create cfg bump_frames t owner pages placement mem a = (r, t', mem', a')"
  shows "case r of
      Err _ \<Rightarrow> t' = t \<and> bump_accounted a' (mset (flatten (mt_slots t)) + M)
    | Ok x \<Rightarrow> MemoryTable_find t x = None \<and> MemoryTable_pages_of t' x = Some pages \<and>
        (\<forall>h. MemoryTable_is_held_by t' x h \<longleftrightarrow> h = owner) \<and>
        Placement_satisfied_by placement (map (MemoryTable_frame_at t' x) [0..<pages]) = Ok () \<and>
        (\<forall>page < pages. \<exists>f. MemoryTable_frame_at t' x page = Some f \<and> is_aligned f FRAME_SIZE \<and>
           mem' f = replicate 4096 0 \<and> f \<notin># mset (flatten (mt_slots t)) + M) \<and>
        (\<forall>y. y \<noteq> x \<longrightarrow> MemoryTable_find t' y = MemoryTable_find t y)"
proof -
  note wf = table_okD(1) [OF assms(1)]
  note cs = bump_acc.memory_create_spec [OF wf assms(2) next_id_fresh [OF assms(1)] assms(3)]
  show ?thesis
  proof (cases r)
    case (Err e)
    with cs show ?thesis by simp
  next
    case (Ok x)
    with cs obtain base fs where x: "x = ObjectId (mt_next_id t)"
      and e: "MemoryTable_find t' = (MemoryTable_find t)(x \<mapsto> MemoryObject_new cfg x owner base pages placement None)"
      and fs: "length fs = pages" "run_free (mt_taken t) pages base"
        "mt_slots t' = take base (mt_slots t) @ map Some fs @ drop (base + pages) (mt_slots t)"
        "Placement_satisfied_by placement (map Some fs) = Ok ()"
        "\<forall>f \<in> set fs. f \<notin># mset (flatten (mt_slots t)) + M \<and> is_aligned f FRAME_SIZE \<and> mem' f = replicate 4096 0"
      by (auto simp: Let_def)
    have l: "base + pages \<le> length (mt_slots t)" by (rule taken_run_empty(1) [OF wf fs(2)])
    have fa: "MemoryTable_frame_at t' x page = Some (fs ! page)" if "page < pages" for page
      using that l fs(1) by (simp add: MemoryTable_frame_at_def e MemoryObject_new_def fs(3) nth_append)
    then have "map (MemoryTable_frame_at t' x) [0..<pages] = map Some fs"
      using fs(1) by (intro nth_equalityI) auto
    moreover have "MemoryTable_find t x = None" using next_id_fresh [OF assms(1)] x by simp
    moreover have "MemoryTable_pages_of t' x = Some pages" by (simp add: MemoryTable_pages_of_def e MemoryObject_new_def)
    moreover have "MemoryTable_is_held_by t' x h \<longleftrightarrow> h = owner" for h
      by (auto simp: MemoryTable_is_held_by_def e MemoryObject_new_def sole_holder_def MAX_HOLDERS_def numeral_eq_Suc)
    moreover have "MemoryTable_find t' y = MemoryTable_find t y" if "y \<noteq> x" for y using that by (simp add: e)
    ultimately show ?thesis using Ok fa fs(1,4,5) by auto
  qed
qed

theorem memory_create_zeroed_or_undone_witness:
  "case MemoryTable_create sample_cfg bump_frames (MemoryTable_new 2 8) (ObjectId 7) 2 Placement_default (\<lambda>_. [])
      (BumpFrameAllocator_new 4 2 sample_boot_map) of
     (r, t', mem', a') \<Rightarrow> r = Ok (ObjectId 0x1000) \<and>
       (\<forall>page < 2. \<exists>f. MemoryTable_frame_at t' (ObjectId 0x1000) page = Some f \<and> mem' f = replicate 4096 0)"
proof -
  let ?c = "MemoryTable_create sample_cfg bump_frames (MemoryTable_new 2 8) (ObjectId 7) 2 Placement_default (\<lambda>_. [])
      (BumpFrameAllocator_new 4 2 sample_boot_map)"
  obtain r t' mem' a' where c: "?c = (r, t', mem', a')" by (metis prod_cases4)
  have "fst ?c = Ok (ObjectId 0x1000)" by code_simp
  then have r: "r = Ok (ObjectId 0x1000)" using c by simp
  have "mset (flatten (mt_slots (MemoryTable_new 2 8))) = {#}" by (simp add: MemoryTable_new_def)
  then have "bump_accounted (BumpFrameAllocator_new 4 2 sample_boot_map) (mset (flatten (mt_slots (MemoryTable_new 2 8))) + {#})"
    using sample_boot_accounted by simp
  from memory_create_zeroed_or_undone [OF fresh_table_ok this c] r c show ?thesis by auto
qed

text \<open>C16: Runs of frame slots are found first fit and only refused when there is none. The
  run handed out is free and as long as asked, no lower start would have done, and afterwards
  exactly those slots are taken as well; a refusal of a non-empty request means the pool has
  no free run of that length anywhere, and changes nothing. (The scan that skips past a taken
  slot therefore misses no run, and it terminates.)\<close>
theorem take_run_first_fit:
  "case MemoryTable_take_run t pages of
     (Some base, t') \<Rightarrow> run_free (mt_taken t) pages base \<and> (\<forall>c < base. \<not> run_free (mt_taken t) pages c) \<and>
       (\<forall>i < length (mt_taken t). mt_taken t' ! i \<longleftrightarrow> mt_taken t ! i \<or> (base \<le> i \<and> i < base + pages)) \<and>
       mt_objects t' = mt_objects t
   | (None, t') \<Rightarrow> t' = t \<and> (pages = 0 \<or> (\<forall>c. \<not> run_free (mt_taken t) pages c))"
proof (cases "MemoryTable_take_run t pages")
  case (Pair r t')
  show ?thesis
  proof (cases r)
    case None
    then show ?thesis using take_run_None Pair by simp
  next
    case (Some base)
    note tk = take_run_Some [OF Pair [unfolded Some]]
    have "mt_taken t' ! i \<longleftrightarrow> mt_taken t ! i \<or> (base \<le> i \<and> i < base + pages)" if "i < length (mt_taken t)" for i
      using that by (auto simp: tk(3) nth_set_range)
    moreover have "mt_objects t' = mt_objects t" by (simp add: tk(3))
    ultimately show ?thesis using tk(2,4) Pair Some by simp
  qed
qed

theorem take_run_first_fit_witness:
  "let t = (MemoryTable_new 1 6)\<lparr>mt_taken := [False, True, False, False, True, False]\<rparr>
   in fst (MemoryTable_take_run t 2) = Some 2 \<and> \<not> run_free (mt_taken t) 2 0 \<and> \<not> run_free (mt_taken t) 2 1 \<and>
      fst (MemoryTable_take_run t 3) = None \<and> (\<forall>c. \<not> run_free (mt_taken t) 3 c)"
proof -
  let ?t = "(MemoryTable_new 1 6)\<lparr>mt_taken := [False, True, False, False, True, False]\<rparr>"
  have f: "fst (MemoryTable_take_run ?t 2) = Some 2" "fst (MemoryTable_take_run ?t 3) = None" by code_simp+
  obtain t2 t3 where p: "MemoryTable_take_run ?t 2 = (Some 2, t2)" "MemoryTable_take_run ?t 3 = (None, t3)"
    using f by (metis prod.collapse)
  have "\<forall>c < 2. \<not> run_free (mt_taken ?t) 2 c" using take_run_first_fit [of ?t 2, unfolded p(1) prod.case option.case] by blast
  moreover have "\<forall>c. \<not> run_free (mt_taken ?t) 3 c" using take_run_first_fit [of ?t 3, unfolded p(2) prod.case option.case] by simp
  ultimately show ?thesis using f by (simp add: Let_def)
qed

subsection \<open>Holders\<close>

lemma keep_holders_spec:
  "n + length hs \<le> length kept \<Longrightarrow> keep_holders hs n kept = (n + length hs, take n kept @ map Some hs @ drop (n + length hs) kept)"
proof (induction hs arbitrary: n kept)
  case (Cons h hs)
  have "take (n + 1) (kept[n := Some h]) = take n kept @ [Some h]" using Cons.prems by (simp add: take_Suc_conv_app_nth)
  then show ?case using Cons.IH [of "n + 1" "kept[n := Some h]"] Cons.prems by simp
qed simp

definition holders_of :: "MemoryTable \<Rightarrow> ObjectId \<Rightarrow> ObjectId set" where
  "holders_of t x = {h. MemoryTable_is_held_by t x h}"

text \<open>Every object has \<open>MAX_HOLDERS\<close> places for holders and names each of them once. Creation
  establishes it and every operation of a run keeps it.\<close>

definition holder_set :: "ObjectId option list \<Rightarrow> bool" where
  "holder_set hs \<longleftrightarrow> length hs = MAX_HOLDERS \<and> distinct (flatten hs)"

definition holders_ok :: "MemoryTable \<Rightarrow> bool" where
  "holders_ok t \<longleftrightarrow> (\<forall>e. Some e \<in> set (mt_objects t) \<longrightarrow> holder_set (mo_holders e))"

definition packed :: "ObjectId list \<Rightarrow> ObjectId option list" where
  "packed hs = map Some hs @ replicate (MAX_HOLDERS - length hs) None"

lemma flatten_packed [simp]: "flatten (packed hs) = hs"
  by (induction hs) (simp_all add: packed_def)

lemma holder_set_ops:
  "holder_set (sole_holder h)"
  "holder_set hs \<Longrightarrow> holder_set (packed (flatten (map (\<lambda>s. if s = Some h then None else s) hs)))"
  "holder_set hs \<Longrightarrow> h \<notin> set (flatten hs) \<Longrightarrow> free_slot hs = Some i \<Longrightarrow> holder_set (hs[i := Some h])"
proof -
  show "holder_set (sole_holder h)" by (simp add: holder_set_def sole_holder_def MAX_HOLDERS_def numeral_eq_Suc)
  have fm: "flatten (map (\<lambda>s. if s = Some h then None else s) hs) = filter (\<lambda>g. g \<noteq> h) (flatten hs)" for hs
    by (induction hs rule: flatten.induct) auto
  show "holder_set (packed (flatten (map (\<lambda>s. if s = Some h then None else s) hs)))" if hs: "holder_set hs"
  proof -
    have "length (filter (\<lambda>g. g \<noteq> h) (flatten hs)) \<le> MAX_HOLDERS"
      using hs length_filter_le [of "\<lambda>g. g \<noteq> h" "flatten hs"] count_some_le [of hs]
      by (simp add: holder_set_def length_flatten)
    moreover have "distinct (flatten hs)" using hs by (simp add: holder_set_def)
    ultimately show ?thesis unfolding fm by (simp add: holder_set_def) (simp add: packed_def)
  qed
  show "holder_set (hs[i := Some h])" if hs: "holder_set hs" and h: "h \<notin> set (flatten hs)" and i: "free_slot hs = Some i"
  proof -
    have "mset (flatten (hs[i := Some h])) = add_mset h (mset (flatten hs))"
      using mset_flatten_fill free_slotD [OF i] by metis
    then have "distinct (flatten (hs[i := Some h])) = distinct (h # flatten hs)"
      by (intro mset_eq_imp_distinct_iff) simp
    with hs h show ?thesis by (simp add: holder_set_def)
  qed
qed

lemma remove_holder_packs:
  fixes h :: ObjectId
  assumes "MemoryTable_find t x = Some e" "holder_set (mo_holders e)"
  defines "rest \<equiv> flatten (map (\<lambda>s. if s = Some h then None else s) (mo_holders e))"
  shows "MemoryTable_remove_holder t x h = (rest \<noteq> [], MemoryTable_set t x (\<lambda>e. e\<lparr>mo_holders := packed rest\<rparr>))"
proof -
  have "length rest \<le> MAX_HOLDERS"
    using count_some_le [of "map (\<lambda>s. if s = Some h then None else s) (mo_holders e)"] assms(2)
    by (simp add: rest_def length_flatten holder_set_def)
  then have "keep_holders rest 0 (replicate MAX_HOLDERS None) = (length rest, packed rest)"
    by (simp add: keep_holders_spec packed_def)
  then show ?thesis unfolding MemoryTable_remove_holder_def assms(1) option.case Let_def rest_def [symmetric] by simp
qed

lemma holders_ok_update:
  assumes "holders_ok t" "mt_objects t' = (mt_objects t)[i := v]" "\<And>e. v = Some e \<Longrightarrow> holder_set (mo_holders e)"
  shows "holders_ok t'"
  using assms set_update_subset_insert [of "mt_objects t" i v] unfolding holders_ok_def by auto

lemma holders_ok_cong: "holders_ok t \<Longrightarrow> mt_objects t' = mt_objects t \<Longrightarrow> holders_ok t'"
  by (simp add: holders_ok_def)

lemma holders_ok_find: "holders_ok t \<Longrightarrow> MemoryTable_find t x = Some e \<Longrightarrow> holder_set (mo_holders e)"
  by (auto simp: holders_ok_def MemoryTable_find_def find_Some_iff in_set_conv_nth dest!: nth_mem simp: set_flatten)

lemma holders_ok_set:
  assumes "holders_ok t" "\<And>e. MemoryTable_find t x = Some e \<Longrightarrow> holder_set (mo_holders e) \<Longrightarrow> holder_set (mo_holders (f e))"
  shows "holders_ok (MemoryTable_set t x f)"
proof (cases "find_key mo_object (mt_objects t) x")
  case None
  then show ?thesis using assms(1) by (simp add: MemoryTable_set_def set_position)
next
  case (Some i)
  then obtain v where v: "i < length (mt_objects t)" "mt_objects t ! i = Some v" "key_lookup mo_object (mt_objects t) x = Some v"
    by (rule find_key_SomeD)
  then have "MemoryTable_find t x = Some v" by (simp add: find_lookup)
  moreover have "holder_set (mo_holders v)" using assms(1) v(1,2) nth_mem [OF v(1)] by (simp add: holders_ok_def)
  ultimately have "holder_set (mo_holders (f v))" using assms(2) by blast
  then show ?thesis
    by (intro holders_ok_update [OF assms(1), of _ i "Some (f v)"]) (use Some v in \<open>auto simp: MemoryTable_set_def set_position\<close>)
qed

lemma holders_ok_ops:
  assumes "holders_ok t"
  shows "holders_ok (snd (MemoryTable_set_sole_holder t x h))" "holders_ok (snd (MemoryTable_add_holder t x h))"
    "holders_ok (snd (MemoryTable_remove_holder t x h))"
proof -
  show "holders_ok (snd (MemoryTable_set_sole_holder t x h))"
    using assms by (auto simp: MemoryTable_set_sole_holder_def holder_set_ops intro!: holders_ok_set split: option.splits)
  show "holders_ok (snd (MemoryTable_add_holder t x h))"
    using assms by (auto simp: MemoryTable_add_holder_def intro!: holders_ok_set holder_set_ops split: option.splits)
  show "holders_ok (snd (MemoryTable_remove_holder t x h))"
  proof (cases "MemoryTable_find t x")
    case (Some e)
    from remove_holder_packs [OF Some holders_ok_find [OF assms Some], of h] show ?thesis
      using assms Some by (auto intro!: holders_ok_set holder_set_ops)
  qed (use assms in \<open>simp add: MemoryTable_remove_holder_def\<close>)
qed

text \<open>What the other operations do to the list of objects.\<close>

lemma take_run_objects: "MemoryTable_take_run t n = (b, t1) \<Longrightarrow> mt_objects t1 = mt_objects t"
  by (auto simp: MemoryTable_take_run_def split: if_splits option.splits)

lemma new_holders: "mo_holders (MemoryObject_new cfg x owner base pages placement pager) = sole_holder owner"
  by (simp add: MemoryObject_new_def)

lemma create_objects:
  assumes "MemoryTable_create cfg F t owner pages placement mem a = (r, t', mem', a')"
  shows "mt_objects t' = mt_objects t \<or> (\<exists>i e. mt_objects t' = (mt_objects t)[i := Some e] \<and> mo_holders e = sole_holder owner)"
proof -
  obtain b t1 where t1: "MemoryTable_take_run t pages = (b, t1)" by fastforce
  obtain ok slots m1 a1 where d: "draw_frames F (the b) pages (mt_slots t1) mem a = (ok, slots, m1, a1)" by (metis prod_cases4)
  have o: "mt_objects t1 = mt_objects t" by (rule take_run_objects [OF t1])
  show ?thesis
  proof (cases "pages = 0 \<or> pages > MAX_OBJECT_PAGES cfg \<or> free_slot (mt_objects t) = None \<or> b = None \<or> \<not> ok")
    case True
    then show ?thesis using assms t1 d o
      by (auto simp: MemoryTable_create_def MemoryTable_free_run_def Let_def split: if_splits option.splits)
  next
    case False
    then obtain i base where "free_slot (mt_objects t) = Some i" "b = Some base" "ok" "\<not> pages > MAX_OBJECT_PAGES cfg" "pages \<noteq> 0" by auto
    then have "mt_objects t' = mt_objects t \<or>
        mt_objects t' = (mt_objects t)[i := Some (MemoryObject_new cfg (ObjectId (mt_next_id t1)) owner base pages placement None)]"
      using assms t1 d o by (cases "Placement_satisfied_by placement (run_of slots base pages)")
        (auto simp: MemoryTable_create_def MemoryTable_free_run_def Let_def)
    then show ?thesis using new_holders by blast
  qed
qed

lemma create_paged_objects:
  assumes "MemoryTable_create_paged cfg t owner pages pager = (r, t')"
  shows "mt_objects t' = mt_objects t \<or> (\<exists>i e. mt_objects t' = (mt_objects t)[i := Some e] \<and> mo_holders e = sole_holder owner)"
proof -
  obtain b t1 where t1: "MemoryTable_take_run t pages = (b, t1)" by fastforce
  note o = take_run_objects [OF t1]
  show ?thesis
  proof (cases "pages = 0 \<or> pages > MAX_OBJECT_PAGES cfg \<or> free_slot (mt_objects t) = None \<or> b = None")
    case True
    then show ?thesis using assms t1 o by (auto simp: MemoryTable_create_paged_def split: if_splits option.splits)
  next
    case False
    then obtain i base where "free_slot (mt_objects t) = Some i" "b = Some base" "\<not> pages > MAX_OBJECT_PAGES cfg" "pages \<noteq> 0" by auto
    then have "mt_objects t' = (mt_objects t)[i := Some (MemoryObject_new cfg (ObjectId (mt_next_id t1)) owner base pages Placement_default (Some pager))]"
      using assms t1 o by (auto simp: MemoryTable_create_paged_def Let_def)
    then show ?thesis using new_holders by blast
  qed
qed

lemma holders_ok_created:
  assumes "holders_ok t"
    "mt_objects t' = mt_objects t \<or> (\<exists>i e. mt_objects t' = (mt_objects t)[i := Some e] \<and> mo_holders e = sole_holder owner)"
  shows "holders_ok t'"
  using assms(2)
proof (elim disjE exE conjE)
  assume "mt_objects t' = mt_objects t"
  with assms(1) show ?thesis by (rule holders_ok_cong)
next
  fix i e
  assume "mt_objects t' = (mt_objects t)[i := Some e]" "mo_holders e = sole_holder owner"
  then show ?thesis by (intro holders_ok_update [OF assms(1)]) (auto simp: holder_set_ops)
qed

lemma supply_holders:
  assumes "holders_ok t"
  shows "holders_ok (snd (MemoryTable_supply t x page f))"
proof -
  have "holders_ok (t\<lparr>mt_slots := s\<rparr>)" for s by (rule holders_ok_cong [OF assms]) simp
  then have "holders_ok (MemoryTable_set (t\<lparr>mt_slots := s\<rparr>) x (\<lambda>e. e\<lparr>mo_cache := c\<rparr>))" for s c
    by (rule holders_ok_set) simp
  then show ?thesis using assms
    by (simp add: MemoryTable_supply_def Let_def split: option.splits prod.splits res.splits)
qed

lemma evict_holders:
  assumes "holders_ok t"
  shows "holders_ok (snd (MemoryTable_evict t x off))"
proof -
  have "holders_ok (t\<lparr>mt_slots := s\<rparr>)" for s by (rule holders_ok_cong [OF assms]) simp
  then have "holders_ok (MemoryTable_set (t\<lparr>mt_slots := s\<rparr>) x (\<lambda>e. e\<lparr>mo_cache := g e\<rparr>))" for s g
    by (rule holders_ok_set) simp
  then show ?thesis using assms by (simp add: MemoryTable_evict_def Let_def split: option.splits)
qed

lemma destroy_holders:
  assumes "holders_ok t"
  shows "holders_ok (fst (snd (MemoryTable_destroy F t x a)))"
  using assms holders_ok_update [OF assms, of _ _ None]
  by (simp add: MemoryTable_destroy_def MemoryTable_free_run_def Let_def split: option.splits)

lemma in_place_holders:
  assumes "holders_ok t"
  shows "holders_ok (snd (MemoryTable_classify t x c))" "holders_ok (snd (MemoryTable_attach t x at))"
    "holders_ok (snd (MemoryTable_detach t x))" "holders_ok (MemoryTable_forget_last_attachment t x)"
    "holders_ok (snd (MemoryTable_mark_dirty t x off))" "holders_ok (MemoryTable_mark_clean t x off)"
    "holders_ok (MemoryTable_begin_write_back t x off)" "holders_ok (snd (MemoryTable_end_write_back t x off))"
    "holders_ok (MemoryTable_set_faulted t x)"
  using assms
  by (auto simp: MemoryTable_classify_def MemoryTable_attach_def MemoryTable_detach_def
      MemoryTable_forget_last_attachment_def MemoryTable_mark_dirty_def MemoryTable_mark_clean_def MemoryTable_begin_write_back_def
      MemoryTable_end_write_back_def MemoryTable_set_faulted_def intro!: holders_ok_set split: option.splits prod.splits)

lemma mem_exec_holders:
  assumes "holders_ok t"
  shows "holders_ok (fst (mem_exec cfg F (t, mem, a) p))"
proof (cases p)
  case (OpCreate owner pages placement)
  then show ?thesis using holders_ok_created [OF assms create_objects]
    by (cases "MemoryTable_create cfg F t owner pages placement mem a") simp
next
  case (OpCreatePaged owner pages pager)
  then show ?thesis using holders_ok_created [OF assms create_paged_objects]
    by (cases "MemoryTable_create_paged cfg t owner pages pager") simp
next
  case (OpSupply x page)
  then show ?thesis using assms supply_holders [OF assms, of x page]
    by (auto simp: supply_step_def split: option.splits prod.splits res.splits) (metis snd_conv)+
next
  case OpReclaim
  then show ?thesis using assms evict_holders [OF assms]
    by (auto simp: reclaim_step_def split: option.splits prod.splits) (metis snd_conv)+
next
  case (OpDestroy x)
  then show ?thesis using destroy_holders [OF assms, of F x a] by (cases "MemoryTable_destroy F t x a") simp
qed (use holders_ok_ops [OF assms] in_place_holders [OF assms] in simp_all)

lemma mem_run_holders: "holders_ok (fst s) \<Longrightarrow> holders_ok (fst (mem_run cfg F s ops))"
proof (induction ops arbitrary: s)
  case (Cons p ops)
  have "holders_ok (fst (mem_exec cfg F s p))" using mem_exec_holders [of "fst s" cfg F "fst (snd s)" "snd (snd s)" p] Cons.prems by simp
  from Cons.IH [OF this] show ?case by (simp add: mem_run_def)
qed (simp add: mem_run_def)

lemma flatten_full: "length (flatten xs) = length xs \<longleftrightarrow> None \<notin> set xs"
proof (induction xs rule: flatten.induct)
  case (2 xs)
  then show ?case using count_some_le [of xs] by (simp add: length_flatten)
qed auto

lemma holders_parts:
  assumes "mem_wf cfg t" "holders_ok t" "MemoryTable_find t x = Some e"
  shows "fst (MemoryTable_remove_holder t x h) \<longleftrightarrow> holders_of t x - {h} \<noteq> {}"
    and "holders_of (snd (MemoryTable_remove_holder t x h)) = (holders_of t)(x := holders_of t x - {h})"
    and "holders_of (snd (MemoryTable_set_sole_holder t x h)) = (holders_of t)(x := {h})"
    and "MemoryTable_add_holder t x h =
      (if h \<notin> holders_of t x \<and> card (holders_of t x) = MAX_HOLDERS then (Err LimitExceeded, t)
       else (Ok (), snd (MemoryTable_add_holder t x h)))"
    and "fst (MemoryTable_add_holder t x h) = Ok () \<Longrightarrow>
      holders_of (snd (MemoryTable_add_holder t x h)) = (holders_of t)(x := insert h (holders_of t x))"
    and "card (holders_of t x) \<le> MAX_HOLDERS"
proof -
  have d: "distinct_keys mo_object (mt_objects t)" and ex: "mo_object e = x"
    using mem_wfD(1) [OF assms(1)] assms(3) find_entry [OF assms(1)] by auto
  have hs: "length (mo_holders e) = MAX_HOLDERS" "distinct (flatten (mo_holders e))"
    using holders_ok_find [OF assms(2,3)] by (simp_all add: holder_set_def)
  have upd: "holders_of (MemoryTable_set t x (\<lambda>e. e\<lparr>mo_holders := g e\<rparr>)) = (holders_of t)(x := set (flatten (g e)))" for g
    using set_spec(1) [OF d assms(3), of "\<lambda>e. e\<lparr>mo_holders := g e\<rparr>"] ex
    by (auto simp: holders_of_def MemoryTable_is_held_by_def fun_eq_iff)
  have ho: "holders_of t x = set (flatten (mo_holders e))" by (simp add: holders_of_def MemoryTable_is_held_by_def assms(3))
  let ?rest = "flatten (map (\<lambda>s. if s = Some h then None else s) (mo_holders e))"
  have cl: "set ?rest = holders_of t x - {h}" unfolding ho by (auto simp: set_flatten)
  note rm = remove_holder_packs [OF assms(3) holders_ok_find [OF assms(2,3)], of h]
  show "fst (MemoryTable_remove_holder t x h) \<longleftrightarrow> holders_of t x - {h} \<noteq> {}" unfolding rm cl [symmetric] by simp
  show "holders_of (snd (MemoryTable_remove_holder t x h)) = (holders_of t)(x := holders_of t x - {h})"
    unfolding rm snd_conv upd flatten_packed cl ..
  show "holders_of (snd (MemoryTable_set_sole_holder t x h)) = (holders_of t)(x := {h})"
    by (simp add: MemoryTable_set_sole_holder_def assms(3) upd) (simp add: sole_holder_def MAX_HOLDERS_def numeral_eq_Suc)
  have card: "card (holders_of t x) = length (flatten (mo_holders e))" unfolding ho by (rule distinct_card [OF hs(2)])
  show "card (holders_of t x) \<le> MAX_HOLDERS"
    using count_some_le [of "mo_holders e"] unfolding card by (simp add: length_flatten hs(1))
  have full: "card (holders_of t x) = MAX_HOLDERS \<longleftrightarrow> free_slot (mo_holders e) = None"
    unfolding card hs(1) [symmetric] flatten_full free_slot_None_iff ..
  show "MemoryTable_add_holder t x h =
      (if h \<notin> holders_of t x \<and> card (holders_of t x) = MAX_HOLDERS then (Err LimitExceeded, t)
       else (Ok (), snd (MemoryTable_add_holder t x h)))"
    unfolding full unfolding ho by (auto simp: MemoryTable_add_holder_def assms(3) split: option.splits)
  show "holders_of (snd (MemoryTable_add_holder t x h)) = (holders_of t)(x := insert h (holders_of t x))"
    if "fst (MemoryTable_add_holder t x h) = Ok ()"
  proof (cases "h \<in> holders_of t x")
    case True
    then have "MemoryTable_add_holder t x h = (Ok (), t)" unfolding ho by (simp add: MemoryTable_add_holder_def assms(3))
    with True show ?thesis by (simp add: insert_absorb fun_upd_idem)
  next
    case False
    with that obtain i where i: "free_slot (mo_holders e) = Some i"
      unfolding ho by (auto simp: MemoryTable_add_holder_def assms(3) split: option.splits)
    have "set (flatten ((mo_holders e)[i := Some h])) = insert h (set (flatten (mo_holders e)))"
      using flatten_fill_set free_slotD [OF i] by metis
    then show ?thesis using False i unfolding ho by (simp add: MemoryTable_add_holder_def assms(3) upd)
  qed
qed

text \<open>C17: The holders of a memory object are a bounded set of processes. In every table a run
  reaches, an object has at most \<open>MAX_HOLDERS\<close> holders, each of them once. Letting go removes
  that process and no other, and answers whether anybody else still holds the object, so
  that a negative answer is exactly the moment its frames are nobody's; sharing adds the one
  process, and is refused, with \<open>LimitExceeded\<close> and the table as it was, exactly when the
  process is not a holder yet and the set has \<open>MAX_HOLDERS\<close> others; a transfer leaves the
  receiver as the only holder. None of them changes the holders of another object. (Runs and
  configuration as for the soundness of the table.)\<close>
theorem holders_are_a_set:
  assumes "cfg_ok cfg" "bump_accounted a M" "length ops < 2 ^ 32 - 4096"
    and "mem_run cfg bump_frames (MemoryTable_new max_objects max_slots, mem, a) ops = (t, mem', a')"
    and "MemoryTable_find t x = Some e"
  shows "card (holders_of t x) \<le> MAX_HOLDERS \<and> distinct (flatten (mo_holders e)) \<and>
    (fst (MemoryTable_remove_holder t x h) \<longleftrightarrow> holders_of t x - {h} \<noteq> {}) \<and>
    holders_of (snd (MemoryTable_remove_holder t x h)) = (holders_of t)(x := holders_of t x - {h}) \<and>
    holders_of (snd (MemoryTable_set_sole_holder t x h)) = (holders_of t)(x := {h}) \<and>
    (case MemoryTable_add_holder t x h of
        (Ok _, t') \<Rightarrow> (h \<in> holders_of t x \<or> card (holders_of t x) < MAX_HOLDERS) \<and>
          holders_of t' = (holders_of t)(x := insert h (holders_of t x))
      | (Err er, t') \<Rightarrow> er = LimitExceeded \<and> t' = t \<and> h \<notin> holders_of t x \<and> card (holders_of t x) = MAX_HOLDERS)"
proof -
  have wf: "mem_wf cfg t" by (rule table_okD(1) [OF run_table_ok(1) [OF assms(1-4)]])
  have "holders_ok (MemoryTable_new max_objects max_slots)" by (auto simp: holders_ok_def MemoryTable_new_def)
  then have ok: "holders_ok t" using mem_run_holders [of "(MemoryTable_new max_objects max_slots, mem, a)" cfg bump_frames ops] assms(4) by simp
  note h = holders_parts [OF wf ok assms(5)]
  have d: "distinct (flatten (mo_holders e))" using holders_ok_find [OF ok assms(5)] by (simp add: holder_set_def)
  have "case MemoryTable_add_holder t x h of
        (Ok _, t') \<Rightarrow> (h \<in> holders_of t x \<or> card (holders_of t x) < MAX_HOLDERS) \<and>
          holders_of t' = (holders_of t)(x := insert h (holders_of t x))
      | (Err er, t') \<Rightarrow> er = LimitExceeded \<and> t' = t \<and> h \<notin> holders_of t x \<and> card (holders_of t x) = MAX_HOLDERS"
  proof (cases "h \<notin> holders_of t x \<and> card (holders_of t x) = MAX_HOLDERS")
    case True
    with h(4) [of h] show ?thesis by simp
  next
    case False
    with h(4) [of h] obtain t' where t': "MemoryTable_add_holder t x h = (Ok (), t')" by metis
    with h(5) [of h] False h(6) show ?thesis by auto
  qed
  with h(1-3,6) d show ?thesis by blast
qed

definition sample_held_ops :: "MemOp list" where
  "sample_held_ops = [OpCreatePaged (ObjectId 7) 2 (ObjectId 9), OpShare (ObjectId 0x1000) (ObjectId 8)]"

definition sample_held :: MemoryTable where
  "sample_held = fst (mem_run sample_cfg bump_frames
     (MemoryTable_new 1 4, \<lambda>_. [], BumpFrameAllocator_new 4 2 sample_boot_map) sample_held_ops)"

theorem holders_are_a_set_witness:
  "fst (MemoryTable_remove_holder sample_held (ObjectId 0x1000) (ObjectId 7)) \<and>
   holders_of (snd (MemoryTable_remove_holder sample_held (ObjectId 0x1000) (ObjectId 7))) (ObjectId 0x1000) =
     holders_of sample_held (ObjectId 0x1000) - {ObjectId 7} \<and>
   card (holders_of sample_held (ObjectId 0x1000)) \<le> MAX_HOLDERS"
proof -
  let ?s = "(MemoryTable_new 1 4, \<lambda>_. [], BumpFrameAllocator_new 4 2 sample_boot_map)"
  obtain m a where r: "mem_run sample_cfg bump_frames ?s sample_held_ops = (sample_held, m, a)"
    unfolding sample_held_def by (metis prod.collapse)
  have c: "cfg_ok sample_cfg" by (simp add: cfg_ok_def sample_cfg_def)
  have l: "length sample_held_ops < 2 ^ 32 - 4096" by (simp add: sample_held_ops_def)
  have "MemoryTable_find sample_held (ObjectId 0x1000) \<noteq> None" by code_simp
  then obtain e where e: "MemoryTable_find sample_held (ObjectId 0x1000) = Some e" by blast
  have "fst (MemoryTable_remove_holder sample_held (ObjectId 0x1000) (ObjectId 7))" by code_simp
  with holders_are_a_set [OF c sample_boot_accounted l r e, of "ObjectId 7"] show ?thesis by simp
qed

subsection \<open>The ids the tables mint\<close>

text \<open>One service-backed object created and destroyed again: only the next id remembers it.\<close>

definition create_and_destroy :: "MemoryConfig \<Rightarrow> 'f FrameOps \<Rightarrow> 'f \<Rightarrow> ObjectId \<Rightarrow> MemoryTable \<Rightarrow> MemoryTable" where
  "create_and_destroy cfg F alloc owner t =
     (case MemoryTable_create_paged cfg t owner 1 owner of
        (Ok x, t1) \<Rightarrow> fst (snd (MemoryTable_destroy F t1 x alloc))
      | (Err _, t1) \<Rightarrow> t1)"

lemma create_and_destroy_new:
  assumes "0 < max_objects" "0 < max_slots" "0 < MAX_OBJECT_PAGES cfg"
  shows "create_and_destroy cfg F alloc owner ((MemoryTable_new max_objects max_slots)\<lparr>mt_next_id := n\<rparr>) =
         (MemoryTable_new max_objects max_slots)\<lparr>mt_next_id := n + 1\<rparr>"
proof -
  obtain a b where ab: "max_objects = Suc a" "max_slots = Suc b" using assms by (metis gr0_conv_Suc)
  have scan: "run_scan (False # replicate b False) 1 0 = Some 0" by (simp add: run_scan.simps)
  show ?thesis
    using assms(3) scan
    by (simp add: create_and_destroy_def MemoryTable_create_paged_def MemoryTable_new_def ab free_slot_def
        MemoryTable_take_run_def Let_def MemoryTable_destroy_def MemoryObject_new_def MemoryTable_free_run_def run_of_def)
qed

text \<open>C38: The object-id ranges the tables reserve do meet. The table never reuses an id, so
  after 4096 memory objects have been created and destroyed, with never more than one alive,
  the next one is given the id the first channel endpoint of the boot was given, and a
  capability for either names both. (The comments at the two id bases say the ranges cannot
  meet however many objects a boot creates.)\<close>
theorem memory_id_meets_channel_id:
  assumes "0 < max_objects" "0 < max_slots" "0 < MAX_OBJECT_PAGES cfg" "0 < max_channels"
  shows "\<exists>ends ct t'. ChannelTable_create_with_objects queue_cap (ChannelTable_new max_channels) = (Ok ends, ct) \<and>
    MemoryTable_create_paged cfg ((create_and_destroy cfg F alloc owner ^^ 4096) (MemoryTable_new max_objects max_slots)) owner 1 owner
      = (Ok (ObjectId CHANNEL_OBJECT_ID_BASE), t') \<and>
    ChannelTable_endpoint_object ct (fst ends) = Some (ObjectId CHANNEL_OBJECT_ID_BASE)"
proof -
  let ?new = "MemoryTable_new max_objects max_slots"
  have run: "(create_and_destroy cfg F alloc owner ^^ k) ?new = ?new\<lparr>mt_next_id := MEMORY_OBJECT_ID_BASE + of_nat k\<rparr>" for k
  proof (induction k)
    case 0
    show ?case by (simp add: MemoryTable_new_def)
  next
    case (Suc k)
    then show ?case by (simp add: create_and_destroy_new [OF assms(1-3)] ac_simps)
  qed
  have id: "MEMORY_OBJECT_ID_BASE + of_nat 4096 = CHANNEL_OBJECT_ID_BASE"
    by (simp add: MEMORY_OBJECT_ID_BASE_def CHANNEL_OBJECT_ID_BASE_def)
  obtain a b c where ab: "max_objects = Suc a" "max_slots = Suc b" "max_channels = Suc c" using assms by (metis gr0_conv_Suc)
  have scan: "run_scan (False # replicate b False) 1 0 = Some 0" by (simp add: run_scan.simps)
  have "\<exists>t'. MemoryTable_create_paged cfg (?new\<lparr>mt_next_id := CHANNEL_OBJECT_ID_BASE\<rparr>) owner 1 owner = (Ok (ObjectId CHANNEL_OBJECT_ID_BASE), t')"
    using assms(3) scan by (simp add: MemoryTable_create_paged_def MemoryTable_new_def ab free_slot_def MemoryTable_take_run_def Let_def)
  moreover have "\<exists>ends ct. ChannelTable_create_with_objects queue_cap (ChannelTable_new max_channels) = (Ok ends, ct) \<and>
      ChannelTable_endpoint_object ct (fst ends) = Some (ObjectId CHANNEL_OBJECT_ID_BASE)"
    by (simp add: ChannelTable_create_with_objects_def ChannelTable_create_def ChannelTable_new_def ab free_slot_def Let_def
        ChannelTable_set_endpoint_object_def ChannelTable_channel_def ChannelTable_endpoint_object_def get_opt_def
        Channel_set_object_def Channel_object_def Channel_new_def)
  ultimately show ?thesis unfolding run id by blast
qed

theorem memory_id_meets_channel_id_witness:
  "\<exists>ends ct t'. ChannelTable_create_with_objects 2 (ChannelTable_new 1) = (Ok ends, ct) \<and>
    MemoryTable_create_paged sample_cfg ((create_and_destroy sample_cfg bump_frames (BumpFrameAllocator_new 1 1 []) (ObjectId 7) ^^ 4096)
      (MemoryTable_new 1 1)) (ObjectId 7) 1 (ObjectId 7) = (Ok (ObjectId CHANNEL_OBJECT_ID_BASE), t') \<and>
    ChannelTable_endpoint_object ct (fst ends) = Some (ObjectId CHANNEL_OBJECT_ID_BASE)"
  by (rule memory_id_meets_channel_id) (simp_all add: sample_cfg_def)

end
