(* ===== verification/Spec2Isabelle.thy ===== *)
theory Spec2Isabelle
  imports Authority Channels Sched Ports Waits Jobs Processes MemoryRuns
begin

text \<open>
  A verification development for the kernel core of the Tessera capability microkernel
  (\<^verbatim>\<open>src/kernel/kcore\<close> and the architecture-neutral half of \<^verbatim>\<open>src/kernel/karch\<close>).

  \<^bold>\<open>The program.\<close> A process acts on kernel objects through its handle table, whose entries pair
  an object with a rights mask. Processes exchange messages, and handles with them, over
  channels; wait for signals on ports and for memory words in wait sets; are grouped in a
  tree of jobs that bounds and kills them; and run threads chosen by a per-processor
  scheduler. Their memory is an address space: a table of mappings over the page tables of
  the architecture port, fed by the physical frame allocator, which is itself fed by the
  memory map the boot loader hands over.

  \<^bold>\<open>How the code is modelled.\<close> A method that mutates its receiver is a function that returns the
  result and the new state; \<open>'a res\<close> is Rust's \<open>Result\<close> with the kernel's error type. A
  definition \<open>Type_method\<close> translates the method of that name; a loop is a recursive function
  named after what it does. A fixed array is a list whose length is the array's capacity, so
  the capacities of the source (\<^verbatim>\<open>MAX_HANDLES\<close>, \<^verbatim>\<open>QUEUE_CAP\<close>, \<^verbatim>\<open>MAX_MAPPINGS\<close> and the others) are
  arguments of the constructors. Ids, generations, addresses, rights and counters that can
  wrap are words of the width the source gives them; indices are naturals. A trait is a record of
  operations, and what a client may rely on is a locale over it. Events written to the trace
  are left out.

  \<^bold>\<open>The theories.\<close>
  \<^item> \<open>Prelude\<close>, \<open>Tables\<close>, \<open>Queues\<close>: errors and results (\<^verbatim>\<open>karch/src/error.rs\<close>), slot arrays, ring
    buffers, packed ids; the contracts of generational tables (\<open>gen_table\<close>) and of bounded
    queues (\<open>bounded_fifo\<close>).
  \<^item> \<open>Rights\<close>, \<open>Objects\<close>, \<open>Handles\<close> (\<^verbatim>\<open>rights.rs\<close>, \<^verbatim>\<open>object.rs\<close>, \<^verbatim>\<open>handle.rs\<close>): rights as a lattice, and the
    two tables as generational tables. \<open>Authority\<close> runs the operations together: references
    are conserved, rights are never amplified, a handle given up stays dead.
  \<^item> \<open>Channels\<close> (\<^verbatim>\<open>ipc.rs\<close>): the ring buffer of an endpoint implements a bounded queue; headers
    survive the wire; messages are never trimmed; object ids resolve to the right endpoint.
  \<^item> \<open>Sched\<close> (\<^verbatim>\<open>sched.rs\<close>, \<^verbatim>\<open>thread.rs\<close>): no entry point panics over any sequence of operations and a
    terminated thread that was not running stays so; the invariant of the ready ring over
    sequences whose handoffs are to parked threads; the choice of the most urgent thread, and
    round robin.
  \<^item> \<open>Ports\<close> (\<^verbatim>\<open>port.rs\<close>), \<open>Waits\<close> (\<^verbatim>\<open>wait.rs\<close>), \<open>Jobs\<close> (\<^verbatim>\<open>job.rs\<close>): edges are delivered or still
    pending; wait keys name words; limits tighten down the job tree and a kill works from the
    leaves up.
  \<^item> \<open>Addr\<close>, \<open>BootMap\<close> (\<^verbatim>\<open>karch/src/addr.rs\<close>, \<^verbatim>\<open>boot.rs\<close>): alignment arithmetic; the normalised memory
    map is sorted, disjoint and says of every byte what the strongest claim says.
  \<^item> \<open>Paging\<close> (\<^verbatim>\<open>karch/src/vm.rs\<close>, \<^verbatim>\<open>karch-mock\<close>): page flags, and the contracts \<open>frame_source\<close> and
    \<open>arch_space\<close>, interpreted on the host port. \<open>Frames\<close> (\<^verbatim>\<open>pmem.rs\<close>) interprets the first on the
    kernel's allocator: no frame is handed out twice, and none is lost silently.
  \<^item> \<open>Spaces\<close> (\<^verbatim>\<open>vm.rs\<close>): every operation of an address space. \<open>VmSafety\<close>: a frame is given back only
    behind a shootdown. \<open>VmAccounting\<close>: teardown returns every frame, with the rest of the
    kernel drawing, sharing and returning frames meanwhile. \<open>VmFaults\<close>: mapping is all or
    nothing, a resolved fault makes progress and disturbs nobody, and a teardown frees
    whatever is mapped inside the table.
  \<^item> \<open>Keyed\<close>: slot arrays searched by a key, as finite maps. \<open>Pager\<close> (\<^verbatim>\<open>pager.rs\<close>): the page cache of a
    memory object keeps every store until it is written back, the reservation for write-back
    holds, and the guard on page-in requests refuses exactly the cycles. \<open>Memory\<close> (\<^verbatim>\<open>memory.rs\<close>):
    memory objects, their frame runs and their holders. \<open>MemoryRuns\<close>: every sequence of
    operations keeps the table sound, creation yields zeroed frames or undoes itself.
  \<^item> \<open>Elf\<close> (\<^verbatim>\<open>elf.rs\<close>): the parser of program images stays within the image, and a load leaves in
    an address space exactly the segments of the image, or something a teardown returns.
    \<open>Processes\<close> (\<^verbatim>\<open>process.rs\<close>): processes and their pool; device windows and memory grants are
    revoked, with every page and frame behind them, when the capability leaves.

  \<^bold>\<open>Bounds.\<close> No fuel is used: every loop of the source that is modelled terminates, by structural
  recursion or by a measure. Generations are 16-bit, so the statement on stale handles is
  bounded by 65535 operations; ids of channel objects are 32-bit and the statement on them
  assumes that the table is small enough for the ids not to wrap; runs of the memory table are
  shorter than 2^32 - 4096 operations for the same reason.

  \<^bold>\<open>What the runs assume.\<close> The sequences of operations the invariants range over are those of the
  code except for these conditions, which the code does not check. The ready ring needs every
  handoff to be to a parked thread. The accounting of a space needs ranges that do not wrap
  (the user bound implies it), no copy-on-write fault, room to count the references that are
  shared, and no device window inside a mapping; \<^verbatim>\<open>map_shared\<close> is not one of its steps. The page
  cache needs at most one write-back request per page at a time, and a service that reports a
  page on its own to have persisted what the page holds then. The memory table needs a cache
  of at least as many pages as an object may have, which the default configuration satisfies.
  For the handoffs, the references without room, the device windows and the overlapping
  requests, a theorem of \<open>Sched\<close>, \<open>Frames\<close>, \<open>VmFaults\<close> and \<open>Pager\<close> shows what goes wrong without it.

  \<^bold>\<open>Not modelled.\<close> The executive and the system call dispatcher that compose these parts, the
  device manager, the system calls that create and start processes, the mount policy of the
  boot store, the multiprocessor machinery below a shootdown, the hardware page tables, and
  everything above the system calls.
\<close>

end
